(* ===== verification/Prelude.thy ===== *)
theory Prelude
  imports Main "HOL-Library.Word" "HOL-Library.List_Lexorder" "HOL-Library.Sublist"
begin

text \<open>
  Shared vocabulary of the development: the machine types the Rust sources use, the error
  type of \<^verbatim>\<open>src/errors.rs\<close> with panics made explicit, the \<open>Result\<close> combinators, the
  fixed-width integer encodings that every database row is built from, and the generic
  lemmas on lists, lexicographic order and maps that the component theories share.

  A \<open>usize\<close> that counts or indexes is a \<^typ>\<open>nat\<close>; integers whose width matters (heights
  stored as \<open>u32\<close>, amounts stored as \<open>u64\<close>, bytes) are words, so that a cast \<open>as u32\<close>
  truncates and an addition wraps as it does in the release build.
\<close>

section \<open>Collections\<close>

named_theorems row_simps \<open>unfolding of the row encoders\<close>
named_theorems res_simps \<open>evaluation of the result combinators\<close>
named_theorems db_laws \<open>consequences of the key-value store contract\<close>

section \<open>Machine types\<close>

type_synonym u8 = "8 word"
type_synonym u32 = "32 word"
type_synonym u64 = "64 word"
type_synonym bytes = "u8 list"

text \<open>\<open>[u8; 32]\<close>, the byte arrays behind \<open>FullHash\<close>, \<open>Txid\<close> and \<open>BlockHash\<close>.\<close>

type_synonym fullhash = "256 word"
type_synonym txid = fullhash
type_synonym blockhash = fullhash

record outpoint =
  op_txid :: txid
  op_vout :: u32

section \<open>Errors and panics\<close>

text \<open>
  The error kinds of \<^verbatim>\<open>src/errors.rs\<close> that the modelled code raises. \<open>Msg\<close> is an error made
  from a string (\<open>bail!\<close>, \<open>chain_err\<close>); \<open>Panic\<close> is an unwinding that is not an \<open>Err\<close> value
  of the source (\<open>assert!\<close>, \<open>unwrap\<close>, \<open>expect\<close>, indexing out of range).
\<close>

datatype error =
    Panic string
  | Msg string
  | RocksDb string
  | Connection string
  | RpcError int string string
  | Interrupt int
  | TooPopular
  | TooManyUtxos
  | TooBigHistory
  | TooManySubscriptions nat
  | MissingTxo outpoint
  | InvalidParams string
  | DaemonBusy string
  | DaemonUnavailable string
  | PerLineResponseOverflow
  | ResponseBudgetExhausted
  | ClientWriteTimeout

type_synonym 'a res = "error + 'a"

definition rbind :: "'a res \<Rightarrow> ('a \<Rightarrow> 'b res) \<Rightarrow> 'b res" where
  "rbind m f = (case m of Inl e \<Rightarrow> Inl e | Inr x \<Rightarrow> f x)"

definition rmap :: "('a \<Rightarrow> 'b) \<Rightarrow> 'a res \<Rightarrow> 'b res" where
  "rmap f m = (case m of Inl e \<Rightarrow> Inl e | Inr x \<Rightarrow> Inr (f x))"

definition ensure :: "bool \<Rightarrow> error \<Rightarrow> unit res" where
  "ensure b e = (if b then Inr () else Inl e)"

definition expect :: "string \<Rightarrow> 'a option \<Rightarrow> 'a res" where
  "expect msg v = (case v of None \<Rightarrow> Inl (Panic msg) | Some x \<Rightarrow> Inr x)"

definition ok_or :: "error \<Rightarrow> 'a option \<Rightarrow> 'a res" where
  "ok_or e v = (case v of None \<Rightarrow> Inl e | Some x \<Rightarrow> Inr x)"

text \<open>\<open>Iterator::collect::<Result<Vec<_>>>()\<close>: the first error met, or all the values.\<close>

fun collect :: "'a res list \<Rightarrow> 'a list res" where
  "collect [] = Inr []"
| "collect (Inl e # xs) = Inl e"
| "collect (Inr x # xs) = rmap (Cons x) (collect xs)"

text \<open>A loop whose body may fail or panic: the state is threaded until the first error.\<close>

fun rfold :: "('s \<Rightarrow> 'a \<Rightarrow> 's res) \<Rightarrow> 's \<Rightarrow> 'a list \<Rightarrow> 's res" where
  "rfold f s [] = Inr s"
| "rfold f s (x # xs) = rbind (f s x) (\<lambda>s'. rfold f s' xs)"

lemma rbind_simps [simp, res_simps]:
  "rbind (Inl e) f = Inl e"
  "rbind (Inr x) f = f x"
  by (simp_all add: rbind_def)

lemma rmap_simps [simp, res_simps]:
  "rmap f (Inl e) = Inl e"
  "rmap f (Inr x) = Inr (f x)"
  by (simp_all add: rmap_def)

lemma ensure_simps [simp, res_simps]:
  "ensure True e = Inr ()"
  "ensure False e = Inl e"
  by (simp_all add: ensure_def)

lemma expect_simps [simp, res_simps]:
  "expect msg None = Inl (Panic msg)"
  "expect msg (Some x) = Inr x"
  by (simp_all add: expect_def)

lemma ok_or_simps [simp, res_simps]:
  "ok_or e None = Inl e"
  "ok_or e (Some x) = Inr x"
  by (simp_all add: ok_or_def)

lemma rbind_Inr_iff: "rbind m f = Inr y \<longleftrightarrow> (\<exists>x. m = Inr x \<and> f x = Inr y)"
  by (cases m) auto

lemma rmap_Inr_iff: "rmap f m = Inr y \<longleftrightarrow> (\<exists>x. m = Inr x \<and> f x = y)"
  by (cases m) auto

lemma ensure_Inr_iff [simp]: "ensure b e = Inr u \<longleftrightarrow> b"
  by (cases b) auto

lemma expect_Inr_iff [simp]: "expect msg v = Inr x \<longleftrightarrow> v = Some x"
  by (cases v) auto

lemma ok_or_Inr_iff [simp]: "ok_or e v = Inr x \<longleftrightarrow> v = Some x"
  by (cases v) auto

lemmas res_iffs = rbind_Inr_iff rmap_Inr_iff

lemma collect_map_Inr [simp]: "collect (map (\<lambda>x. Inr (f x)) xs) = Inr (map f xs)"
  by (induction xs) simp_all

lemma collect_Inr_iff: "collect xs = Inr ys \<longleftrightarrow> xs = map Inr ys"
proof (induction xs arbitrary: ys)
  case Nil
  then show ?case by auto
next
  case (Cons x xs)
  then show ?case by (cases x; cases ys) (auto simp: res_iffs)
qed

lemma collect_total: "(\<exists>ys. collect xs = Inr ys) \<longleftrightarrow> (\<forall>x \<in> set xs. \<exists>y. x = Inr y)"
proof (induction xs)
  case (Cons x xs)
  then show ?case by (cases x) (auto simp: res_iffs)
qed simp

lemma collect_map_iff: "collect (map f xs) = Inr ys \<longleftrightarrow> list_all2 (\<lambda>x y. f x = Inr y) xs ys"
proof (induction xs arbitrary: ys)
  case (Cons x xs)
  show ?case by (cases "f x") (auto simp: res_iffs list_all2_Cons1 Cons.IH)
qed auto

lemma collect_map_total: "(\<exists>ys. collect (map f xs) = Inr ys) \<longleftrightarrow> (\<forall>x \<in> set xs. \<exists>y. f x = Inr y)"
  by (simp add: collect_total)

lemma collect_map_mem:
  assumes "collect (map f xs) = Inr ys"
  shows "y \<in> set ys \<longleftrightarrow> (\<exists>x \<in> set xs. f x = Inr y)"
proof -
  have "Inr y \<in> set (map f xs) \<longleftrightarrow> y \<in> set ys" using assms unfolding collect_Inr_iff by auto
  then show ?thesis by force
qed

lemma rfold_append: "rfold f s (xs @ ys) = rbind (rfold f s xs) (\<lambda>s'. rfold f s' ys)"
proof (induction xs arbitrary: s)
  case (Cons x xs)
  then show ?case by (cases "f s x") simp_all
qed simp

lemma rfold_Inr_fold: "rfold (\<lambda>s x. Inr (f x s)) s xs = Inr (fold f xs s)"
  by (induction xs arbitrary: s) simp_all

section \<open>Fixed-width integer encodings\<close>

text \<open>
  \<open>le_nat n x\<close> is the \<open>n\<close>-byte little-endian encoding of \<open>x\<close>; \<open>be_nat\<close> the big-endian one.
  \<open>u32::to_le_bytes\<close>, the fixed-width integers of \<open>bincode\<close> and the byte arrays of hashes are
  instances.
\<close>

fun le_nat :: "nat \<Rightarrow> nat \<Rightarrow> bytes" where
  "le_nat 0 x = []"
| "le_nat (Suc n) x = of_nat (x mod 256) # le_nat n (x div 256)"

fun of_le :: "bytes \<Rightarrow> nat" where
  "of_le [] = 0"
| "of_le (b # bs) = unat b + 256 * of_le bs"

definition be_nat :: "nat \<Rightarrow> nat \<Rightarrow> bytes" where
  "be_nat n x = rev (le_nat n x)"

definition of_be :: "bytes \<Rightarrow> nat" where
  "of_be bs = of_le (rev bs)"

lemma length_le_nat [simp]: "length (le_nat n x) = n"
  by (induction n arbitrary: x) simp_all

lemma length_be_nat [simp]: "length (be_nat n x) = n"
  by (simp add: be_nat_def)

lemma unat_of_nat_256 [simp]: "unat (of_nat (x mod 256) :: u8) = x mod 256"
  by (simp add: unat_of_nat)

lemma unat_bounds:
  "unat (b :: u8) < 256"
  "unat (w :: u32) < 256 ^ 4"
  "unat (v :: u64) < 256 ^ 8"
  "unat (h :: fullhash) < 256 ^ 32"
  using unsigned_less [of b, where ?'a = nat] unsigned_less [of w, where ?'a = nat]
    unsigned_less [of v, where ?'a = nat] unsigned_less [of h, where ?'a = nat]
  by simp_all

lemma of_le_le_nat [simp]: "of_le (le_nat n x) = x mod 256 ^ n"
proof (induction n arbitrary: x)
  case (Suc n)
  have "x mod (256 * 256 ^ n) = 256 * (x div 256 mod 256 ^ n) + x mod 256"
    by (rule mod_mult2_eq)
  with Suc show ?case by simp
qed simp

lemma of_be_be_nat [simp]: "of_be (be_nat n x) = x mod 256 ^ n"
  by (simp add: of_be_def be_nat_def)

lemma le_nat_of_le [simp]: "le_nat (length bs) (of_le bs) = bs"
proof (induction bs)
  case (Cons b bs)
  have b: "unat b < 256" by (rule unat_bounds)
  then have "(unat b + 256 * of_le bs) mod 256 = unat b"
    and "(unat b + 256 * of_le bs) div 256 = of_le bs"
    by simp_all
  with Cons show ?case by simp
qed simp

lemma of_le_bound: "of_le bs < 256 ^ length bs"
proof (induction bs)
  case (Cons b bs)
  have "unat b < 256" by (rule unat_bounds)
  with Cons show ?case by simp
qed simp

definition u32_le :: "u32 \<Rightarrow> bytes" where
  "u32_le w = le_nat 4 (unat w)"

definition u32_be :: "u32 \<Rightarrow> bytes" where
  "u32_be w = be_nat 4 (unat w)"

definition u64_le :: "u64 \<Rightarrow> bytes" where
  "u64_le w = le_nat 8 (unat w)"

definition u64_be :: "u64 \<Rightarrow> bytes" where
  "u64_be w = be_nat 8 (unat w)"

definition hash_bytes :: "fullhash \<Rightarrow> bytes" where
  "hash_bytes h = be_nat 32 (unat h)"

definition hash_of_bytes :: "bytes \<Rightarrow> fullhash" where
  "hash_of_bytes bs = of_nat (of_be bs)"

lemma lengths [simp]:
  "length (u32_le w) = 4" "length (u32_be w) = 4"
  "length (u64_le v) = 8" "length (u64_be v) = 8"
  "length (hash_bytes h) = 32"
  by (simp_all add: u32_le_def u32_be_def u64_le_def u64_be_def hash_bytes_def)

lemma unat_mod_width:
  "unat (w :: u32) mod 256 ^ 4 = unat w"
  "unat (v :: u64) mod 256 ^ 8 = unat v"
  "unat (h :: fullhash) mod 256 ^ 32 = unat h"
  by (rule mod_less, rule unat_bounds)+

lemma word_of_nat_unat: "of_nat (unat w) = (w :: 'a::len word)"
  by simp

lemma of_bytes_inverse [simp]:
  "of_le (u32_le w) = unat w" "of_be (u32_be w) = unat w"
  "of_le (u64_le v) = unat v" "of_be (u64_be v) = unat v"
  "of_be (hash_bytes h) = unat h" "hash_of_bytes (hash_bytes h) = h"
  by (simp_all only: u32_le_def u32_be_def u64_le_def u64_be_def hash_bytes_def hash_of_bytes_def
      of_le_le_nat of_be_be_nat unat_mod_width word_of_nat_unat)

lemma encode_inject [simp]:
  "u32_le w = u32_le w' \<longleftrightarrow> w = w'" "u32_be w = u32_be w' \<longleftrightarrow> w = w'"
  "u64_le v = u64_le v' \<longleftrightarrow> v = v'" "u64_be v = u64_be v' \<longleftrightarrow> v = v'"
  "hash_bytes h = hash_bytes h' \<longleftrightarrow> h = h'"
  by (metis of_bytes_inverse(1) word_of_nat_unat, metis of_bytes_inverse(2) word_of_nat_unat,
      metis of_bytes_inverse(3) word_of_nat_unat, metis of_bytes_inverse(4) word_of_nat_unat,
      metis of_bytes_inverse(6))

section \<open>Lexicographic order on byte strings\<close>

text \<open>
  Byte strings compare as \<open>Vec<u8>\<close> and the bytewise comparator of the store do: by the first
  byte that differs, a proper prefix being smaller. This is the order of \<open>List_Lexorder\<close>.
\<close>

lemma lex_append_same [simp]: "((a :: bytes) @ b < a @ c) = (b < c)"
  by (induction a) simp_all

lemma lex_append_le_same [simp]: "((a :: bytes) @ b \<le> a @ c) = (b \<le> c)"
  by (induction a) simp_all

lemma lex_append_less:
  assumes "length a = length c"
  shows "((a :: bytes) @ b < c @ d) = (a < c \<or> a = c \<and> b < d)"
  using assms by (induction a c rule: list_induct2) auto

lemma lex_append_leq:
  assumes "length a = length c"
  shows "((a :: bytes) @ b \<le> c @ d) = (a < c \<or> a = c \<and> b \<le> d)"
  using assms by (induction a c rule: list_induct2) auto

lemma prefix_imp_le: "prefix p (k :: bytes) \<Longrightarrow> p \<le> k"
proof -
  assume "prefix p k"
  then obtain s where "k = p @ s" by (auto simp: prefix_def)
  moreover have "p @ [] \<le> p @ s" by (simp only: lex_append_le_same) simp
  ultimately show ?thesis by simp
qed

text \<open>From a prefix upwards, the keys that have the prefix come first.\<close>

lemma not_prefix_upward:
  "(p :: bytes) \<le> k \<Longrightarrow> \<not> prefix p k \<Longrightarrow> k \<le> k' \<Longrightarrow> \<not> prefix p k'"
proof (induction p arbitrary: k k')
  case (Cons a p)
  then obtain b q where k: "k = b # q" by (cases k) auto
  show ?case
  proof
    assume "prefix (a # p) k'"
    then obtain q' where k': "k' = a # q'" "prefix p q'" by (cases k') auto
    with Cons.prems k have "b = a" "p \<le> q" "\<not> prefix p q" "q \<le> q'" by auto
    with Cons.IH [of q q'] k'(2) show False by blast
  qed
qed simp

lemma takeWhile_eq_filter:
  assumes "sorted_wrt r xs" and "\<And>x y. x \<in> set xs \<Longrightarrow> y \<in> set xs \<Longrightarrow> r x y \<Longrightarrow> P y \<Longrightarrow> P x"
  shows "takeWhile P xs = filter P xs"
  using assms
proof (induction xs)
  case (Cons x xs)
  show ?case
  proof (cases "P x")
    case True
    then show ?thesis using Cons by auto
  next
    case False
    then have "\<forall>y \<in> set xs. \<not> P y" using Cons.prems by auto
    with False show ?thesis by (simp add: filter_empty_conv)
  qed
qed simp

lemma be_nat_Suc: "be_nat (Suc n) x = be_nat n (x div 256) @ [of_nat (x mod 256)]"
  by (simp add: be_nat_def)

lemma digit_less_iff:
  "r < 256 \<Longrightarrow> r' < 256 \<Longrightarrow>
     (256 * q + r < 256 * q' + r') = (q < q' \<or> q = q' \<and> r < (r' :: nat))"
  by (cases q q' rule: linorder_cases) linarith+

text \<open>Big-endian encodings order as the numbers do.\<close>

lemma be_nat_less_iff:
  assumes "x < 256 ^ n" and "y < 256 ^ n"
  shows "be_nat n x < be_nat n y \<longleftrightarrow> x < y"
  using assms
proof (induction n arbitrary: x y)
  case 0
  then show ?case by (simp add: be_nat_def)
next
  case (Suc n)
  have bounds: "x div 256 < 256 ^ n" "y div 256 < 256 ^ n"
    using Suc.prems by (simp_all add: less_mult_imp_div_less mult.commute)
  have eq: "be_nat n (x div 256) = be_nat n (y div 256) \<longleftrightarrow> x div 256 = y div 256"
    by (metis bounds of_be_be_nat mod_less)
  have last: "((of_nat (x mod 256) :: u8) < of_nat (y mod 256)) = (x mod 256 < y mod 256)"
    by (simp add: word_less_nat_alt)
  have "be_nat (Suc n) x < be_nat (Suc n) y \<longleftrightarrow>
      x div 256 < y div 256 \<or> x div 256 = y div 256 \<and> x mod 256 < y mod 256"
    unfolding be_nat_Suc by (simp add: lex_append_less Suc.IH [OF bounds] eq last)
  also have "\<dots> \<longleftrightarrow> 256 * (x div 256) + x mod 256 < 256 * (y div 256) + y mod 256"
    by (rule digit_less_iff [symmetric]) simp_all
  finally show ?case by simp
qed

lemma u32_be_less_iff [simp]: "u32_be a < u32_be b \<longleftrightarrow> a < b"
proof -
  have "unat a < 256 ^ 4" "unat b < 256 ^ 4"
    by (rule unat_bounds)+
  then show ?thesis by (simp add: u32_be_def be_nat_less_iff word_less_nat_alt)
qed

lemma u32_be_le_iff [simp]: "u32_be a \<le> u32_be b \<longleftrightarrow> a \<le> b"
  by (simp add: linorder_not_less [symmetric])

end
