(* ===== verification/Chain.thy ===== *)
theory Chain
  imports Prelude
begin

text \<open>
  The chain data of \<^verbatim>\<open>src/chain.rs\<close> (the Bitcoin build, without the \<open>liquid\<close> feature) and the
  transaction helpers of \<^verbatim>\<open>src/util/transaction.rs\<close>. The structs come from the \<open>bitcoin\<close> crate;
  their consensus encodings, hashes and script predicates are not part of this repository and
  are the operations of the record \<open>bitcoin_lib\<close>, which every definition that uses them takes
  as a parameter (\<open>serde_hash\<close> is how its hash types serialize with \<open>serde\<close> in a binary
  format). \<open>bitcoin_laws\<close> is the documented behaviour the code relies on: decoding an
  encoding gives the value back, and a block is encoded as its header, the number of its
  transactions and the transactions.
\<close>

section \<open>Chain data\<close>

record block_header =
  hdr_version :: u32
  prev_blockhash :: blockhash
  merkle_root :: fullhash
  hdr_time :: u32
  hdr_bits :: u32
  hdr_nonce :: u32

record txin =
  previous_output :: outpoint
  script_sig :: bytes
  tx_sequence :: u32
  witness :: "bytes list"

record txout =
  txo_value :: u64
  script_pubkey :: bytes

record transaction =
  tx_version :: u32
  lock_time :: u32
  tx_input :: "txin list"
  tx_output :: "txout list"

record block =
  blk_header :: block_header
  txdata :: "transaction list"

datatype network = Bitcoin | Testnet | Testnet4 | Regtest | Signet

definition is_regtest :: "network \<Rightarrow> bool" where
  "is_regtest n = (case n of Regtest \<Rightarrow> True | _ \<Rightarrow> False)"

definition names :: "string list" where
  "names = [''mainnet'', ''testnet'', ''testnet4'', ''regtest'', ''signet'']"

definition network_from_str :: "string \<Rightarrow> network res" where
  "network_from_str s =
     (if s = ''mainnet'' then Inr Bitcoin
      else if s = ''testnet'' then Inr Testnet
      else if s = ''testnet4'' then Inr Testnet4
      else if s = ''regtest'' then Inr Regtest
      else if s = ''signet'' then Inr Signet
      else Inl (Panic ''unsupported Bitcoin network''))"

text \<open>
  \<open>OutPoint\<close> is ordered by its fields, a txid by its bytes: the order in which a
  \<open>BTreeSet<OutPoint>\<close> is iterated.
\<close>

instantiation outpoint_ext :: (linorder) linorder
begin

definition less_eq_outpoint_ext :: "('a :: linorder) outpoint_scheme \<Rightarrow> 'a outpoint_scheme \<Rightarrow> bool" where
  "less_eq_outpoint_ext p q \<longleftrightarrow>
     op_txid p < op_txid q \<or> op_txid p = op_txid q \<and>
       (op_vout p < op_vout q \<or> op_vout p = op_vout q \<and> outpoint.more p \<le> outpoint.more q)"

definition less_outpoint_ext :: "('a :: linorder) outpoint_scheme \<Rightarrow> 'a outpoint_scheme \<Rightarrow> bool" where
  "less_outpoint_ext p q \<longleftrightarrow>
     op_txid p < op_txid q \<or> op_txid p = op_txid q \<and>
       (op_vout p < op_vout q \<or> op_vout p = op_vout q \<and> outpoint.more p < outpoint.more q)"

instance
  by standard (auto simp: less_eq_outpoint_ext_def less_outpoint_ext_def)

end

section \<open>The \<open>bitcoin\<close> crate as a parameter\<close>

record bitcoin_lib =
  block_hash :: "block_header \<Rightarrow> blockhash"
  compute_txid :: "transaction \<Rightarrow> txid"
  ser_header :: "block_header \<Rightarrow> bytes"
  deser_header :: "bytes \<Rightarrow> block_header option"
  ser_tx :: "transaction \<Rightarrow> bytes"
  deser_tx :: "bytes \<Rightarrow> transaction option"
  ser_txout :: "txout \<Rightarrow> bytes"
  deser_txout :: "bytes \<Rightarrow> txout option"
  ser_block :: "block \<Rightarrow> bytes"
  deser_block :: "bytes \<Rightarrow> block option"
  ser_varint :: "nat \<Rightarrow> bytes"
  total_size :: "block \<Rightarrow> nat"
  sha256 :: "bytes \<Rightarrow> fullhash"
  sha256d :: "bytes \<Rightarrow> fullhash"
  is_null :: "outpoint \<Rightarrow> bool"
  is_op_return :: "bytes \<Rightarrow> bool"
  tx_is_coinbase :: "transaction \<Rightarrow> bool"
  tx_weight :: "transaction \<Rightarrow> u64"
  block_weight :: "block \<Rightarrow> u64"
  address_from_script :: "bytes \<Rightarrow> network \<Rightarrow> bytes option"
  serde_hash :: "fullhash \<Rightarrow> bytes"
  deserde_hash :: "bytes \<Rightarrow> (fullhash \<times> bytes) option"

definition bitcoin_laws :: "bitcoin_lib \<Rightarrow> bool" where
  "bitcoin_laws B \<longleftrightarrow>
     (\<forall>h. deser_header B (ser_header B h) = Some h) \<and>
     (\<forall>t. deser_tx B (ser_tx B t) = Some t) \<and>
     (\<forall>o'. deser_txout B (ser_txout B o') = Some o') \<and>
     (\<forall>b. deser_block B (ser_block B b) = Some b) \<and>
     (\<forall>b. ser_block B b = ser_header B (blk_header b) @ ser_varint B (length (txdata b)) @ concat (map (ser_tx B) (txdata b))) \<and>
     (\<forall>h r. deserde_hash B (serde_hash B h @ r) = Some (h, r))"

lemma bitcoin_lawsD [dest]:
  assumes "bitcoin_laws B"
  shows "deser_header B (ser_header B h) = Some h"
    and "deser_tx B (ser_tx B t) = Some t"
    and "deser_txout B (ser_txout B o') = Some o'"
    and "deser_block B (ser_block B b) = Some b"
    and "deserde_hash B (serde_hash B h' @ r) = Some (h', r)"
    and "ser_block B b = ser_header B (blk_header b) @ ser_varint B (length (txdata b)) @ concat (map (ser_tx B) (txdata b))"
  using assms by (auto simp: bitcoin_laws_def)

section \<open>Transaction helpers\<close>

definition is_coinbase :: "bitcoin_lib \<Rightarrow> txin \<Rightarrow> bool" where
  "is_coinbase B i = is_null B (previous_output i)"

definition has_prevout :: "bitcoin_lib \<Rightarrow> txin \<Rightarrow> bool" where
  "has_prevout B i = (\<not> is_null B (previous_output i))"

definition is_spendable :: "bitcoin_lib \<Rightarrow> txout \<Rightarrow> bool" where
  "is_spendable B o' = (\<not> is_op_return B (script_pubkey o'))"

definition to_address_str :: "bitcoin_lib \<Rightarrow> bytes \<Rightarrow> network \<Rightarrow> bytes option" where
  "to_address_str B spk n = address_from_script B spk n"

definition compute_script_hash :: "bitcoin_lib \<Rightarrow> bytes \<Rightarrow> fullhash" where
  "compute_script_hash B script = sha256 B script"

text \<open>\<open>iter().enumerate()\<close>, with the index cast by \<open>as u32\<close> as every caller does.\<close>

definition enum32 :: "'a list \<Rightarrow> (u32 \<times> 'a) list" where
  "enum32 xs = map (\<lambda>(i, x). (of_nat i, x)) (enumerate 0 xs)"

text \<open>\<open>get_prev_outpoints\<close> collects into a set (a \<open>BTreeSet\<close>).\<close>

definition get_prev_outpoints :: "bitcoin_lib \<Rightarrow> transaction list \<Rightarrow> outpoint set" where
  "get_prev_outpoints B txs =
     set (concat (map (\<lambda>tx. map previous_output (filter (has_prevout B) (tx_input tx))) txs))"

text \<open>
  \<open>extract_tx_prevouts\<close>: the previous outputs of a transaction by input index, in input order;
  a missing one is skipped if \<open>allow_missing\<close>, else it is an assertion failure.
\<close>

definition extract_tx_prevouts ::
  "bitcoin_lib \<Rightarrow> transaction \<Rightarrow> (outpoint \<Rightarrow> txout option) \<Rightarrow> bool \<Rightarrow> (u32 \<times> txout) list res" where
  "extract_tx_prevouts B tx txos allow_missing =
     rmap concat (collect (map (\<lambda>(i, txi).
       (case txos (previous_output txi) of
          Some txo \<Rightarrow> Inr [(i, txo)]
        | None \<Rightarrow> if allow_missing then Inr [] else Inl (Panic ''missing outpoint'')))
       (filter (\<lambda>(i, txi). has_prevout B txi) (enum32 (tx_input tx)))))"

lemma length_enum32 [simp]: "length (enum32 xs) = length xs"
  by (simp add: enum32_def)

lemma map_snd_enum32 [simp]: "map snd (enum32 xs) = xs"
  by (simp add: enum32_def comp_def case_prod_unfold)

lemma nth_enum32 [simp]: "i < length xs \<Longrightarrow> enum32 xs ! i = (of_nat i, xs ! i)"
  by (simp add: enum32_def nth_enumerate_eq)

lemma set_enum32: "set (enum32 xs) = {(of_nat i, xs ! i) | i. i < length xs}"
  by (force simp: set_conv_nth)

lemma enum32_memD: "(i, x) \<in> set (enum32 xs) \<Longrightarrow> x \<in> set xs"
  by (auto simp: set_enum32)

lemma is_coinbase_has_prevout: "is_coinbase B i \<longleftrightarrow> \<not> has_prevout B i"
  by (simp add: is_coinbase_def has_prevout_def)

lemma unat_of_nat_u32: "i < 2 ^ 32 \<Longrightarrow> unat (of_nat i :: u32) = i"
  by (simp add: unat_of_nat)

lemma of_nat_u32_inject:
  "i < 2 ^ 32 \<Longrightarrow> j < 2 ^ 32 \<Longrightarrow> (of_nat i :: u32) = of_nat j \<longleftrightarrow> i = j"
  by (metis unat_of_nat_u32)

end
