(* ===== verification/Bincode.thy ===== *)
theory Bincode
  imports Prelude
begin

text \<open>
  \<^verbatim>\<open>src/util/bincode.rs\<close>: the serialization of the database rows. Both option sets of the source
  use fixed-width integers, no size limit, and ignore trailing bytes; they differ in endianness
  only. With these options \<open>bincode\<close> writes a struct or tuple as its fields in order, a byte
  array as its bytes, an enum as the \<open>u32\<close> index of the variant followed by its fields, and a
  sequence or map as its \<open>u64\<close> length followed by the elements.

  Readers return the value and the rest of the input, or nothing when the input is too short.
  The locale \<open>codec\<close> is the contract between a writer and its reader that the row types rely on.
\<close>

section \<open>Readers and writers\<close>

datatype endian = Big | Little

definition put_u32 :: "endian \<Rightarrow> u32 \<Rightarrow> bytes" where
  "put_u32 e w = (case e of Big \<Rightarrow> u32_be w | Little \<Rightarrow> u32_le w)"

definition put_u64 :: "endian \<Rightarrow> u64 \<Rightarrow> bytes" where
  "put_u64 e w = (case e of Big \<Rightarrow> u64_be w | Little \<Rightarrow> u64_le w)"

definition of_bytes :: "endian \<Rightarrow> bytes \<Rightarrow> nat" where
  "of_bytes e bs = (case e of Big \<Rightarrow> of_be bs | Little \<Rightarrow> of_le bs)"

definition get_n :: "nat \<Rightarrow> bytes \<Rightarrow> (bytes \<times> bytes) option" where
  "get_n n bs = (if length bs < n then None else Some (take n bs, drop n bs))"

definition bind_dec :: "('a \<times> bytes) option \<Rightarrow> ('a \<Rightarrow> bytes \<Rightarrow> 'b option) \<Rightarrow> 'b option" where
  "bind_dec m f = (case m of None \<Rightarrow> None | Some (x, r) \<Rightarrow> f x r)"

definition get_u8 :: "bytes \<Rightarrow> (u8 \<times> bytes) option" where
  "get_u8 bs = (case bs of [] \<Rightarrow> None | b # r \<Rightarrow> Some (b, r))"

definition get_u32 :: "endian \<Rightarrow> bytes \<Rightarrow> (u32 \<times> bytes) option" where
  "get_u32 e bs = bind_dec (get_n 4 bs) (\<lambda>x r. Some (of_nat (of_bytes e x), r))"

definition get_u64 :: "endian \<Rightarrow> bytes \<Rightarrow> (u64 \<times> bytes) option" where
  "get_u64 e bs = bind_dec (get_n 8 bs) (\<lambda>x r. Some (of_nat (of_bytes e x), r))"

definition get_hash :: "bytes \<Rightarrow> (fullhash \<times> bytes) option" where
  "get_hash bs = bind_dec (get_n 32 bs) (\<lambda>x r. Some (hash_of_bytes x, r))"

text \<open>Sequences: the length, then the elements.\<close>

definition put_seq :: "endian \<Rightarrow> ('a \<Rightarrow> bytes) \<Rightarrow> 'a list \<Rightarrow> bytes" where
  "put_seq e p xs = put_u64 e (of_nat (length xs)) @ concat (map p xs)"

fun get_elems :: "(bytes \<Rightarrow> ('a \<times> bytes) option) \<Rightarrow> nat \<Rightarrow> bytes \<Rightarrow> ('a list \<times> bytes) option" where
  "get_elems g 0 bs = Some ([], bs)"
| "get_elems g (Suc n) bs =
     bind_dec (g bs) (\<lambda>x r. bind_dec (get_elems g n r) (\<lambda>xs r'. Some (x # xs, r')))"

definition get_seq :: "endian \<Rightarrow> (bytes \<Rightarrow> ('a \<times> bytes) option) \<Rightarrow> bytes \<Rightarrow> ('a list \<times> bytes) option" where
  "get_seq e g bs = bind_dec (get_u64 e bs) (\<lambda>n r. get_elems g (unat n) r)"

text \<open>\<open>deserialize\<close>: trailing bytes are allowed, so what a reader leaves is dropped.\<close>

definition deserialize :: "(bytes \<Rightarrow> ('a \<times> bytes) option) \<Rightarrow> bytes \<Rightarrow> 'a option" where
  "deserialize g bs = map_option fst (g bs)"

section \<open>The contract of a writer and its reader\<close>

locale codec =
  fixes enc :: "'a \<Rightarrow> bytes" and dec :: "bytes \<Rightarrow> ('a \<times> bytes) option"
  assumes dec_enc: "dec (enc x @ r) = Some (x, r)"
begin

lemma dec_whole: "dec (enc x) = Some (x, [])"
  using dec_enc [of x "[]"] by simp

lemma deserialize_enc: "deserialize dec (enc x @ r) = Some x"
  by (simp add: deserialize_def dec_enc)

lemma deserialize_whole: "deserialize dec (enc x) = Some x"
  using deserialize_enc [of x "[]"] by simp

text \<open>An encoding followed by anything determines the value: no encoding is a prefix of another.\<close>

lemma enc_append_inject: "enc x @ r = enc y @ s \<longleftrightarrow> x = y \<and> r = s"
proof
  assume "enc x @ r = enc y @ s"
  then have "Some (x, r) = Some (y, s)" by (metis dec_enc)
  then show "x = y \<and> r = s" by simp
qed simp

lemma enc_inject: "enc x = enc y \<longleftrightarrow> x = y"
  using enc_append_inject [of x "[]" y "[]"] by simp

lemma enc_prefix: "prefix (enc x) (enc y @ r) \<Longrightarrow> x = y"
proof -
  assume "prefix (enc x) (enc y @ r)"
  then obtain t where "enc x @ t = enc y @ r" by (metis prefixE)
  then show "x = y" by (simp add: enc_append_inject)
qed

lemma get_elems_enc: "get_elems dec (length xs) (concat (map enc xs) @ r) = Some (xs, r)"
  by (induction xs) (simp_all add: bind_dec_def dec_enc)

end

lemma bind_dec_Some [simp]: "bind_dec (Some (x, r)) f = f x r"
  by (simp add: bind_dec_def)

lemma bind_dec_None [simp]: "bind_dec None f = None"
  by (simp add: bind_dec_def)

lemma get_n_append [simp]: "length a = n \<Longrightarrow> get_n n (a @ r) = Some (a, r)"
  by (auto simp: get_n_def)

lemma length_put [simp]: "length (put_u32 e w) = 4" "length (put_u64 e v) = 8"
  by (cases e; simp add: put_u32_def put_u64_def)+

lemma of_bytes_put [simp]:
  "of_bytes e (put_u32 e w) = unat w" "of_bytes e (put_u64 e v) = unat v"
  by (cases e; simp add: put_u32_def put_u64_def of_bytes_def)+

interpretation u8_codec: codec "\<lambda>b. [b]" get_u8
  by unfold_locales (simp add: get_u8_def)

interpretation u32_codec: codec "put_u32 e" "get_u32 e" for e
  by unfold_locales (simp add: get_u32_def)

interpretation u64_codec: codec "put_u64 e" "get_u64 e" for e
  by unfold_locales (simp add: get_u64_def)

interpretation hash_codec: codec hash_bytes get_hash
  by unfold_locales (simp add: get_hash_def)

lemma get_u32_plain [simp]:
  "get_u32 Big (u32_be w @ r) = Some (w, r)" "get_u32 Little (u32_le w @ r) = Some (w, r)"
  using u32_codec.dec_enc [of Big w r] u32_codec.dec_enc [of Little w r]
  by (simp_all add: put_u32_def)

lemma get_u64_plain [simp]:
  "get_u64 Big (u64_be v @ r) = Some (v, r)" "get_u64 Little (u64_le v @ r) = Some (v, r)"
  using u64_codec.dec_enc [of Big v r] u64_codec.dec_enc [of Little v r]
  by (simp_all add: put_u64_def)

lemmas codec_simps [simp] = hash_codec.dec_enc hash_codec.dec_whole u32_codec.dec_enc
  u32_codec.dec_whole u64_codec.dec_enc u64_codec.dec_whole

lemma get_u8_Cons [simp]: "get_u8 (b # r) = Some (b, r)"
  by (simp add: get_u8_def)

text \<open>A sequence shorter than \<open>2 ^ 64\<close> is read back.\<close>

lemma get_seq_put:
  assumes "codec p g" and "length xs < 2 ^ 64"
  shows "get_seq e g (put_seq e p xs @ r) = Some (xs, r)"
proof -
  have "unat (of_nat (length xs) :: u64) = length xs"
    using assms(2) by (simp add: unat_of_nat)
  then show ?thesis
    using codec.get_elems_enc [OF assms(1)] by (simp add: get_seq_def put_seq_def)
qed

end
