(* ===== verification/Instances.thy ===== *)
theory Instances
  imports Chain Bincode
begin

text \<open>
  A concrete instance of the \<open>bitcoin_lib\<close> parameter: a self-delimiting binary codec for
  headers, transactions and outputs, and small stand-ins for the hashes. It shows that the
  hypotheses \<open>bitcoin_laws\<close> can hold, and the witnesses of the component theories evaluate
  the model on it.
\<close>

section \<open>A self-delimiting codec\<close>

definition enc_list :: "('a \<Rightarrow> bytes) \<Rightarrow> 'a list \<Rightarrow> bytes" where
  "enc_list e xs = concat (map (\<lambda>x. 1 # e x) xs) @ [0]"

fun dec_list_fuel :: "(bytes \<Rightarrow> ('a \<times> bytes) option) \<Rightarrow> nat \<Rightarrow> bytes \<Rightarrow> ('a list \<times> bytes) option" where
  "dec_list_fuel d 0 bs = None"
| "dec_list_fuel d (Suc n) bs =
     (case bs of
        [] \<Rightarrow> None
      | t # r \<Rightarrow>
          if t = 0 then Some ([], r)
          else (case d r of
                  None \<Rightarrow> None
                | Some (x, r') \<Rightarrow> map_option (\<lambda>(xs, q). (x # xs, q)) (dec_list_fuel d n r')))"

definition dec_list :: "(bytes \<Rightarrow> ('a \<times> bytes) option) \<Rightarrow> bytes \<Rightarrow> ('a list \<times> bytes) option" where
  "dec_list d bs = dec_list_fuel d (Suc (length bs)) bs"

lemma dec_list_fuel_enc:
  assumes "codec e d"
  shows "length xs < n \<Longrightarrow> dec_list_fuel d n (enc_list e xs @ r) = Some (xs, r)"
proof (induction xs arbitrary: n)
  case Nil
  then obtain m where "n = Suc m" by (cases n) auto
  then show ?case by (simp add: enc_list_def)
next
  case (Cons x xs)
  then obtain m where m: "n = Suc m" "length xs < m" by (cases n) auto
  have "enc_list e (x # xs) @ r = 1 # e x @ (enc_list e xs @ r)"
    by (simp add: enc_list_def)
  then show ?case
    using Cons.IH [OF m(2)] by (simp add: m(1) codec.dec_enc [OF assms])
qed

lemma length_enc_list: "length xs < length (enc_list e xs)"
  by (induction xs) (auto simp: enc_list_def)

lemma decodes_list:
  assumes "codec e d"
  shows "codec (enc_list e) (dec_list d)"
proof
  fix xs r
  have "length xs < Suc (length (enc_list e xs @ r))"
    using length_enc_list [of xs e] by simp
  then show "dec_list d (enc_list e xs @ r) = Some (xs, r)"
    unfolding dec_list_def by (rule dec_list_fuel_enc [OF assms])
qed

abbreviation "enc_bytes \<equiv> enc_list (\<lambda>b. [b])"
abbreviation "dec_bytes \<equiv> dec_list get_u8"

definition enc_txin :: "txin \<Rightarrow> bytes" where
  "enc_txin i = hash_bytes (op_txid (previous_output i)) @ u32_le (op_vout (previous_output i)) @
     enc_bytes (script_sig i) @ u32_le (tx_sequence i) @ enc_list enc_bytes (witness i)"

definition dec_txin :: "bytes \<Rightarrow> (txin \<times> bytes) option" where
  "dec_txin bs =
     bind_dec (get_hash bs) (\<lambda>h r. bind_dec (get_u32 Little r) (\<lambda>v r. bind_dec (dec_bytes r) (\<lambda>s r.
     bind_dec (get_u32 Little r) (\<lambda>q r. bind_dec (dec_list dec_bytes r) (\<lambda>w r.
       Some (\<lparr>previous_output = \<lparr>op_txid = h, op_vout = v\<rparr>, script_sig = s, tx_sequence = q,
              witness = w\<rparr>, r))))))"

definition enc_txout :: "txout \<Rightarrow> bytes" where
  "enc_txout t = u64_le (txo_value t) @ enc_bytes (script_pubkey t)"

definition dec_txout :: "bytes \<Rightarrow> (txout \<times> bytes) option" where
  "dec_txout bs = bind_dec (get_u64 Little bs) (\<lambda>v r. bind_dec (dec_bytes r) (\<lambda>s r.
     Some (\<lparr>txo_value = v, script_pubkey = s\<rparr>, r)))"

definition enc_tx :: "transaction \<Rightarrow> bytes" where
  "enc_tx t = u32_le (tx_version t) @ u32_le (lock_time t) @ enc_list enc_txin (tx_input t) @
     enc_list enc_txout (tx_output t)"

definition dec_tx :: "bytes \<Rightarrow> (transaction \<times> bytes) option" where
  "dec_tx bs = bind_dec (get_u32 Little bs) (\<lambda>v r. bind_dec (get_u32 Little r) (\<lambda>l r.
     bind_dec (dec_list dec_txin r) (\<lambda>i r. bind_dec (dec_list dec_txout r) (\<lambda>q r.
       Some (\<lparr>tx_version = v, lock_time = l, tx_input = i, tx_output = q\<rparr>, r)))))"

definition enc_header :: "block_header \<Rightarrow> bytes" where
  "enc_header h = u32_le (hdr_version h) @ hash_bytes (prev_blockhash h) @ hash_bytes (merkle_root h) @
     u32_le (hdr_time h) @ u32_le (hdr_bits h) @ u32_le (hdr_nonce h)"

definition dec_header :: "bytes \<Rightarrow> (block_header \<times> bytes) option" where
  "dec_header bs = bind_dec (get_u32 Little bs) (\<lambda>v r. bind_dec (get_hash r) (\<lambda>p r.
     bind_dec (get_hash r) (\<lambda>m r. bind_dec (get_u32 Little r) (\<lambda>t r. bind_dec (get_u32 Little r) (\<lambda>b r.
     bind_dec (get_u32 Little r) (\<lambda>n r. Some (\<lparr>hdr_version = v, prev_blockhash = p, merkle_root = m,
       hdr_time = t, hdr_bits = b, hdr_nonce = n\<rparr>, r)))))))"

interpretation bytes_codec: codec enc_bytes dec_bytes
  by (rule decodes_list) (rule u8_codec.codec_axioms)

interpretation witness_codec: codec "enc_list enc_bytes" "dec_list dec_bytes"
  by (rule decodes_list) (rule bytes_codec.codec_axioms)

lemmas codec_prims = bytes_codec.dec_enc witness_codec.dec_enc

interpretation txin_codec: codec enc_txin dec_txin
  by unfold_locales (simp add: enc_txin_def dec_txin_def codec_prims)

interpretation txout_codec: codec enc_txout dec_txout
  by unfold_locales (simp add: enc_txout_def dec_txout_def codec_prims)

lemmas tx_prims = codec.dec_enc [OF decodes_list [OF txin_codec.codec_axioms]]
  codec.dec_enc [OF decodes_list [OF txout_codec.codec_axioms]]

interpretation tx_codec: codec enc_tx dec_tx
  by unfold_locales (simp add: enc_tx_def dec_tx_def tx_prims)

interpretation header_codec: codec enc_header dec_header
  by unfold_locales (simp add: enc_header_def dec_header_def)

text \<open>A self-delimiting encoding of all numbers.\<close>

definition enc_nat :: "nat \<Rightarrow> bytes" where
  "enc_nat n = replicate n 1 @ [0]"

definition dec_nat :: "bytes \<Rightarrow> (nat \<times> bytes) option" where
  "dec_nat bs = (case dropWhile ((=) 1) bs of [] \<Rightarrow> None | _ # r \<Rightarrow> Some (length (takeWhile ((=) 1) bs), r))"

lemma span_ones:
  "dropWhile ((=) (1 :: u8)) (replicate n 1 @ 0 # r) = 0 # r"
  "takeWhile ((=) (1 :: u8)) (replicate n 1 @ 0 # r) = replicate n 1"
  by (induction n) simp_all

interpretation nat_codec: codec enc_nat dec_nat
  by unfold_locales (simp add: enc_nat_def dec_nat_def span_ones)

definition enc_block :: "block \<Rightarrow> bytes" where
  "enc_block b = enc_header (blk_header b) @ enc_nat (length (txdata b)) @ concat (map enc_tx (txdata b))"

definition dec_block :: "bytes \<Rightarrow> (block \<times> bytes) option" where
  "dec_block bs = bind_dec (dec_header bs) (\<lambda>h r. bind_dec (dec_nat r) (\<lambda>n r. bind_dec (get_elems dec_tx n r) (\<lambda>t r.
     Some (\<lparr>blk_header = h, txdata = t\<rparr>, r))))"

interpretation block_codec: codec enc_block dec_block
  by unfold_locales (simp add: enc_block_def dec_block_def header_codec.dec_enc nat_codec.dec_enc
      codec.get_elems_enc [OF tx_codec.codec_axioms])

section \<open>The instance\<close>

definition whole :: "('a \<times> bytes) option \<Rightarrow> 'a option" where
  "whole m = (case m of Some (x, []) \<Rightarrow> Some x | _ \<Rightarrow> None)"

lemma whole_decodes: "codec e d \<Longrightarrow> whole (d (e x)) = Some x"
  using codec.dec_whole [of e d x] by (simp add: whole_def)

text \<open>
  Block hashes are read off the nonce and txids off the lock time, so that a concrete chain
  is written down by choosing them.
\<close>

definition example_lib :: bitcoin_lib where
  "example_lib =
     \<lparr>block_hash = (\<lambda>h. ucast (hdr_nonce h)),
      compute_txid = (\<lambda>t. ucast (lock_time t)),
      ser_header = enc_header, deser_header = (\<lambda>bs. whole (dec_header bs)),
      ser_tx = enc_tx, deser_tx = (\<lambda>bs. whole (dec_tx bs)),
      ser_txout = enc_txout, deser_txout = (\<lambda>bs. whole (dec_txout bs)),
      ser_block = enc_block, deser_block = (\<lambda>bs. whole (dec_block bs)), ser_varint = enc_nat,
      total_size = (\<lambda>b. length (enc_block b)),
      sha256 = (\<lambda>bs. of_nat (of_le bs)), sha256d = (\<lambda>bs. of_nat (of_le bs)),
      is_null = (\<lambda>p. p = \<lparr>op_txid = 0, op_vout = - 1\<rparr>),
      is_op_return = (\<lambda>s. case s of [] \<Rightarrow> False | b # _ \<Rightarrow> b = 0x6a),
      tx_is_coinbase = (\<lambda>t. case tx_input t of [i] \<Rightarrow> previous_output i = \<lparr>op_txid = 0, op_vout = - 1\<rparr> | _ \<Rightarrow> False),
      tx_weight = (\<lambda>t. 4 * of_nat (length (tx_input t) + length (tx_output t))),
      block_weight = (\<lambda>b. 4 * of_nat (length (txdata b))),
      address_from_script = (\<lambda>s _. if s = [] then None else Some s),
      serde_hash = (\<lambda>h. u64_le 32 @ hash_bytes h),
      deserde_hash = (\<lambda>bs. bind_dec (get_u64 Little bs) (\<lambda>n r. if n = 32 then get_hash r else None))\<rparr>"

lemma example_lib_laws: "bitcoin_laws example_lib"
  by (simp add: bitcoin_laws_def example_lib_def whole_decodes [OF tx_codec.codec_axioms]
      whole_decodes [OF txout_codec.codec_axioms] whole_decodes [OF header_codec.codec_axioms]
      whole_decodes [OF block_codec.codec_axioms]) (simp add: enc_block_def)

definition example_header :: "nat \<Rightarrow> nat \<Rightarrow> nat \<Rightarrow> block_header" where
  "example_header prev self t =
     \<lparr>hdr_version = 1, prev_blockhash = of_nat prev, merkle_root = 0, hdr_time = of_nat t,
      hdr_bits = 0, hdr_nonce = of_nat self\<rparr>"

lemma example_header_hash [simp]:
  "block_hash example_lib (example_header p s t) = ucast (of_nat s :: u32)"
  "prev_blockhash (example_header p s t) = of_nat p"
  "hdr_time (example_header p s t) = of_nat t"
  by (simp_all add: example_lib_def example_header_def)

end
