(* ===== verification/Block.thy ===== *)
theory Block
  imports Instances "HOL-Library.AList"
begin

text \<open>
  \<^verbatim>\<open>src/util/block.rs\<close>: the in-memory header chain \<open>HeaderList\<close> with its index by block hash,
  and the plain block data types. Every \<open>assert\<close>, \<open>expect\<close> and out-of-range index of the source
  is an \<open>Inl (Panic _)\<close> branch. \<open>hl_inv\<close> is the representation invariant; the lemmas show that
  no operation panics under it and that \<open>preprocess\<close>, \<open>hl_pop\<close> and \<open>hl_append\<close> together switch the
  list to the new best chain.
\<close>

section \<open>Data\<close>

definition MTP_SPAN :: nat where
  "MTP_SPAN = 11"

definition DEFAULT_BLOCKHASH :: blockhash where
  "DEFAULT_BLOCKHASH = 0"

record header_entry =
  he_height :: nat
  he_hash :: blockhash
  he_header :: block_header

record block_id =
  bi_height :: nat
  bi_hash :: blockhash
  bi_time :: u32

definition block_id_from :: "header_entry \<Rightarrow> block_id" where
  "block_id_from e = \<lparr>bi_height = he_height e, bi_hash = he_hash e, bi_time = hdr_time (he_header e)\<rparr>"

text \<open>\<open>BlockEntry\<close> of \<^verbatim>\<open>src/new_index/fetch.rs\<close>: a block with its header entry and txids.\<close>

record block_entry =
  be_block :: block
  be_entry :: header_entry
  be_size :: u32
  be_txids :: "txid list"

record header_list =
  headers :: "header_entry list"
  heights :: "blockhash \<Rightarrow> nat option"
  tip :: blockhash

section \<open>Lookups\<close>

definition hl_empty :: header_list where
  "hl_empty = \<lparr>headers = [], heights = Map.empty, tip = DEFAULT_BLOCKHASH\<rparr>"

definition hl_len :: "header_list \<Rightarrow> nat" where
  "hl_len hl = length (headers hl)"

definition hl_is_empty :: "header_list \<Rightarrow> bool" where
  "hl_is_empty hl = (headers hl = [])"

definition best_height :: "header_list \<Rightarrow> nat res" where
  "best_height hl = (if hl_len hl = 0 then Inl (Panic ''best_height() on empty HeaderList'')
     else Inr (hl_len hl - 1))"

definition header_by_blockhash :: "header_list \<Rightarrow> blockhash \<Rightarrow> header_entry option res" where
  "header_by_blockhash hl h =
     (case heights hl h of
        None \<Rightarrow> Inr None
      | Some n \<Rightarrow>
          (if n < hl_len hl then
             (if he_hash (headers hl ! n) = h then Inr (Some (headers hl ! n))
              else Inl (Panic ''header.hash() != blockhash''))
           else Inr None))"

definition header_by_height :: "header_list \<Rightarrow> nat \<Rightarrow> header_entry option res" where
  "header_by_height hl n =
     (if n < hl_len hl then
        (if he_height (headers hl ! n) = n then Inr (Some (headers hl ! n))
         else Inl (Panic ''entry.height() != height''))
      else Inr None)"

definition last_hash :: "header_entry list \<Rightarrow> blockhash" where
  "last_hash es = (if es = [] then DEFAULT_BLOCKHASH else he_hash (last es))"

definition hl_tip :: "header_list \<Rightarrow> blockhash res" where
  "hl_tip hl = (if tip hl = last_hash (headers hl) then Inr (tip hl) else Inl (Panic ''tip''))"

definition hl_equals :: "header_list \<Rightarrow> header_list \<Rightarrow> bool" where
  "hl_equals a b =
     (case (headers a, headers b) of
        ([], []) \<Rightarrow> True
      | ([], _) \<Rightarrow> False
      | (_, []) \<Rightarrow> False
      | (xs, ys) \<Rightarrow> last xs = last ys)"

definition get_mtp :: "header_list \<Rightarrow> nat \<Rightarrow> u32 res" where
  "get_mtp hl height =
     (if height = 0 then
        (case headers hl of [] \<Rightarrow> Inl (Panic ''unwrap on None'') | e # _ \<Rightarrow> Inr (hdr_time (he_header e)))
      else rbind (best_height hl) (\<lambda>best.
        if height > best then Inr 0
        else
          let timestamps = sort (map (\<lambda>p. hdr_time (he_header (headers hl ! p)))
                [height - (MTP_SPAN - 1) ..< Suc height])
          in Inr (timestamps ! (length timestamps div 2))))"

section \<open>Updates\<close>

text \<open>\<open>tuple_windows\<close>: a condition on every pair of neighbours.\<close>

fun windows_ok :: "('a \<Rightarrow> 'a \<Rightarrow> bool) \<Rightarrow> 'a list \<Rightarrow> bool" where
  "windows_ok P (x # y # zs) = (P x y \<and> windows_ok P (y # zs))"
| "windows_ok P _ = True"

definition preprocess ::
  "bitcoin_lib \<Rightarrow> header_list \<Rightarrow> block_header list \<Rightarrow> blockhash \<Rightarrow> (header_entry list \<times> nat option) res" where
  "preprocess B hl new_headers new_tip =
     rmap (\<lambda>(new_height, entries).
         (entries, if new_height < hl_len hl then Some new_height else None))
     (if new_headers \<noteq> [] then
        let hashed = map (\<lambda>h. (block_hash B h, h)) new_headers in
        if \<not> windows_ok (\<lambda>(curr, _) (_, nxt). curr = prev_blockhash nxt) hashed
        then Inl (Panic ''assertion failed: curr_blockhash == next_header.prev_blockhash'')
        else if fst (last hashed) \<noteq> new_tip
        then Inl (Panic ''assertion failed: last hash == new_tip'')
        else
          let prev = prev_blockhash (snd (hd hashed)) in
          rmap (\<lambda>new_height.
              (new_height, map (\<lambda>(n, (h, hdr)). \<lparr>he_height = n, he_hash = h, he_header = hdr\<rparr>)
                 (enumerate new_height hashed)))
            (if prev = DEFAULT_BLOCKHASH then Inr 0
             else rmap (\<lambda>e. he_height e + 1)
               (rbind (header_by_blockhash hl prev) (expect ''headers do not connect'')))
      else
        rmap (\<lambda>e. (he_height e + 1, []))
          (rbind (header_by_blockhash hl new_tip) (expect ''new tip not in chain'')))"

definition hl_pop :: "header_list \<Rightarrow> nat \<Rightarrow> (header_entry list \<times> header_list) res" where
  "hl_pop hl since_height =
     (if since_height > hl_len hl then Inl (Panic ''split_off'')
      else
        let kept = take since_height (headers hl);
            reorged = drop since_height (headers hl)
        in Inr (reorged,
          hl\<lparr>headers := kept,
             heights := fold (\<lambda>e m. m(he_hash e := None)) reorged (heights hl),
             tip := last_hash kept\<rparr>))"

definition push_header :: "header_list \<Rightarrow> header_entry \<Rightarrow> header_list res" where
  "push_header hl e =
     (if he_height e = hl_len hl
      then Inr \<lparr>headers = headers hl @ [e], heights = (heights hl)(he_hash e \<mapsto> he_height e),
                tip = he_hash e\<rparr>
      else Inl (Panic ''assertion failed: height == headers.len()''))"

definition hl_append :: "header_list \<Rightarrow> header_entry list \<Rightarrow> header_list res" where
  "hl_append hl new_headers =
     (if \<not> windows_ok (\<lambda>curr nxt. he_height curr + 1 = he_height nxt \<and>
                                   he_hash curr = prev_blockhash (he_header nxt)) new_headers
      then Inl (Panic ''assertion failed: new_headers are not a chain'')
      else case new_headers of
        [] \<Rightarrow> Inr hl
      | entry # _ \<Rightarrow>
          rbind
            (if he_height entry > 0 then
               (if he_height entry - 1 < hl_len hl
                then Inr (he_hash (headers hl ! (he_height entry - 1)))
                else Inl (Panic ''index out of bounds''))
             else Inr DEFAULT_BLOCKHASH)
            (\<lambda>expected_prev.
              if prev_blockhash (he_header entry) \<noteq> expected_prev
              then Inl (Panic ''assertion failed: prev_blockhash == expected_prev_blockhash'')
              else if he_height entry \<noteq> hl_len hl
              then Inl (Panic ''assertion failed: new_height == headers.len()'')
              else rfold push_header hl new_headers))"

text \<open>
  The loop of \<open>HeaderList::new\<close>: follow the \<open>prev_blockhash\<close> pointers from the tip, removing
  each header from the map, so that it ends after at most one round per map entry.
\<close>

function chain_from ::
  "(blockhash \<times> block_header) list \<Rightarrow> blockhash \<Rightarrow> block_header list \<Rightarrow> block_header list res" where
  "chain_from headers_map blockhash headers_chain =
     (if blockhash = DEFAULT_BLOCKHASH then Inr headers_chain
      else case map_of headers_map blockhash of
        None \<Rightarrow> Inl (Panic ''missing expected blockhash in headers map'')
      | Some header \<Rightarrow>
          chain_from (AList.delete blockhash headers_map) (prev_blockhash header)
            (headers_chain @ [header]))"
  by pat_completeness auto
termination
proof (relation "measure (\<lambda>(m, _, _). length m)", goal_cases)
  case (2 m bh acc header)
  then have "bh \<in> fst ` set m" by (metis map_of_eq_None_iff option.distinct(1))
  then have "length (AList.delete bh m) < length m"
    by (auto simp: AList.delete_eq intro!: length_filter_less)
  then show ?case by simp
qed simp

declare chain_from.simps [simp del]

definition hl_new ::
  "bitcoin_lib \<Rightarrow> (blockhash \<times> block_header) list \<Rightarrow> blockhash \<Rightarrow> header_list res" where
  "hl_new B headers_map tip_hash =
     rbind (chain_from headers_map tip_hash []) (\<lambda>headers_chain.
     rbind (preprocess B hl_empty (rev headers_chain) tip_hash) (\<lambda>(entries, _).
       hl_append hl_empty entries))"

section \<open>Block status and metadata\<close>

record block_status =
  in_best_chain :: bool
  bs_height :: "nat option"
  next_best :: "blockhash option"

definition bs_confirmed :: "nat \<Rightarrow> blockhash option \<Rightarrow> block_status" where
  "bs_confirmed h nb = \<lparr>in_best_chain = True, bs_height = Some h, next_best = nb\<rparr>"

definition bs_orphaned :: block_status where
  "bs_orphaned = \<lparr>in_best_chain = False, bs_height = None, next_best = None\<rparr>"

record block_meta =
  tx_count :: u32
  bm_size :: u32
  bm_weight :: u32

definition block_meta_from :: "bitcoin_lib \<Rightarrow> block_entry \<Rightarrow> block_meta" where
  "block_meta_from B b =
     \<lparr>tx_count = of_nat (length (txdata (be_block b))), bm_size = be_size b,
      bm_weight = ucast (block_weight B (be_block b))\<rparr>"


section \<open>The representation invariant\<close>

text \<open>\<open>linked n p es\<close>: the entries have heights \<open>n, n+1, \<dots>\<close> and each points to the one before.\<close>

fun linked :: "nat \<Rightarrow> blockhash \<Rightarrow> header_entry list \<Rightarrow> bool" where
  "linked n p [] = True"
| "linked n p (e # es) =
     (he_height e = n \<and> prev_blockhash (he_header e) = p \<and> linked (Suc n) (he_hash e) es)"

definition hash_index :: "header_entry list \<Rightarrow> blockhash \<Rightarrow> nat option" where
  "hash_index es = map_of (map (\<lambda>e. (he_hash e, he_height e)) es)"

definition hl_inv :: "header_list \<Rightarrow> bool" where
  "hl_inv hl \<longleftrightarrow>
     linked 0 DEFAULT_BLOCKHASH (headers hl) \<and> distinct (map he_hash (headers hl)) \<and>
     heights hl = hash_index (headers hl) \<and> tip hl = last_hash (headers hl)"

lemma hl_invD [dest]:
  assumes "hl_inv hl"
  shows "linked 0 DEFAULT_BLOCKHASH (headers hl)" "distinct (map he_hash (headers hl))"
    "heights hl = hash_index (headers hl)" "tip hl = last_hash (headers hl)"
  using assms by (auto simp: hl_inv_def)

lemma last_hash_snoc [simp]: "last_hash (es @ [e]) = he_hash e"
  by (simp add: last_hash_def)

lemma last_hash_Nil [simp]: "last_hash [] = DEFAULT_BLOCKHASH"
  by (simp add: last_hash_def)

lemma last_hash_append: "last_hash (xs @ ys) = (if ys = [] then last_hash xs else he_hash (last ys))"
  by (simp add: last_hash_def)

lemma linked_append:
  "linked n p (xs @ ys) \<longleftrightarrow>
     linked n p xs \<and> linked (n + length xs) (if xs = [] then p else he_hash (last xs)) ys"
  by (induction xs arbitrary: n p) auto

lemma linked_take: "linked n p es \<Longrightarrow> linked n p (take k es)"
  by (metis append_take_drop_id linked_append)

lemma linked_nth_height: "linked n p es \<Longrightarrow> i < length es \<Longrightarrow> he_height (es ! i) = n + i"
proof (induction es arbitrary: n p i)
  case (Cons e es)
  then show ?case by (cases i) auto
qed simp

lemma hash_index_None: "hash_index es h = None \<longleftrightarrow> h \<notin> he_hash ` set es"
  by (auto simp: hash_index_def map_of_eq_None_iff comp_def image_image)

lemma hash_index_append: "hash_index (xs @ ys) = hash_index ys ++ hash_index xs"
  by (simp add: hash_index_def)

lemma hash_index_snoc:
  assumes "he_hash e \<notin> he_hash ` set es"
  shows "hash_index (es @ [e]) = (hash_index es)(he_hash e \<mapsto> he_height e)"
proof
  fix h
  show "hash_index (es @ [e]) h = ((hash_index es)(he_hash e \<mapsto> he_height e)) h"
    using hash_index_None [of es "he_hash e", THEN iffD2, OF assms]
    by (auto simp: hash_index_append map_add_def hash_index_def [of "[e]"] split: option.split)
qed

lemma hash_index_nth:
  assumes "linked 0 p es" and "distinct (map he_hash es)"
  shows "hash_index es h = Some i \<longleftrightarrow> i < length es \<and> he_hash (es ! i) = h"
proof -
  have "distinct (map fst (map (\<lambda>e. (he_hash e, he_height e)) es))"
    using assms(2) by (simp add: comp_def)
  then have "hash_index es h = Some i \<longleftrightarrow> (h, i) \<in> set (map (\<lambda>e. (he_hash e, he_height e)) es)"
    by (simp add: hash_index_def)
  also have "\<dots> \<longleftrightarrow> i < length es \<and> he_hash (es ! i) = h"
    using linked_nth_height [OF assms(1)] by (fastforce simp: in_set_conv_nth)
  finally show ?thesis .
qed

lemma hl_inv_empty [simp]: "hl_inv hl_empty"
  by (simp add: hl_inv_def hl_empty_def hash_index_def)

subsection \<open>Lookups\<close>

lemma header_by_height_spec:
  "hl_inv hl \<Longrightarrow>
     header_by_height hl n = Inr (if n < length (headers hl) then Some (headers hl ! n) else None)"
  using linked_nth_height [of 0 DEFAULT_BLOCKHASH "headers hl" n]
  by (auto simp: header_by_height_def hl_len_def)

lemma header_by_blockhash_Some:
  assumes "hl_inv hl" and "i < length (headers hl)"
  shows "header_by_blockhash hl (he_hash (headers hl ! i)) = Inr (Some (headers hl ! i))"
proof -
  from assms(1) have inv: "linked 0 DEFAULT_BLOCKHASH (headers hl)"
    "distinct (map he_hash (headers hl))" "heights hl = hash_index (headers hl)"
    by (auto simp: hl_inv_def)
  from hash_index_nth [OF inv(1,2), of "he_hash (headers hl ! i)" i] assms(2)
  have "heights hl (he_hash (headers hl ! i)) = Some i" by (simp add: inv(3))
  with assms(2) show ?thesis by (simp add: header_by_blockhash_def hl_len_def)
qed

lemma header_by_blockhash_None:
  "hl_inv hl \<Longrightarrow> h \<notin> he_hash ` set (headers hl) \<Longrightarrow> header_by_blockhash hl h = Inr None"
  using hash_index_None [of "headers hl" h] by (auto simp: header_by_blockhash_def hl_inv_def)

lemma header_by_blockhash_cases:
  assumes "hl_inv hl"
  obtains (found) i where "i < length (headers hl)" "he_hash (headers hl ! i) = h"
      "he_height (headers hl ! i) = i" "header_by_blockhash hl h = Inr (Some (headers hl ! i))"
    | (absent) "h \<notin> he_hash ` set (headers hl)" "header_by_blockhash hl h = Inr None"
proof (cases "h \<in> he_hash ` set (headers hl)")
  case True
  then obtain i where i: "i < length (headers hl)" "he_hash (headers hl ! i) = h"
    by (auto simp: in_set_conv_nth)
  with header_by_blockhash_Some [OF assms i(1)] linked_nth_height [of 0 _ "headers hl" i] assms
  show ?thesis using found by fastforce
next
  case False
  from absent [OF False header_by_blockhash_None [OF assms False]] show ?thesis .
qed

lemma hl_tip_spec: "hl_inv hl \<Longrightarrow> hl_tip hl = Inr (last_hash (headers hl))"
  by (auto simp: hl_tip_def hl_inv_def)

subsection \<open>Removing and appending\<close>

lemma fold_remove_index:
  "fold (\<lambda>e m. m(he_hash e := None)) es m = m |` (- he_hash ` set es)"
proof (induction es arbitrary: m)
  case Nil
  then show ?case by simp
next
  case (Cons e es)
  show ?case
    unfolding fold.simps comp_apply Cons.IH by (auto simp: fun_eq_iff restrict_map_def)
qed

lemma hl_pop_spec:
  assumes "hl_inv hl" and "k \<le> length (headers hl)"
  shows "\<exists>hl'. hl_pop hl k = Inr (drop k (headers hl), hl') \<and> hl_inv hl' \<and>
    headers hl' = take k (headers hl)"
proof -
  let ?kept = "take k (headers hl)" and ?gone = "drop k (headers hl)"
  have dist: "distinct (map he_hash (?kept @ ?gone))" using assms(1) by auto
  have "hash_index (?kept @ ?gone) |` (- he_hash ` set ?gone) = hash_index ?kept"
  proof
    fix h
    show "(hash_index (?kept @ ?gone) |` (- he_hash ` set ?gone)) h = hash_index ?kept h"
    proof (cases "h \<in> he_hash ` set ?gone")
      case True
      with dist have "h \<notin> he_hash ` set ?kept" by (auto simp del: append_take_drop_id)
      then have "hash_index ?kept h = None" by (simp add: hash_index_None)
      with True show ?thesis by simp
    next
      case False
      then have "hash_index ?gone h = None" by (simp add: hash_index_None)
      with False show ?thesis
        by (simp add: hash_index_append map_add_def del: append_take_drop_id split: option.split)
    qed
  qed
  then have idx: "hash_index (headers hl) |` (- he_hash ` set ?gone) = hash_index ?kept" by simp
  have "hl_inv (hl\<lparr>headers := ?kept, heights := hash_index ?kept, tip := last_hash ?kept\<rparr>)"
    using assms(1) by (auto simp: hl_inv_def linked_take take_map [symmetric] distinct_take)
  with assms idx show ?thesis
    by (auto simp: hl_pop_def hl_len_def Let_def fold_remove_index hl_invD(3))
qed

lemma push_header_inv:
  assumes "hl_inv hl" and "linked (length (headers hl)) (last_hash (headers hl)) [e]"
    and "he_hash e \<notin> he_hash ` set (headers hl)"
  shows "\<exists>hl'. push_header hl e = Inr hl' \<and> hl_inv hl' \<and> headers hl' = headers hl @ [e]"
  using assms
  by (auto simp: push_header_def hl_len_def hl_inv_def linked_append last_hash_def hash_index_snoc)

lemma push_headers_inv:
  assumes "hl_inv hl" and "linked (length (headers hl)) (last_hash (headers hl)) es"
    and "distinct (map he_hash (headers hl @ es))"
  shows "\<exists>hl'. rfold push_header hl es = Inr hl' \<and> hl_inv hl' \<and> headers hl' = headers hl @ es"
  using assms
proof (induction es arbitrary: hl)
  case Nil
  then show ?case by simp
next
  case (Cons e es)
  from Cons.prems(2,3) obtain hl1 where hl1: "push_header hl e = Inr hl1" "hl_inv hl1"
    "headers hl1 = headers hl @ [e]"
    using push_header_inv [OF Cons.prems(1), of e] by auto
  from Cons.prems(2,3) hl1(3)
  have "linked (length (headers hl1)) (last_hash (headers hl1)) es"
    and "distinct (map he_hash (headers hl1 @ es))" by auto
  from Cons.IH [OF hl1(2) this] hl1 show ?case by auto
qed

lemma linked_windows:
  "linked n p es \<Longrightarrow>
     windows_ok (\<lambda>curr nxt. he_height curr + 1 = he_height nxt \<and>
                             he_hash curr = prev_blockhash (he_header nxt)) es"
proof (induction es arbitrary: n p)
  case (Cons e es)
  then show ?case by (cases es) auto
qed simp

lemma windows_linked:
  "windows_ok (\<lambda>curr nxt. he_height curr + 1 = he_height nxt \<and>
                           he_hash curr = prev_blockhash (he_header nxt)) (e # es) \<Longrightarrow>
     linked (he_height e) (prev_blockhash (he_header e)) (e # es)"
proof (induction es arbitrary: e)
  case (Cons e' es)
  then have "linked (he_height e') (prev_blockhash (he_header e')) (e' # es)" by simp
  with Cons.prems show ?case by simp
qed simp

lemma hl_append_spec:
  assumes "hl_inv hl" and "linked (length (headers hl)) (last_hash (headers hl)) es"
    and "distinct (map he_hash (headers hl @ es))"
  shows "\<exists>hl'. hl_append hl es = Inr hl' \<and> hl_inv hl' \<and> headers hl' = headers hl @ es"
proof (cases es)
  case Nil
  with assms(1) show ?thesis by (simp add: hl_append_def)
next
  case (Cons e es')
  from assms(2) Cons
  have "he_height e = length (headers hl)" "prev_blockhash (he_header e) = last_hash (headers hl)"
    by simp_all
  moreover have "headers hl \<noteq> [] \<Longrightarrow> headers hl ! (length (headers hl) - 1) = last (headers hl)"
    by (simp add: last_conv_nth)
  ultimately show ?thesis
    using push_headers_inv [OF assms] linked_windows [OF assms(2)] Cons
    by (auto simp: hl_append_def hl_len_def last_hash_def)
qed


subsection \<open>Preprocessing new headers\<close>

definition headers_chained :: "bitcoin_lib \<Rightarrow> block_header list \<Rightarrow> bool" where
  "headers_chained B hs \<longleftrightarrow> windows_ok (\<lambda>h h'. block_hash B h = prev_blockhash h') hs"

lemma windows_ok_map: "windows_ok P (map f xs) \<longleftrightarrow> windows_ok (\<lambda>x y. P (f x) (f y)) xs"
proof (induction xs)
  case (Cons x xs)
  then show ?case by (cases xs) auto
qed simp

definition mk_entries :: "bitcoin_lib \<Rightarrow> nat \<Rightarrow> block_header list \<Rightarrow> header_entry list" where
  "mk_entries B n hs =
     map (\<lambda>(k, h). \<lparr>he_height = k, he_hash = block_hash B h, he_header = h\<rparr>) (enumerate n hs)"

lemma mk_entries_simps [simp]:
  "mk_entries B n [] = []"
  "mk_entries B n (h # hs) =
     \<lparr>he_height = n, he_hash = block_hash B h, he_header = h\<rparr> # mk_entries B (Suc n) hs"
  by (simp_all add: mk_entries_def)

lemma mk_entries_hashed:
  "map (\<lambda>(k, (h, hdr)). \<lparr>he_height = k, he_hash = h, he_header = hdr\<rparr>)
     (enumerate n (map (\<lambda>h. (block_hash B h, h)) hs)) = mk_entries B n hs"
  by (induction hs arbitrary: n) simp_all

lemma mk_entries_headers [simp]:
  "map he_header (mk_entries B n hs) = hs"
  "map he_hash (mk_entries B n hs) = map (block_hash B) hs"
  "mk_entries B n hs = [] \<longleftrightarrow> hs = []"
  by (induction hs arbitrary: n) simp_all

lemma set_mk_entries [simp]: "he_hash ` set (mk_entries B n hs) = block_hash B ` set hs"
  by (metis list.set_map mk_entries_headers(2))

lemma linked_mk_entries:
  "headers_chained B hs \<Longrightarrow> hs \<noteq> [] \<Longrightarrow> linked n (prev_blockhash (hd hs)) (mk_entries B n hs)"
proof (induction hs arbitrary: n)
  case (Cons h hs)
  then show ?case by (cases hs) (auto simp: headers_chained_def)
qed simp

lemma last_mk_entries:
  "hs \<noteq> [] \<Longrightarrow> he_hash (last (mk_entries B n hs)) = block_hash B (last hs)"
  by (metis last_map mk_entries_headers(2,3))

text \<open>The height at which new headers attach: the fork point of the header list.\<close>

definition attach_height :: "bitcoin_lib \<Rightarrow> header_list \<Rightarrow> block_header list \<Rightarrow> blockhash \<Rightarrow> nat res" where
  "attach_height B hl hs t =
     (if hs \<noteq> [] then
        if \<not> headers_chained B hs then Inl (Panic ''assertion failed: curr_blockhash == next_header.prev_blockhash'')
        else if block_hash B (last hs) \<noteq> t then Inl (Panic ''assertion failed: last hash == new_tip'')
        else if prev_blockhash (hd hs) = DEFAULT_BLOCKHASH then Inr 0
        else rmap (\<lambda>e. he_height e + 1)
          (rbind (header_by_blockhash hl (prev_blockhash (hd hs))) (expect ''headers do not connect''))
      else rmap (\<lambda>e. he_height e + 1)
          (rbind (header_by_blockhash hl t) (expect ''new tip not in chain'')))"

lemma rmap_rmap: "rmap f (rmap g m) = rmap (\<lambda>x. f (g x)) m"
  by (cases m) simp_all

lemma preprocess_attach:
  "preprocess B hl hs t =
     rmap (\<lambda>n. (mk_entries B n hs, if n < hl_len hl then Some n else None)) (attach_height B hl hs t)"
  unfolding preprocess_def attach_height_def
  by (auto simp: Let_def headers_chained_def windows_ok_map mk_entries_hashed last_map hd_map
      rmap_rmap)

lemma attach_height_spec:
  assumes "hl_inv hl" and "attach_height B hl hs t = Inr n"
  shows "n \<le> length (headers hl)"
    and "linked n (last_hash (take n (headers hl))) (mk_entries B n hs)"
    and "last_hash (take n (headers hl) @ mk_entries B n hs) = t"
proof -
  have found: "Suc (he_height e) \<le> length (headers hl) \<and>
      last_hash (take (Suc (he_height e)) (headers hl)) = h"
    if "header_by_blockhash hl h = Inr (Some e)" for h e
    using assms(1)
  proof (cases rule: header_by_blockhash_cases [of hl h])
    case (found i)
    with that show ?thesis by (auto simp: take_Suc_conv_app_nth)
  next
    case absent
    with that show ?thesis by simp
  qed
  show "n \<le> length (headers hl)"
    and "linked n (last_hash (take n (headers hl))) (mk_entries B n hs)"
    and "last_hash (take n (headers hl) @ mk_entries B n hs) = t"
    using assms(2) linked_mk_entries [of B hs n] last_mk_entries [of hs B n]
    by (auto simp: attach_height_def res_iffs last_hash_append split: if_splits dest!: found)
qed


section \<open>Properties\<close>

text \<open>
  Claim C6. When \<open>preprocess\<close> accepts the daemon's new headers, popping from the reported reorg
  height (or nothing, when none is reported) and appending the new entries never panics; the
  list then holds exactly the common prefix followed by the new headers, its index is again
  consistent, and its tip is the daemon's tip. The new hashes must not repeat a retained one.
\<close>

theorem switch_to_new_chain:
  assumes "hl_inv hl" and "preprocess B hl hs t = Inr (es, reorged)"
    and "n = (case reorged of None \<Rightarrow> length (headers hl) | Some k \<Rightarrow> k)"
    and "distinct (map he_hash (take n (headers hl)) @ map (block_hash B) hs)"
  shows "\<exists>hl1 hl2. hl_pop hl n = Inr (drop n (headers hl), hl1) \<and> hl_append hl1 es = Inr hl2 \<and>
    hl_inv hl2 \<and> map he_header (headers hl2) = map he_header (take n (headers hl)) @ hs \<and>
    hl_tip hl2 = Inr t"
proof -
  from assms(2) obtain k where k: "attach_height B hl hs t = Inr k"
    "es = mk_entries B k hs" "reorged = (if k < hl_len hl then Some k else None)"
    by (auto simp: preprocess_attach res_iffs)
  note at = attach_height_spec [OF assms(1) k(1)]
  have n: "n = k" using at(1) k(3) assms(3) by (auto simp: hl_len_def)
  with at(1) obtain hl1 where hl1: "hl_pop hl n = Inr (drop n (headers hl), hl1)" "hl_inv hl1"
    "headers hl1 = take n (headers hl)"
    using hl_pop_spec [OF assms(1), of n] by auto
  have "linked (length (headers hl1)) (last_hash (headers hl1)) es"
    using at(1,2) by (simp add: hl1(3) n k(2) min_absorb2)
  moreover have "distinct (map he_hash (headers hl1 @ es))"
    using assms(4) by (simp add: hl1(3) k(2) n)
  ultimately obtain hl2 where hl2: "hl_append hl1 es = Inr hl2" "hl_inv hl2"
    "headers hl2 = headers hl1 @ es"
    using hl_append_spec [OF hl1(2)] by blast
  have "hl_tip hl2 = Inr t"
    using at(3) by (simp add: hl_tip_spec [OF hl2(2)] hl2(3) hl1(3) n k(2))
  with hl1 hl2 show ?thesis by (simp add: k(2))
qed

definition example_headers :: "block_header list" where
  "example_headers = [example_header 0 1 100, example_header 1 2 200, example_header 2 3 150]"

definition example_hl :: header_list where
  "example_hl =
     (let es = mk_entries example_lib 0 example_headers
      in \<lparr>headers = es, heights = hash_index es, tip = 3\<rparr>)"

lemma example_hl_inv: "hl_inv example_hl"
  by (simp add: example_hl_def example_headers_def hl_inv_def Let_def last_hash_def
      DEFAULT_BLOCKHASH_def)

theorem switch_to_new_chain_witness:
  "\<exists>hl1 hl2. hl_pop example_hl 2 = Inr (drop 2 (headers example_hl), hl1) \<and>
     hl_append hl1 (mk_entries example_lib 2 [example_header 2 4 300, example_header 4 5 310]) = Inr hl2 \<and>
     hl_inv hl2 \<and> hl_tip hl2 = Inr 5"
proof -
  let ?new = "[example_header 2 4 300, example_header 4 5 310]"
  have pre: "preprocess example_lib example_hl ?new 5 = Inr (mk_entries example_lib 2 ?new, Some 2)"
    by (simp add: preprocess_attach attach_height_def headers_chained_def header_by_blockhash_def
        example_hl_def example_headers_def hash_index_def hl_len_def Let_def DEFAULT_BLOCKHASH_def)
  have n: "2 = (case Some 2 of None \<Rightarrow> length (headers example_hl) | Some k \<Rightarrow> k)" by simp
  have "distinct (map he_hash (take 2 (headers example_hl)) @ map (block_hash example_lib) ?new)"
    by (simp add: example_hl_def example_headers_def Let_def)
  from switch_to_new_chain [OF example_hl_inv pre n this] show ?thesis by blast
qed


subsection \<open>Loading the chain from stored headers\<close>

text \<open>\<open>chain_in B m hs t\<close>: \<open>hs\<close> is a chain of headers of \<open>m\<close> from a genesis block to the tip \<open>t\<close>.\<close>

definition chain_in ::
  "bitcoin_lib \<Rightarrow> (blockhash \<times> block_header) list \<Rightarrow> block_header list \<Rightarrow> blockhash \<Rightarrow> bool" where
  "chain_in B m hs t \<longleftrightarrow>
     hs \<noteq> [] \<and> headers_chained B hs \<and> prev_blockhash (hd hs) = DEFAULT_BLOCKHASH \<and>
     block_hash B (last hs) = t \<and> distinct (map (block_hash B) hs) \<and>
     (\<forall>h \<in> set hs. map_of m (block_hash B h) = Some h)"

lemma headers_chained_snoc:
  "headers_chained B (hs @ [h]) \<longleftrightarrow>
     headers_chained B hs \<and> (hs \<noteq> [] \<longrightarrow> block_hash B (last hs) = prev_blockhash h)"
proof (induction hs)
  case (Cons x hs)
  then show ?case by (cases hs) (auto simp: headers_chained_def)
qed (simp add: headers_chained_def)

lemma chain_from_default [simp]: "chain_from m DEFAULT_BLOCKHASH acc = Inr acc"
  by (subst chain_from.simps) simp

lemma chain_from_sound:
  assumes "chain_from m t acc = Inr r" and "\<forall>k h. map_of m k = Some h \<longrightarrow> block_hash B h = k"
    and "t \<noteq> DEFAULT_BLOCKHASH"
  shows "\<exists>hs. r = acc @ rev hs \<and> chain_in B m hs t"
  using assms
proof (induction m t acc rule: chain_from.induct)
  case (1 m t acc)
  from "1.prems"(1,3) obtain h where h: "map_of m t = Some h"
    and rec: "chain_from (AList.delete t m) (prev_blockhash h) (acc @ [h]) = Inr r"
    by (subst (asm) chain_from.simps) (auto split: option.splits)
  have bh: "block_hash B h = t" using "1.prems"(2) h by blast
  show ?case
  proof (cases "prev_blockhash h = DEFAULT_BLOCKHASH")
    case True
    with rec have "r = acc @ rev [h]" by simp
    moreover have "chain_in B m [h] t"
      using True bh h by (simp add: chain_in_def headers_chained_def)
    ultimately show ?thesis by blast
  next
    case False
    have "\<forall>k x. map_of (AList.delete t m) k = Some x \<longrightarrow> block_hash B x = k"
      using "1.prems"(2) by (auto simp: delete_conv' split: if_splits)
    from "1.IH" [OF "1.prems"(3) h rec this False] obtain hs where
      hs: "r = (acc @ [h]) @ rev hs" "chain_in B (AList.delete t m) hs (prev_blockhash h)"
      by blast
    from hs(2) bh h have "chain_in B m (hs @ [h]) t"
      by (auto simp: chain_in_def headers_chained_snoc delete_conv' split: if_splits)
    with hs(1) show ?thesis by (intro exI [of _ "hs @ [h]"]) simp
  qed
qed

lemma chain_from_step:
  "t \<noteq> DEFAULT_BLOCKHASH \<Longrightarrow> map_of m t = Some h \<Longrightarrow>
     chain_from m t acc = chain_from (AList.delete t m) (prev_blockhash h) (acc @ [h])"
  by (subst chain_from.simps) simp

lemma chain_from_complete:
  assumes "chain_in B m hs t" and "DEFAULT_BLOCKHASH \<notin> block_hash B ` set hs"
  shows "chain_from m t acc = Inr (acc @ rev hs)"
  using assms
proof (induction hs arbitrary: m t acc rule: rev_induct)
  case Nil
  then show ?case by (simp add: chain_in_def)
next
  case (snoc h hs)
  from snoc.prems have bh: "block_hash B h = t" and h: "map_of m t = Some h"
    and t: "t \<noteq> DEFAULT_BLOCKHASH"
    by (auto simp: chain_in_def)
  show ?case
  proof (cases "hs = []")
    case True
    then have "prev_blockhash h = DEFAULT_BLOCKHASH"
      using snoc.prems(1) by (simp add: chain_in_def)
    with True show ?thesis by (simp add: chain_from_step [OF t h])
  next
    case False
    have "t \<notin> block_hash B ` set hs"
      using snoc.prems(1) bh by (simp add: chain_in_def)
    then have "\<forall>x \<in> set hs. map_of (AList.delete t m) (block_hash B x) = map_of m (block_hash B x)"
      by (auto simp: delete_conv')
    then have "chain_in B (AList.delete t m) hs (prev_blockhash h)"
      using snoc.prems(1) False by (simp add: chain_in_def headers_chained_snoc)
    moreover have "DEFAULT_BLOCKHASH \<notin> block_hash B ` set hs"
      using snoc.prems(2) by simp
    ultimately show ?thesis
      by (simp add: chain_from_step [OF t h] snoc.IH)
  qed
qed

lemma entries_unique:
  "linked n p es \<Longrightarrow> map he_hash es = map (block_hash B) (map he_header es) \<Longrightarrow>
     es = mk_entries B n (map he_header es)"
  by (induction es arbitrary: n p) auto

lemma hl_new_chain_in:
  assumes "chain_in B m hs t" and "DEFAULT_BLOCKHASH \<notin> block_hash B ` set hs"
  shows "\<exists>hl. hl_new B m t = Inr hl \<and> hl_inv hl \<and> headers hl = mk_entries B 0 hs"
proof -
  from assms(1) have hs: "hs \<noteq> []" "headers_chained B hs" "prev_blockhash (hd hs) = DEFAULT_BLOCKHASH"
    "block_hash B (last hs) = t" "distinct (map (block_hash B) hs)"
    by (simp_all add: chain_in_def)
  have "preprocess B hl_empty hs t = Inr (mk_entries B 0 hs, None)"
    using hs by (simp add: preprocess_attach attach_height_def hl_len_def hl_empty_def)
  moreover have "linked 0 DEFAULT_BLOCKHASH (mk_entries B 0 hs)"
    using linked_mk_entries [OF hs(2,1), of 0] hs(3) by simp
  then obtain hl where "hl_append hl_empty (mk_entries B 0 hs) = Inr hl" "hl_inv hl"
    "headers hl = mk_entries B 0 hs"
    using hl_append_spec [OF hl_inv_empty, of "mk_entries B 0 hs"] hs(5)
    by (auto simp: hl_empty_def)
  ultimately show ?thesis
    by (simp add: hl_new_def chain_from_complete [OF assms])
qed

lemma hl_inv_determined:
  assumes "hl_inv hl" and "hl_inv hl'" and "headers hl = headers hl'"
  shows "hl = hl'"
proof -
  have "heights hl = heights hl'" "tip hl = tip hl'"
    using assms by (simp_all add: hl_inv_def)
  with assms(3) show ?thesis by (cases hl; cases hl') simp
qed

text \<open>
  Claim C25. \<open>HeaderList::new\<close> loads a chain exactly when there is one: given a header map keyed
  by block hash, the call returns iff some chain of the map leads from a genesis block to the
  tip, and then the list holds that chain in height order with a consistent index (otherwise
  it panics; it always ends, as the map shrinks every round).
\<close>

theorem header_list_new_iff:
  assumes "\<forall>k h. map_of m k = Some h \<longrightarrow> block_hash B h = k"
    and "map_of m DEFAULT_BLOCKHASH = None"
  shows "hl_new B m t = Inr hl \<longleftrightarrow>
    hl_inv hl \<and> map he_hash (headers hl) = map (block_hash B) (map he_header (headers hl)) \<and>
    chain_in B m (map he_header (headers hl)) t"
proof
  assume new: "hl_new B m t = Inr hl"
  have "t \<noteq> DEFAULT_BLOCKHASH"
    using new by (auto simp: hl_new_def preprocess_attach attach_height_def header_by_blockhash_def hl_empty_def)
  moreover obtain r where "chain_from m t [] = Inr r"
    using new by (auto simp: hl_new_def res_iffs)
  ultimately obtain hs where "chain_in B m hs t"
    using chain_from_sound [OF _ assms(1)] by blast
  moreover have "DEFAULT_BLOCKHASH \<notin> block_hash B ` set hs"
    using calculation assms(2) by (auto simp: chain_in_def)
  ultimately obtain hl' where "hl_new B m t = Inr hl'" "hl_inv hl'" "headers hl' = mk_entries B 0 hs"
    using hl_new_chain_in by blast
  with new \<open>chain_in B m hs t\<close>
  show "hl_inv hl \<and> map he_hash (headers hl) = map (block_hash B) (map he_header (headers hl)) \<and>
    chain_in B m (map he_header (headers hl)) t"
    by simp
next
  assume *: "hl_inv hl \<and> map he_hash (headers hl) = map (block_hash B) (map he_header (headers hl)) \<and>
    chain_in B m (map he_header (headers hl)) t"
  then have "DEFAULT_BLOCKHASH \<notin> block_hash B ` set (map he_header (headers hl))"
    using assms(2) by (auto simp: chain_in_def)
  with * obtain hl' where hl': "hl_new B m t = Inr hl'" "hl_inv hl'"
    "headers hl' = mk_entries B 0 (map he_header (headers hl))"
    using hl_new_chain_in by blast
  have "headers hl = mk_entries B 0 (map he_header (headers hl))"
    using * by (intro entries_unique [of 0 DEFAULT_BLOCKHASH]) (simp_all add: hl_inv_def)
  with hl'(3) have "headers hl = headers hl'" by simp
  with * hl'(2) have "hl = hl'" by (blast intro: hl_inv_determined)
  with hl'(1) show "hl_new B m t = Inr hl" by simp
qed

theorem header_list_new_iff_witness:
  "hl_new example_lib [(3, example_header 2 3 150), (1, example_header 0 1 100), (2, example_header 1 2 200)] 3
     = Inr example_hl"
proof -
  let ?m = "[(3, example_header 2 3 150), (1, example_header 0 1 100), (2, example_header 1 2 200)]
    :: (blockhash \<times> block_header) list"
  have keys: "\<forall>k h. map_of ?m k = Some h \<longrightarrow> block_hash example_lib h = k"
    by (auto split: if_splits)
  have "map_of ?m DEFAULT_BLOCKHASH = None" by (simp add: DEFAULT_BLOCKHASH_def)
  note new_iff = header_list_new_iff [OF keys this, of 3 example_hl]
  have hs: "map he_header (headers example_hl) = example_headers"
    by (simp add: example_hl_def Let_def)
  have "map he_hash (headers example_hl) = map (block_hash example_lib) example_headers"
    by (simp add: example_hl_def Let_def)
  moreover have "chain_in example_lib ?m example_headers 3"
    by (simp add: example_headers_def chain_in_def headers_chained_def DEFAULT_BLOCKHASH_def)
  ultimately show ?thesis
    unfolding new_iff hs using example_hl_inv by blast
qed


subsection \<open>Median time past\<close>

lemma sorted_nth_filter_bounds:
  fixes ys :: "'a :: linorder list"
  assumes "sorted ys" and "k < length ys"
  shows "length (filter (\<lambda>x. x < ys ! k) ys) \<le> k"
    and "length (filter (\<lambda>x. ys ! k < x) ys) \<le> length ys - Suc k"
proof -
  have "filter (\<lambda>x. x < ys ! k) (drop k ys) = []"
    using assms by (auto simp: filter_empty_conv in_set_conv_nth not_less sorted_iff_nth_mono)
  then have "filter (\<lambda>x. x < ys ! k) ys = filter (\<lambda>x. x < ys ! k) (take k ys)"
    by (metis append_take_drop_id filter_append self_append_conv)
  then show "length (filter (\<lambda>x. x < ys ! k) ys) \<le> k"
    by (metis assms(2) length_filter_le length_take less_imp_le min_absorb2)
  have "filter (\<lambda>x. ys ! k < x) (take (Suc k) ys) = []"
    using assms by (auto simp: filter_empty_conv in_set_conv_nth not_less sorted_iff_nth_mono)
  then have "filter (\<lambda>x. ys ! k < x) ys = filter (\<lambda>x. ys ! k < x) (drop (Suc k) ys)"
    by (metis append_take_drop_id filter_append self_append_conv2)
  then show "length (filter (\<lambda>x. ys ! k < x) ys) \<le> length ys - Suc k"
    by (metis length_drop length_filter_le)
qed

lemma length_filter_sort: "length (filter P (sort xs)) = length (filter P xs)"
  by (simp add: filter_sort)

lemma sort_median:
  fixes xs :: "'a :: linorder list"
  assumes "xs \<noteq> []"
  defines "t \<equiv> sort xs ! (length xs div 2)"
  shows "t \<in> set xs \<and> 2 * length (filter (\<lambda>x. x < t) xs) \<le> length xs \<and>
    2 * length (filter (\<lambda>x. t < x) xs) < length xs"
proof -
  let ?k = "length xs div 2"
  have k: "?k < length (sort xs)" using assms(1) by simp
  have "t \<in> set (sort xs)" unfolding t_def using k by (rule nth_mem)
  moreover have "length (filter (\<lambda>x. x < t) xs) \<le> ?k"
    "length (filter (\<lambda>x. t < x) xs) \<le> length xs - Suc ?k"
    using sorted_nth_filter_bounds [OF sorted_sort k] by (simp_all add: t_def length_filter_sort)
  moreover from k have "2 * (length xs - Suc ?k) < length xs" by auto
  ultimately show ?thesis by simp
qed

text \<open>
  Claim C26. \<open>HeaderList::get_mtp\<close> of a block of the chain after the genesis block is the median
  time of the last \<open>MTP_SPAN\<close> blocks up to it (all blocks up to it when there are fewer): it is
  one of these times, at most half of them are earlier and less than half are later.
\<close>

theorem get_mtp_median:
  assumes "0 < height" and "height < length (headers hl)"
    and "window = map (hdr_time \<circ> he_header) (drop (height - (MTP_SPAN - 1)) (take (Suc height) (headers hl)))"
  shows "\<exists>t. get_mtp hl height = Inr t \<and> t \<in> set window \<and>
    2 * length (filter (\<lambda>x. x < t) window) \<le> length window \<and>
    2 * length (filter (\<lambda>x. t < x) window) < length window"
proof -
  let ?from = "height - (MTP_SPAN - 1)"
  have "drop ?from (take (Suc height) (headers hl)) = map (\<lambda>p. headers hl ! p) [?from ..< Suc height]"
    using assms(2) by (intro nth_equalityI) (simp_all del: upt_Suc)
  then have w: "window = map (\<lambda>p. hdr_time (he_header (headers hl ! p))) [?from ..< Suc height]"
    by (simp add: assms(3))
  have "best_height hl = Inr (length (headers hl) - 1)"
    using assms(2) by (auto simp: best_height_def hl_len_def)
  then have "get_mtp hl height = Inr (sort window ! (length window div 2))"
    using assms(1,2) by (auto simp: get_mtp_def w Let_def simp del: upt_Suc)
  moreover have "window \<noteq> []" by (simp add: w)
  ultimately show ?thesis using sort_median by blast
qed

theorem get_mtp_median_witness: "\<exists>t. get_mtp example_hl 2 = Inr t \<and> t \<in> {100, 200, 150}"
proof -
  let ?w = "[100, 200, 150] :: u32 list"
  have "?w = map (hdr_time \<circ> he_header) (drop (2 - (MTP_SPAN - 1)) (take (Suc 2) (headers example_hl)))"
    by (simp add: example_hl_def example_headers_def Let_def MTP_SPAN_def)
  moreover have "(0::nat) < 2" "2 < length (headers example_hl)"
    by (simp_all add: example_hl_def example_headers_def Let_def)
  ultimately show ?thesis using get_mtp_median [of 2 example_hl ?w] by auto
qed

end
