(* ===== verification/Rows.thy ===== *)
theory Rows
  imports Block Bincode
begin

text \<open>
  The database rows of \<^verbatim>\<open>src/new_index/schema.rs\<close> (from \<open>TxRow\<close> to \<open>UtxoCacheRow\<close>): each key
  starts with a one-byte code, followed by fixed-width fields. The transaction store holds
  \<open>T\<close>, \<open>O\<close>, \<open>B\<close>, \<open>X\<close>, \<open>M\<close>, \<open>D\<close>, \<open>a\<close> and \<open>t\<close> rows, the history store \<open>H\<close>, \<open>C\<close>, \<open>S\<close> and \<open>D\<close>
  rows, the cache store \<open>A\<close> and \<open>U\<close> rows.

  The lemmas show that a key determines the kind of row and its identifying fields, that
  history keys of one script are ordered by confirmation height and are found between the seek
  keys of the scans, and that every row is read back as it was written.
\<close>

section \<open>Rows and keys\<close>

record db_row =
  row_key :: bytes
  row_value :: bytes

subsection \<open>Transactions and confirmations\<close>

definition tx_row_key :: "txid \<Rightarrow> bytes" where
  "tx_row_key txid = 0x54 # hash_bytes txid"

definition tx_row :: "bitcoin_lib \<Rightarrow> txid \<Rightarrow> transaction \<Rightarrow> db_row" where
  "tx_row B txid txn = \<lparr>row_key = tx_row_key txid, row_value = ser_tx B txn\<rparr>"

definition tx_conf_key :: "txid \<Rightarrow> bytes" where
  "tx_conf_key txid = 0x43 # hash_bytes txid"

definition tx_conf_row :: "txid \<Rightarrow> u32 \<Rightarrow> db_row" where
  "tx_conf_row txid height = \<lparr>row_key = tx_conf_key txid, row_value = u32_le height\<rparr>"

text \<open>\<open>val.try_into()\<close> to \<open>[u8; 4]\<close> fails unless the value has exactly four bytes.\<close>

definition height_from_val :: "bytes \<Rightarrow> u32 res" where
  "height_from_val val =
     (if length val = 4 then Inr (of_nat (of_le val)) else Inl (Panic ''invalid TxConf value''))"

definition tx_out_key :: "outpoint \<Rightarrow> bytes" where
  "tx_out_key p = 0x4f # hash_bytes (op_txid p) @ u32_le (op_vout p)"

definition tx_out_row :: "bitcoin_lib \<Rightarrow> txid \<Rightarrow> nat \<Rightarrow> txout \<Rightarrow> db_row" where
  "tx_out_row B txid vout txo =
     \<lparr>row_key = tx_out_key \<lparr>op_txid = txid, op_vout = of_nat vout\<rparr>, row_value = ser_txout B txo\<rparr>"

subsection \<open>Blocks\<close>

record block_row =
  br_code :: u8
  br_hash :: fullhash
  br_value :: bytes

definition new_header :: "bitcoin_lib \<Rightarrow> block_entry \<Rightarrow> block_row" where
  "new_header B b =
     \<lparr>br_code = 0x42, br_hash = he_hash (be_entry b), br_value = ser_header B (blk_header (be_block b))\<rparr>"

definition put_txids :: "bitcoin_lib \<Rightarrow> txid list \<Rightarrow> bytes" where
  "put_txids B txids = put_seq Little (serde_hash B) txids"

definition new_txids :: "bitcoin_lib \<Rightarrow> fullhash \<Rightarrow> txid list \<Rightarrow> block_row" where
  "new_txids B hash txids = \<lparr>br_code = 0x58, br_hash = hash, br_value = put_txids B txids\<rparr>"

definition put_meta :: "block_meta \<Rightarrow> bytes" where
  "put_meta bm = u32_le (tx_count bm) @ u32_le (bm_size bm) @ u32_le (bm_weight bm)"

definition new_meta :: "fullhash \<Rightarrow> block_meta \<Rightarrow> block_row" where
  "new_meta hash bm = \<lparr>br_code = 0x4d, br_hash = hash, br_value = put_meta bm\<rparr>"

definition new_done :: "fullhash \<Rightarrow> block_row" where
  "new_done hash = \<lparr>br_code = 0x44, br_hash = hash, br_value = []\<rparr>"

definition header_filter :: bytes where
  "header_filter = [0x42]"

definition txids_key :: "fullhash \<Rightarrow> bytes" where
  "txids_key hash = 0x58 # hash_bytes hash"

definition meta_key :: "fullhash \<Rightarrow> bytes" where
  "meta_key hash = 0x4d # hash_bytes hash"

definition done_filter :: bytes where
  "done_filter = [0x44]"

definition block_row_into :: "block_row \<Rightarrow> db_row" where
  "block_row_into r = \<lparr>row_key = br_code r # hash_bytes (br_hash r), row_value = br_value r\<rparr>"

definition block_row_from :: "db_row \<Rightarrow> block_row res" where
  "block_row_from row =
     rmap (\<lambda>(c, h). \<lparr>br_code = c, br_hash = h, br_value = row_value row\<rparr>)
       (expect ''called `Result::unwrap()` on an `Err` value''
         (deserialize (\<lambda>bs. bind_dec (get_u8 bs) (\<lambda>c r. bind_dec (get_hash r) (\<lambda>h r'. Some ((c, h), r'))))
           (row_key row)))"

subsection \<open>Script history\<close>

record funding_info =
  fi_txid :: fullhash
  fi_vout :: u32
  fi_value :: u64

record spending_info =
  si_txid :: fullhash
  si_vin :: u32
  si_prev_txid :: fullhash
  si_prev_vout :: u32
  si_value :: u64

datatype tx_history_info = Funding funding_info | Spending spending_info

record tx_history_key =
  hk_code :: u8
  hk_hash :: fullhash
  hk_confirmed_height :: u32
  hk_txinfo :: tx_history_info

definition info_txid :: "tx_history_info \<Rightarrow> txid" where
  "info_txid i = (case i of Funding f \<Rightarrow> fi_txid f | Spending s \<Rightarrow> si_txid s)"

definition info_funded_outpoint :: "tx_history_info \<Rightarrow> outpoint" where
  "info_funded_outpoint i =
     (case i of
        Funding f \<Rightarrow> \<lparr>op_txid = fi_txid f, op_vout = fi_vout f\<rparr>
      | Spending s \<Rightarrow> \<lparr>op_txid = si_prev_txid s, op_vout = si_prev_vout s\<rparr>)"

definition tx_history_row_new :: "bitcoin_lib \<Rightarrow> bytes \<Rightarrow> u32 \<Rightarrow> tx_history_info \<Rightarrow> tx_history_key" where
  "tx_history_row_new B script confirmed_height txinfo =
     \<lparr>hk_code = 0x48, hk_hash = compute_script_hash B script,
      hk_confirmed_height = confirmed_height, hk_txinfo = txinfo\<rparr>"

definition put_txinfo :: "tx_history_info \<Rightarrow> bytes" where
  "put_txinfo i =
     (case i of
        Funding f \<Rightarrow> u32_be 0 @ hash_bytes (fi_txid f) @ u32_be (fi_vout f) @ u64_be (fi_value f)
      | Spending s \<Rightarrow> u32_be 1 @ hash_bytes (si_txid s) @ u32_be (si_vin s) @
          hash_bytes (si_prev_txid s) @ u32_be (si_prev_vout s) @ u64_be (si_value s))"

definition get_txinfo :: "bytes \<Rightarrow> (tx_history_info \<times> bytes) option" where
  "get_txinfo bs = bind_dec (get_u32 Big bs) (\<lambda>variant r.
     if variant = 0 then
       bind_dec (get_hash r) (\<lambda>t r. bind_dec (get_u32 Big r) (\<lambda>v r. bind_dec (get_u64 Big r) (\<lambda>a r.
         Some (Funding \<lparr>fi_txid = t, fi_vout = v, fi_value = a\<rparr>, r))))
     else if variant = 1 then
       bind_dec (get_hash r) (\<lambda>t r. bind_dec (get_u32 Big r) (\<lambda>i r. bind_dec (get_hash r) (\<lambda>p r.
       bind_dec (get_u32 Big r) (\<lambda>v r. bind_dec (get_u64 Big r) (\<lambda>a r.
         Some (Spending \<lparr>si_txid = t, si_vin = i, si_prev_txid = p, si_prev_vout = v,
           si_value = a\<rparr>, r))))))
     else None)"

definition put_history_key :: "tx_history_key \<Rightarrow> bytes" where
  "put_history_key k =
     hk_code k # hash_bytes (hk_hash k) @ u32_be (hk_confirmed_height k) @ put_txinfo (hk_txinfo k)"

definition get_history_key :: "bytes \<Rightarrow> (tx_history_key \<times> bytes) option" where
  "get_history_key bs =
     bind_dec (get_u8 bs) (\<lambda>c r. bind_dec (get_hash r) (\<lambda>h r. bind_dec (get_u32 Big r) (\<lambda>n r.
     bind_dec (get_txinfo r) (\<lambda>i r.
       Some (\<lparr>hk_code = c, hk_hash = h, hk_confirmed_height = n, hk_txinfo = i\<rparr>, r)))))"

definition history_into_row :: "tx_history_key \<Rightarrow> db_row" where
  "history_into_row k = \<lparr>row_key = put_history_key k, row_value = []\<rparr>"

definition history_from_row :: "db_row \<Rightarrow> tx_history_key res" where
  "history_from_row row =
     expect ''failed to deserialize TxHistoryKey'' (deserialize get_history_key (row_key row))"

definition history_filter :: "u8 \<Rightarrow> fullhash \<Rightarrow> bytes" where
  "history_filter code hash = code # hash_bytes hash"

definition prefix_end :: "u8 \<Rightarrow> fullhash \<Rightarrow> bytes" where
  "prefix_end code hash = code # hash_bytes hash @ u32_be (- 1)"

definition prefix_height :: "u8 \<Rightarrow> fullhash \<Rightarrow> u32 \<Rightarrow> bytes" where
  "prefix_height code hash height = code # hash_bytes hash @ u32_be height"

subsection \<open>Spending edges\<close>

record tx_edge_value =
  te_spending_txid :: fullhash
  te_spending_vin :: u32
  te_spending_height :: u32

definition tx_edge_key :: "outpoint \<Rightarrow> bytes" where
  "tx_edge_key p = 0x53 # hash_bytes (op_txid p) @ u32_le (op_vout p)"

definition put_edge_value :: "tx_edge_value \<Rightarrow> bytes" where
  "put_edge_value v =
     hash_bytes (te_spending_txid v) @ u32_le (te_spending_vin v) @ u32_le (te_spending_height v)"

definition get_edge_value :: "bytes \<Rightarrow> (tx_edge_value \<times> bytes) option" where
  "get_edge_value bs =
     bind_dec (get_hash bs) (\<lambda>t r. bind_dec (get_u32 Little r) (\<lambda>i r. bind_dec (get_u32 Little r) (\<lambda>h r.
       Some (\<lparr>te_spending_txid = t, te_spending_vin = i, te_spending_height = h\<rparr>, r))))"

definition tx_edge_row :: "fullhash \<Rightarrow> u32 \<Rightarrow> fullhash \<Rightarrow> u32 \<Rightarrow> u32 \<Rightarrow> db_row" where
  "tx_edge_row funding_txid funding_vout spending_txid spending_vin spending_height =
     \<lparr>row_key = tx_edge_key \<lparr>op_txid = funding_txid, op_vout = funding_vout\<rparr>,
      row_value = put_edge_value \<lparr>te_spending_txid = spending_txid, te_spending_vin = spending_vin,
        te_spending_height = spending_height\<rparr>\<rparr>"

definition edge_from_bytes :: "bytes \<Rightarrow> tx_edge_value res" where
  "edge_from_bytes bs = expect ''invalid TxEdgeValue'' (deserialize get_edge_value bs)"

subsection \<open>Address search\<close>

definition addr_search_row :: "bitcoin_lib \<Rightarrow> bytes \<Rightarrow> network \<Rightarrow> db_row option" where
  "addr_search_row B spk net =
     map_option (\<lambda>address. \<lparr>row_key = 0x61 # address, row_value = []\<rparr>) (to_address_str B spk net)"

definition addr_search_filter :: "bytes \<Rightarrow> bytes" where
  "addr_search_filter pre = 0x61 # pre"


section \<open>Reading back what was written\<close>

interpretation txinfo_codec: codec put_txinfo get_txinfo
  by unfold_locales (simp add: put_txinfo_def get_txinfo_def split: tx_history_info.split)

interpretation history_codec: codec put_history_key get_history_key
  by unfold_locales (simp add: put_history_key_def get_history_key_def txinfo_codec.dec_enc)

interpretation edge_codec: codec put_edge_value get_edge_value
  by unfold_locales (simp add: put_edge_value_def get_edge_value_def)

lemma height_from_val_u32 [simp]: "height_from_val (u32_le h) = Inr h"
  by (simp add: height_from_val_def)

lemma edge_from_bytes_put [simp]: "edge_from_bytes (put_edge_value v) = Inr v"
  by (simp add: edge_from_bytes_def edge_codec.deserialize_whole)

lemma block_row_from_into [simp]: "block_row_from (block_row_into r) = Inr r"
  by (simp add: block_row_from_def block_row_into_def deserialize_def)

lemma history_from_into [simp]: "history_from_row (history_into_row k) = Inr k"
  by (simp add: history_from_row_def history_into_row_def history_codec.deserialize_whole)

section \<open>Keys of different rows\<close>

lemma key_inject [simp]:
  "tx_row_key t = tx_row_key t' \<longleftrightarrow> t = t'"
  "tx_conf_key t = tx_conf_key t' \<longleftrightarrow> t = t'"
  "tx_out_key p = tx_out_key p' \<longleftrightarrow> p = p'"
  "tx_edge_key p = tx_edge_key p' \<longleftrightarrow> p = p'"
  "txids_key h = txids_key h' \<longleftrightarrow> h = h'"
  "meta_key h = meta_key h' \<longleftrightarrow> h = h'"
  "put_history_key k = put_history_key k' \<longleftrightarrow> k = k'"
  by (auto simp: tx_row_key_def tx_conf_key_def tx_out_key_def tx_edge_key_def txids_key_def meta_key_def
      hash_codec.enc_append_inject history_codec.enc_inject)

lemmas key_defs [row_simps] = tx_row_key_def tx_conf_key_def tx_out_key_def tx_edge_key_def
  txids_key_def meta_key_def put_history_key_def block_row_into_def addr_search_row_def

section \<open>Scans of a script's history\<close>

lemma history_filter_prefix [simp]:
  "prefix (history_filter code hash) (put_history_key k) \<longleftrightarrow> hk_code k = code \<and> hk_hash k = hash"
proof
  assume "prefix (history_filter code hash) (put_history_key k)"
  then have "code = hk_code k" and "prefix (hash_bytes hash) (hash_bytes (hk_hash k) @
      u32_be (hk_confirmed_height k) @ put_txinfo (hk_txinfo k))"
    by (simp_all add: history_filter_def put_history_key_def)
  with hash_codec.enc_prefix show "hk_code k = code \<and> hk_hash k = hash" by metis
qed (auto simp: history_filter_def put_history_key_def)

text \<open>
  Claim C27. A history row is read back as the key it was written from, two history rows share
  a database key only if they are the same row, and the scan prefix of a script matches exactly
  the rows of that script.
\<close>

theorem history_row_roundtrip:
  "history_from_row (history_into_row k) = Inr k \<and>
   (row_key (history_into_row k) = row_key (history_into_row k') \<longleftrightarrow> k = k') \<and>
   (prefix (history_filter code hash) (row_key (history_into_row k)) \<longleftrightarrow>
      hk_code k = code \<and> hk_hash k = hash)"
  by (simp add: history_into_row_def [of k'] history_into_row_def [of k]
      history_from_into [of k, unfolded history_into_row_def])

lemma put_txinfo_not_Nil [simp]: "put_txinfo i \<noteq> []"
proof -
  have "length (put_txinfo i) > 0" by (cases i) (simp_all add: put_txinfo_def)
  then show ?thesis by auto
qed

lemma history_key_bounds:
  assumes "hk_code k = code" and "hk_hash k = hash"
  shows "prefix_height code hash n \<le> put_history_key k \<longleftrightarrow> n \<le> hk_confirmed_height k"
    and "put_history_key k \<le> prefix_end code hash \<longleftrightarrow> hk_confirmed_height k < - 1"
    and "hk_code k' = code \<Longrightarrow> hk_hash k' = hash \<Longrightarrow> hk_confirmed_height k < hk_confirmed_height k' \<Longrightarrow>
      put_history_key k < put_history_key k'"
proof -
  have nil: "[] \<le> put_txinfo (hk_txinfo k)" "\<not> put_txinfo (hk_txinfo k) \<le> []"
    by simp (metis le_Nil put_txinfo_not_Nil)
  have "prefix_height code hash n \<le> put_history_key k \<longleftrightarrow>
      u32_be n @ [] \<le> u32_be (hk_confirmed_height k) @ put_txinfo (hk_txinfo k)"
    using assms by (simp add: prefix_height_def put_history_key_def)
  then show "prefix_height code hash n \<le> put_history_key k \<longleftrightarrow> n \<le> hk_confirmed_height k"
    using nil by (subst (asm) lex_append_leq) auto
  have "put_history_key k \<le> prefix_end code hash \<longleftrightarrow>
      u32_be (hk_confirmed_height k) @ put_txinfo (hk_txinfo k) \<le> u32_be (- 1) @ []"
    using assms by (simp add: prefix_end_def put_history_key_def)
  then show "put_history_key k \<le> prefix_end code hash \<longleftrightarrow> hk_confirmed_height k < - 1"
    using nil by (subst (asm) lex_append_leq) auto
  show "put_history_key k < put_history_key k'"
    if "hk_code k' = code" "hk_hash k' = hash" "hk_confirmed_height k < hk_confirmed_height k'"
    using that assms by (simp add: put_history_key_def lex_append_less)
qed

text \<open>
  Claim C28. The keys that bound the scans of a script's history separate the rows by height:
  seeking to \<open>prefix_height\<close> skips exactly the rows below that height, a reverse scan from
  \<open>prefix_end\<close> sees exactly the rows below \<open>u32::MAX\<close>, and within a script a row confirmed
  earlier sorts before a row confirmed later.
\<close>

theorem history_scan_bounds:
  assumes "hk_code k = code" and "hk_hash k = hash" and "hk_code k' = code" and "hk_hash k' = hash"
  shows "(prefix_height code hash n \<le> row_key (history_into_row k) \<longleftrightarrow> n \<le> hk_confirmed_height k) \<and>
    (row_key (history_into_row k) \<le> prefix_end code hash \<longleftrightarrow> hk_confirmed_height k < - 1) \<and>
    (hk_confirmed_height k < hk_confirmed_height k' \<longrightarrow>
      row_key (history_into_row k) < row_key (history_into_row k'))"
  using assms by (simp add: history_key_bounds history_into_row_def)

theorem history_scan_bounds_witness:
  "prefix_height 0x48 7 500 \<le> row_key (history_into_row
     \<lparr>hk_code = 0x48, hk_hash = 7, hk_confirmed_height = 501,
      hk_txinfo = Funding \<lparr>fi_txid = 1, fi_vout = 0, fi_value = 5\<rparr>\<rparr>)"
  (is "_ \<le> row_key (history_into_row ?k)")
proof -
  have "hk_code ?k = 0x48" "hk_hash ?k = 7" by simp_all
  from history_scan_bounds [OF this this, of 500] show ?thesis by simp
qed

end
