(* ===== verification/Db.thy ===== *)
theory Db
  imports Rows
begin

text \<open>
  \<^verbatim>\<open>src/new_index/db.rs\<close>: the wrapper \<open>DB\<close> around a RocksDB handle. RocksDB is not part of the
  repository: its operations are the fields of the record \<open>rocksdb\<close>, and \<open>rocksdb_laws\<close> states
  their documented behaviour for a store that reports no I/O error. The databases are opened
  with a fixed prefix extractor of 33 bytes, so an iterator without \<open>total_order_seek\<close> is only
  guaranteed to deliver the keys that share the first 33 bytes of the key it was seeked to;
  the laws promise no more than that, and the scans are proved complete from it.

  The locale \<open>kv_store\<close> is the interface the indexer and the queries use: reads, prefix scans
  and batched writes over an abstract content, interpreted on the wrapper.
\<close>

section \<open>RocksDB as a parameter\<close>

datatype batch_op = Put bytes bytes | Delete bytes | DeleteRange bytes bytes

record write_options =
  wo_sync :: bool
  wo_disable_wal :: bool

text \<open>
  Reads may report an error; iterators are the finite sequences of results they deliver
  (\<open>rk_iterator\<close> takes the \<open>total_order_seek\<close> option; the raw reverse iterator ends silently on
  an error). \<open>rk_view\<close> is the logical content, used to state the laws only.
\<close>

record 'db rocksdb =
  rk_view :: "'db \<Rightarrow> bytes \<Rightarrow> bytes option"
  rk_get :: "'db \<Rightarrow> bytes \<Rightarrow> bytes option res"
  rk_multi_get :: "'db \<Rightarrow> bytes list \<Rightarrow> bytes option res list"
  rk_iterator :: "'db \<Rightarrow> bool \<Rightarrow> bytes \<Rightarrow> (bytes \<times> bytes) res list"
  rk_prefix_iterator :: "'db \<Rightarrow> bytes \<Rightarrow> (bytes \<times> bytes) res list"
  rk_seek_for_prev :: "'db \<Rightarrow> bytes \<Rightarrow> (bytes \<times> bytes) list"
  rk_write_opt :: "'db \<Rightarrow> batch_op list \<Rightarrow> write_options \<Rightarrow> 'db res"
  rk_flush :: "'db \<Rightarrow> 'db res"

definition apply_op :: "batch_op \<Rightarrow> (bytes \<Rightarrow> bytes option) \<Rightarrow> bytes \<Rightarrow> bytes option" where
  "apply_op op m =
     (case op of
        Put k v \<Rightarrow> m(k \<mapsto> v)
      | Delete k \<Rightarrow> m(k := None)
      | DeleteRange a b \<Rightarrow> (\<lambda>k. if a \<le> k \<and> k < b then None else m k))"

lemma apply_op_simps [simp]:
  "apply_op (Put k v) m = m(k \<mapsto> v)"
  "apply_op (Delete k) m = m(k := None)"
  "apply_op (DeleteRange a b) m = (\<lambda>k. if a \<le> k \<and> k < b then None else m k)"
  by (simp_all add: apply_op_def)

text \<open>The pairs of a content with a key in a set, in key order.\<close>

definition listing :: "(bytes \<Rightarrow> bytes option) \<Rightarrow> (bytes \<Rightarrow> bool) \<Rightarrow> (bytes \<times> bytes) list" where
  "listing m P = map (\<lambda>k. (k, the (m k))) (sorted_list_of_set {k \<in> dom m. P k})"

definition PREFIX_LEN :: nat where
  "PREFIX_LEN = 33"

definition same_prefix :: "bytes \<Rightarrow> bytes \<Rightarrow> bool" where
  "same_prefix s k \<longleftrightarrow> take PREFIX_LEN k = take PREFIX_LEN s"

definition item_ok :: "(bytes \<Rightarrow> bool) \<Rightarrow> (bytes \<times> bytes) res \<Rightarrow> bool" where
  "item_ok P r = (case r of Inl _ \<Rightarrow> True | Inr (k, _) \<Rightarrow> P k)"

definition rocksdb_laws :: "'db rocksdb \<Rightarrow> bool" where
  "rocksdb_laws R \<longleftrightarrow>
     (\<forall>db. finite (dom (rk_view R db))) \<and>
     (\<forall>db k. rk_get R db k = Inr (rk_view R db k)) \<and>
     (\<forall>db ks. rk_multi_get R db ks = map (\<lambda>k. Inr (rk_view R db k)) ks) \<and>
     (\<forall>db s. rk_iterator R db True s = map Inr (listing (rk_view R db) (\<lambda>k. s \<le> k))) \<and>
     (\<forall>db s. PREFIX_LEN \<le> length s \<longrightarrow>
        takeWhile (item_ok (same_prefix s)) (rk_iterator R db False s) =
          map Inr (listing (rk_view R db) (\<lambda>k. s \<le> k \<and> same_prefix s k))) \<and>
     (\<forall>db s. PREFIX_LEN \<le> length s \<longrightarrow>
        takeWhile (item_ok (same_prefix s)) (rk_prefix_iterator R db s) =
          map Inr (listing (rk_view R db) (\<lambda>k. s \<le> k \<and> same_prefix s k))) \<and>
     (\<forall>db s. rk_seek_for_prev R db s = rev (listing (rk_view R db) (\<lambda>k. k \<le> s))) \<and>
     (\<forall>db ops opts. \<exists>db'. rk_write_opt R db ops opts = Inr db' \<and>
        rk_view R db' = fold apply_op ops (rk_view R db)) \<and>
     (\<forall>db. \<exists>db'. rk_flush R db = Inr db' \<and> rk_view R db' = rk_view R db)"

section \<open>The wrapper\<close>

record 'db DB =
  db_lib :: "'db rocksdb"
  db_handle :: 'db

datatype db_flush = FlushDisable | FlushEnable

text \<open>\<open>Result::unwrap\<close> on a result of the library.\<close>

definition unwrap :: "'a res \<Rightarrow> 'a res" where
  "unwrap r = (case r of Inl _ \<Rightarrow> Inl (Panic ''called `Result::unwrap()` on an `Err` value'') | Inr x \<Rightarrow> Inr x)"

definition db_get :: "'db DB \<Rightarrow> bytes \<Rightarrow> bytes option res" where
  "db_get d key = unwrap (rk_get (db_lib d) (db_handle d) key)"

definition try_get :: "'db DB \<Rightarrow> bytes \<Rightarrow> bytes option res" where
  "try_get d key = rk_get (db_lib d) (db_handle d) key"

definition multi_get :: "'db DB \<Rightarrow> bytes list \<Rightarrow> bytes option res list" where
  "multi_get d keys = rk_multi_get (db_lib d) (db_handle d) keys"

definition write_batch :: "'db DB \<Rightarrow> batch_op list \<Rightarrow> db_flush \<Rightarrow> 'db DB res" where
  "write_batch d batch flush =
     (let do_flush = (case flush of FlushEnable \<Rightarrow> True | FlushDisable \<Rightarrow> False);
          opts = \<lparr>wo_sync = do_flush, wo_disable_wal = (\<not> do_flush)\<rparr>
      in rmap (\<lambda>db'. d\<lparr>db_handle := db'\<rparr>) (unwrap (rk_write_opt (db_lib d) (db_handle d) batch opts)))"

definition write_rows :: "'db DB \<Rightarrow> db_row list \<Rightarrow> db_flush \<Rightarrow> 'db DB res" where
  "write_rows d rows flush =
     write_batch d (map (\<lambda>r. Put (row_key r) (row_value r)) (sort_key row_key rows)) flush"

definition delete_rows :: "'db DB \<Rightarrow> db_row list \<Rightarrow> db_flush \<Rightarrow> 'db DB res" where
  "delete_rows d rows flush =
     write_batch d (map (\<lambda>r. Delete (row_key r)) (sort_key row_key rows)) flush"

definition delete_range :: "'db DB \<Rightarrow> bytes \<Rightarrow> bytes \<Rightarrow> db_flush \<Rightarrow> 'db DB res" where
  "delete_range d from to flush = write_batch d [DeleteRange from to] flush"

definition db_flush_op :: "'db DB \<Rightarrow> 'db DB res" where
  "db_flush_op d = rmap (\<lambda>db'. d\<lparr>db_handle := db'\<rparr>) (unwrap (rk_flush (db_lib d) (db_handle d)))"

text \<open>\<open>put\<close> uses the default write options (logged, not synced), \<open>put_sync\<close> syncs the log.\<close>

definition db_put :: "'db DB \<Rightarrow> bytes \<Rightarrow> bytes \<Rightarrow> 'db DB res" where
  "db_put d key value = rmap (\<lambda>db'. d\<lparr>db_handle := db'\<rparr>)
     (unwrap (rk_write_opt (db_lib d) (db_handle d) [Put key value] \<lparr>wo_sync = False, wo_disable_wal = False\<rparr>))"

definition put_sync :: "'db DB \<Rightarrow> bytes \<Rightarrow> bytes \<Rightarrow> 'db DB res" where
  "put_sync d key value = rmap (\<lambda>db'. d\<lparr>db_handle := db'\<rparr>)
     (unwrap (rk_write_opt (db_lib d) (db_handle d) [Put key value] \<lparr>wo_sync = True, wo_disable_wal = False\<rparr>))"

text \<open>
  \<open>ScanIterator::next\<close>, repeated: rows while the key has the prefix. An error of the underlying
  iterator is a panic, and nothing follows it.
\<close>

fun scan_iterator :: "bytes \<Rightarrow> (bytes \<times> bytes) res list \<Rightarrow> db_row res list" where
  "scan_iterator pre [] = []"
| "scan_iterator pre (Inl e # rs) = [Inl (Panic ''valid iterator'')]"
| "scan_iterator pre (Inr (k, v) # rs) =
     (if prefix pre k then Inr \<lparr>row_key = k, row_value = v\<rparr> # scan_iterator pre rs else [])"

fun reverse_scan_iterator :: "bytes \<Rightarrow> (bytes \<times> bytes) list \<Rightarrow> db_row list" where
  "reverse_scan_iterator pre [] = []"
| "reverse_scan_iterator pre ((k, v) # rs) =
     (if prefix pre k then \<lparr>row_key = k, row_value = v\<rparr> # reverse_scan_iterator pre rs else [])"

definition iter_scan :: "'db DB \<Rightarrow> bytes \<Rightarrow> db_row res list" where
  "iter_scan d pre =
     scan_iterator pre
       (if length pre \<ge> PREFIX_LEN then rk_prefix_iterator (db_lib d) (db_handle d) pre
        else rk_iterator (db_lib d) (db_handle d) True pre)"

definition iter_scan_from :: "'db DB \<Rightarrow> bytes \<Rightarrow> bytes \<Rightarrow> db_row res list" where
  "iter_scan_from d pre start_at =
     scan_iterator pre
       (if length start_at \<ge> PREFIX_LEN then rk_iterator (db_lib d) (db_handle d) False start_at
        else rk_iterator (db_lib d) (db_handle d) True start_at)"

definition iter_scan_reverse :: "'db DB \<Rightarrow> bytes \<Rightarrow> bytes \<Rightarrow> db_row list" where
  "iter_scan_reverse d pre prefix_max =
     reverse_scan_iterator pre (rk_seek_for_prev (db_lib d) (db_handle d) prefix_max)"

subsection \<open>Compatibility marker\<close>

definition DB_VERSION :: u32 where
  "DB_VERSION = 3"

record index_flags =
  fl_light_mode :: bool
  fl_index_unspendables :: bool
  fl_address_search :: bool

definition put_bool :: "bool \<Rightarrow> bytes" where
  "put_bool b = [if b then 1 else 0]"

definition version_bytes :: "index_flags \<Rightarrow> bytes" where
  "version_bytes c = u32_le DB_VERSION @ put_bool (fl_light_mode c)"

definition flags_bytes :: "index_flags \<Rightarrow> bytes" where
  "flags_bytes c = put_bool (fl_index_unspendables c) @ put_bool (fl_address_search c)"

abbreviation V_KEY :: bytes where "V_KEY \<equiv> [0x56]"
abbreviation FLAGS_KEY :: bytes where "FLAGS_KEY \<equiv> [0x56, 0x46]"

definition verify_compatibility :: "'db DB \<Rightarrow> index_flags \<Rightarrow> 'db DB res" where
  "verify_compatibility d c =
     rbind (db_get d V_KEY) (\<lambda>stored. case stored of
       None \<Rightarrow> rbind (db_put d FLAGS_KEY (flags_bytes c)) (\<lambda>d. db_put d V_KEY (version_bytes c))
     | Some stored_version \<Rightarrow>
         if stored_version \<noteq> version_bytes c then
           (if stored_version \<noteq> version_bytes c @ flags_bytes c then
              Inl (Panic ''Incompatible database found. Please reindex or migrate.'')
            else rbind (db_put d FLAGS_KEY (flags_bytes c)) (\<lambda>d. db_put d V_KEY (version_bytes c)))
         else rbind (db_get d FLAGS_KEY) (\<lambda>flags. case flags of
           Some stored_flags \<Rightarrow>
             if stored_flags = flags_bytes c then Inr d
             else Inl (Panic ''Incompatible database found'')
         | None \<Rightarrow> db_put d FLAGS_KEY (flags_bytes c)))"


section \<open>Contents in key order\<close>

definition to_row :: "bytes \<times> bytes \<Rightarrow> db_row" where
  "to_row kv = \<lparr>row_key = fst kv, row_value = snd kv\<rparr>"

definition rows_of :: "(bytes \<Rightarrow> bytes option) \<Rightarrow> (bytes \<Rightarrow> bool) \<Rightarrow> db_row list" where
  "rows_of m P = map to_row (listing m P)"

lemma listing_keys: "map fst (listing m P) = sorted_list_of_set {k \<in> dom m. P k}"
  by (simp add: listing_def comp_def)

lemma listing_sorted: "sorted_wrt (\<lambda>x y. fst x < fst y) (listing m P)"
  by (simp add: listing_def sorted_wrt_map)

lemma set_listing: "finite (dom m) \<Longrightarrow> set (listing m P) = {(k, v). m k = Some v \<and> P k}"
  by (auto simp: listing_def)

lemma filter_listing:
  assumes "finite (dom m)"
  shows "filter (\<lambda>x. Q (fst x)) (listing m P) = listing m (\<lambda>k. P k \<and> Q k)"
proof -
  let ?A = "{k \<in> dom m. P k}"
  have "filter Q (sorted_list_of_set ?A) = sorted_list_of_set {k \<in> dom m. P k \<and> Q k}"
    using assms by (intro sorted_distinct_set_unique) (auto intro: sorted_wrt_filter)
  then show ?thesis by (simp add: listing_def filter_map comp_def)
qed

lemma takeWhile_listing:
  assumes "finite (dom m)" and "\<And>k k'. P k \<Longrightarrow> P k' \<Longrightarrow> k \<le> k' \<Longrightarrow> Q k' \<Longrightarrow> Q k"
  shows "takeWhile (\<lambda>x. Q (fst x)) (listing m P) = listing m (\<lambda>k. P k \<and> Q k)"
proof -
  have "takeWhile (\<lambda>x. Q (fst x)) (listing m P) = filter (\<lambda>x. Q (fst x)) (listing m P)"
    using listing_sorted
    by (rule takeWhile_eq_filter) (use assms in \<open>auto simp: set_listing intro: less_imp_le\<close>)
  then show ?thesis by (simp add: filter_listing [OF assms(1)])
qed

lemma takeWhile_rev_listing:
  assumes "finite (dom m)" and "\<And>k k'. P k \<Longrightarrow> P k' \<Longrightarrow> k \<le> k' \<Longrightarrow> Q k \<Longrightarrow> Q k'"
  shows "takeWhile (\<lambda>x. Q (fst x)) (rev (listing m P)) = rev (listing m (\<lambda>k. P k \<and> Q k))"
proof -
  have "sorted_wrt (\<lambda>x y. fst y < fst x) (rev (listing m P))"
    using listing_sorted by (simp add: sorted_wrt_rev)
  then have "takeWhile (\<lambda>x. Q (fst x)) (rev (listing m P)) = filter (\<lambda>x. Q (fst x)) (rev (listing m P))"
    by (rule takeWhile_eq_filter) (use assms in \<open>auto simp: set_listing intro: less_imp_le\<close>)
  then show ?thesis by (simp add: rev_filter [symmetric] filter_listing [OF assms(1)])
qed

lemma scan_iterator_map: "scan_iterator pre (map Inr kvs) = map (Inr \<circ> to_row) (takeWhile (\<lambda>x. prefix pre (fst x)) kvs)"
  by (induction kvs) (auto simp: to_row_def)

lemma reverse_scan_iterator_takeWhile:
  "reverse_scan_iterator pre kvs = map to_row (takeWhile (\<lambda>x. prefix pre (fst x)) kvs)"
  by (induction kvs) (auto simp: to_row_def)

text \<open>A scan never looks past the keys that can have its prefix.\<close>

lemma scan_iterator_takeWhile:
  "(\<And>k. prefix pre k \<Longrightarrow> Q k) \<Longrightarrow> scan_iterator pre (takeWhile (item_ok Q) rs) = scan_iterator pre rs"
  by (induction pre rs rule: scan_iterator.induct) (auto simp: item_ok_def)

section \<open>The wrapper implements an ordered map\<close>

definition db_ok :: "'db DB \<Rightarrow> bool" where
  "db_ok d \<longleftrightarrow> rocksdb_laws (db_lib d)"

definition db_view :: "'db DB \<Rightarrow> bytes \<Rightarrow> bytes option" where
  "db_view d = rk_view (db_lib d) (db_handle d)"

lemma unwrap_simps [simp]:
  "unwrap (Inr x) = Inr x" "unwrap (Inl e) = Inl (Panic ''called `Result::unwrap()` on an `Err` value'')"
  by (simp_all add: unwrap_def)

lemma db_reads:
  assumes "db_ok d"
  shows "finite (dom (db_view d))" "db_get d k = Inr (db_view d k)" "try_get d k = Inr (db_view d k)"
    "multi_get d ks = map (\<lambda>k. Inr (db_view d k)) ks"
  using assms by (simp_all add: db_ok_def rocksdb_laws_def db_get_def try_get_def multi_get_def db_view_def)

lemma write_opt_view:
  assumes "db_ok d"
  shows "\<exists>h. rk_write_opt (db_lib d) (db_handle d) ops opts = Inr h \<and> db_ok (d\<lparr>db_handle := h\<rparr>) \<and>
    db_view (d\<lparr>db_handle := h\<rparr>) = fold apply_op ops (db_view d)"
  using assms by (auto simp: db_ok_def rocksdb_laws_def db_view_def)

lemma write_batch_view:
  "db_ok d \<Longrightarrow> \<exists>d'. write_batch d ops fl = Inr d' \<and> db_ok d' \<and> db_view d' = fold apply_op ops (db_view d)"
  using write_opt_view [of d ops "\<lparr>wo_sync = (fl = FlushEnable), wo_disable_wal = (fl \<noteq> FlushEnable)\<rparr>"]
  by (cases fl) (auto simp: write_batch_def Let_def)

lemma write_batch_Inr:
  assumes "write_batch d ops fl = Inr d'" and "db_ok d"
  shows "db_ok d' \<and> db_view d' = fold apply_op ops (db_view d)"
  using write_batch_view [OF assms(2), of ops fl] assms(1) by simp

lemma db_put_view:
  "db_ok d \<Longrightarrow> \<exists>d'. db_put d k v = Inr d' \<and> db_ok d' \<and> db_view d' = (db_view d)(k \<mapsto> v)"
  using write_opt_view [of d "[Put k v]" "\<lparr>wo_sync = False, wo_disable_wal = False\<rparr>"]
  by (auto simp: db_put_def)

lemma db_put_Inr:
  assumes "db_put d k v = Inr d'" and "db_ok d"
  shows "db_ok d' \<and> db_view d' = (db_view d)(k \<mapsto> v)"
  using db_put_view [OF assms(2), of k v] assms(1) by simp

lemma put_sync_view:
  "db_ok d \<Longrightarrow> \<exists>d'. put_sync d k v = Inr d' \<and> db_ok d' \<and> db_view d' = (db_view d)(k \<mapsto> v)"
  using write_opt_view [of d "[Put k v]" "\<lparr>wo_sync = True, wo_disable_wal = False\<rparr>"]
  by (auto simp: put_sync_def)

lemma flush_view: "db_ok d \<Longrightarrow> \<exists>d'. db_flush_op d = Inr d' \<and> db_ok d' \<and> db_view d' = db_view d"
proof -
  assume "db_ok d"
  then obtain h where "rk_flush (db_lib d) (db_handle d) = Inr h"
    "rk_view (db_lib d) h = rk_view (db_lib d) (db_handle d)"
    unfolding db_ok_def rocksdb_laws_def by blast
  then show ?thesis using \<open>db_ok d\<close> by (simp add: db_flush_op_def db_ok_def db_view_def)
qed

lemma delete_range_view:
  "db_ok d \<Longrightarrow> \<exists>d'. delete_range d a b fl = Inr d' \<and> db_ok d' \<and>
     db_view d' = (\<lambda>k. if a \<le> k \<and> k < b then None else db_view d k)"
  using write_batch_view [of d "[DeleteRange a b]" fl] by (simp add: delete_range_def)


subsection \<open>Scans\<close>

lemma prefix_downward: "pre \<le> k \<Longrightarrow> k \<le> k' \<Longrightarrow> prefix pre k' \<Longrightarrow> prefix (pre :: bytes) k"
  using not_prefix_upward by blast

lemma prefix_same_prefix:
  assumes "PREFIX_LEN \<le> length pre" and "prefix pre k" and "prefix pre s"
  shows "same_prefix s k"
  using assms by (auto simp: same_prefix_def prefix_def)

lemma rows_of_cong: "(\<And>k. P k \<longleftrightarrow> Q k) \<Longrightarrow> rows_of m P = rows_of m Q"
  by (rule arg_cong [where f = "rows_of m"]) (rule ext)

lemma scan_rows_listing:
  assumes "finite (dom m)" and "\<And>k. P k \<Longrightarrow> pre \<le> k"
  shows "scan_iterator pre (map Inr (listing m P)) = map Inr (rows_of m (\<lambda>k. P k \<and> prefix pre k))"
proof -
  have "takeWhile (\<lambda>x. prefix pre (fst x)) (listing m P) = listing m (\<lambda>k. P k \<and> prefix pre k)"
    using assms by (intro takeWhile_listing) (auto intro: prefix_downward)
  then show ?thesis by (simp add: scan_iterator_map rows_of_def)
qed

lemma iter_scan_from_view:
  assumes ok: "db_ok d" and pre: "prefix pre start_at"
    and len: "length start_at < PREFIX_LEN \<or> PREFIX_LEN \<le> length pre"
  shows "iter_scan_from d pre start_at = map Inr (rows_of (db_view d) (\<lambda>k. start_at \<le> k \<and> prefix pre k))"
proof (cases "PREFIX_LEN \<le> length start_at")
  case True
  with len have "PREFIX_LEN \<le> length pre" by simp
  then have same: "same_prefix start_at k" if "prefix pre k" for k
    using that pre by (rule prefix_same_prefix)
  have "iter_scan_from d pre start_at = scan_iterator pre
      (takeWhile (item_ok (same_prefix start_at)) (rk_iterator (db_lib d) (db_handle d) False start_at))"
    using True by (simp add: iter_scan_from_def scan_iterator_takeWhile [OF same])
  also have "\<dots> = scan_iterator pre (map Inr (listing (db_view d) (\<lambda>k. start_at \<le> k \<and> same_prefix start_at k)))"
    using ok True by (simp add: db_ok_def rocksdb_laws_def db_view_def)
  also have "\<dots> = map Inr (rows_of (db_view d) (\<lambda>k. start_at \<le> k \<and> prefix pre k))"
    using prefix_imp_le [OF pre] db_reads(1) [OF ok]
    by (subst scan_rows_listing) (auto intro!: arg_cong [where f = "map Inr"] rows_of_cong dest: same)
  finally show ?thesis .
next
  case False
  then have "iter_scan_from d pre start_at = scan_iterator pre (map Inr (listing (db_view d) (\<lambda>k. start_at \<le> k)))"
    using ok by (simp add: iter_scan_from_def db_ok_def rocksdb_laws_def db_view_def)
  then show ?thesis
    using prefix_imp_le [OF pre] by (simp add: scan_rows_listing [OF db_reads(1) [OF ok]])
qed

lemma iter_scan_view:
  assumes ok: "db_ok d"
  shows "iter_scan d pre = map Inr (rows_of (db_view d) (prefix pre))"
proof (cases "PREFIX_LEN \<le> length pre")
  case True
  then have same: "same_prefix pre k" if "prefix pre k" for k
    using that by (rule prefix_same_prefix) simp
  have "iter_scan d pre = scan_iterator pre
      (takeWhile (item_ok (same_prefix pre)) (rk_prefix_iterator (db_lib d) (db_handle d) pre))"
    using True by (simp add: iter_scan_def scan_iterator_takeWhile [OF same])
  also have "\<dots> = scan_iterator pre (map Inr (listing (db_view d) (\<lambda>k. pre \<le> k \<and> same_prefix pre k)))"
    using ok True by (simp add: db_ok_def rocksdb_laws_def db_view_def)
  also have "\<dots> = map Inr (rows_of (db_view d) (prefix pre))"
    using db_reads(1) [OF ok]
    by (subst scan_rows_listing)
      (auto intro!: arg_cong [where f = "map Inr"] rows_of_cong dest: same prefix_imp_le)
  finally show ?thesis .
next
  case False
  then have "iter_scan d pre = scan_iterator pre (map Inr (listing (db_view d) (\<lambda>k. pre \<le> k)))"
    using ok by (simp add: iter_scan_def db_ok_def rocksdb_laws_def db_view_def)
  also have "\<dots> = map Inr (rows_of (db_view d) (prefix pre))"
    by (subst scan_rows_listing [OF db_reads(1) [OF ok]])
      (auto intro!: arg_cong [where f = "map Inr"] rows_of_cong dest: prefix_imp_le)
  finally show ?thesis .
qed

lemma iter_scan_reverse_view:
  assumes ok: "db_ok d" and pre: "prefix pre prefix_max"
  shows "iter_scan_reverse d pre prefix_max =
    rev (rows_of (db_view d) (\<lambda>k. k \<le> prefix_max \<and> prefix pre k))"
proof -
  have up: "prefix pre k'" if "k \<le> k'" "k' \<le> prefix_max" "prefix pre k" for k k'
    using that pre not_prefix_upward [of pre k' prefix_max] prefix_imp_le [of pre k] by force
  have "iter_scan_reverse d pre prefix_max =
      map to_row (takeWhile (\<lambda>x. prefix pre (fst x)) (rev (listing (db_view d) (\<lambda>k. k \<le> prefix_max))))"
    using ok by (simp add: iter_scan_reverse_def reverse_scan_iterator_takeWhile db_ok_def
        rocksdb_laws_def db_view_def)
  also have "\<dots> = map to_row (rev (listing (db_view d) (\<lambda>k. k \<le> prefix_max \<and> prefix pre k)))"
    by (subst takeWhile_rev_listing [OF db_reads(1) [OF ok]]) (auto intro: up)
  finally show ?thesis by (simp add: rows_of_def rev_map)
qed


subsection \<open>The interface of a database\<close>

definition rows_map :: "db_row list \<Rightarrow> bytes \<Rightarrow> bytes option" where
  "rows_map rows = map_of (map (\<lambda>r. (row_key r, row_value r)) rows)"

text \<open>Rows with equal keys have equal values, so that the order in which they are put is irrelevant.\<close>

definition consistent :: "db_row list \<Rightarrow> bool" where
  "consistent rows \<longleftrightarrow> (\<forall>r \<in> set rows. \<forall>r' \<in> set rows. row_key r = row_key r' \<longrightarrow> row_value r = row_value r')"

lemma rows_map_SomeD: "rows_map rows k = Some v \<Longrightarrow> \<exists>r \<in> set rows. row_key r = k \<and> row_value r = v"
  by (auto simp: rows_map_def dest!: map_of_SomeD)

lemma rows_map_None: "rows_map rows k = None \<longleftrightarrow> k \<notin> row_key ` set rows"
  by (simp add: rows_map_def map_of_eq_None_iff image_image)

lemma rows_map_Some:
  assumes "consistent rows"
  shows "rows_map rows k = Some v \<longleftrightarrow> (\<exists>r \<in> set rows. row_key r = k \<and> row_value r = v)"
proof
  assume "\<exists>r \<in> set rows. row_key r = k \<and> row_value r = v"
  then obtain r where r: "r \<in> set rows" "row_key r = k" "row_value r = v" by blast
  then obtain v' where v': "rows_map rows k = Some v'"
    using rows_map_None [of rows k] by (cases "rows_map rows k") auto
  from rows_map_SomeD [OF this] obtain r' where "r' \<in> set rows" "row_key r' = k" "row_value r' = v'"
    by blast
  with assms r have "v' = v" unfolding consistent_def by metis
  with v' show "rows_map rows k = Some v" by simp
qed (rule rows_map_SomeD)

lemma rows_map_append: "rows_map (xs @ ys) = rows_map ys ++ rows_map xs"
  by (simp add: rows_map_def)

lemma dom_rows_map: "dom (rows_map rows) = row_key ` set rows"
  by (simp add: dom_def rows_map_None)

lemma consistent_append:
  "consistent (xs @ ys) \<longleftrightarrow> consistent xs \<and> consistent ys \<and>
     (\<forall>r \<in> set xs. \<forall>r' \<in> set ys. row_key r = row_key r' \<longrightarrow> row_value r = row_value r')"
  (is "?L \<longleftrightarrow> ?R")
proof
  show "?L \<Longrightarrow> ?R" by (auto simp only: consistent_def set_append)
next
  assume R: "?R"
  then have "row_value r = row_value r'"
    if "r \<in> set xs \<union> set ys" "r' \<in> set xs \<union> set ys" "row_key r = row_key r'" for r r'
    using that unfolding consistent_def by (elim UnE) (blast, blast, metis, blast)
  then show "?L" by (simp only: consistent_def set_append) blast
qed

lemma rows_map_cong:
  assumes "consistent rows" and "set rows' = set rows"
  shows "rows_map rows' = rows_map rows"
proof -
  have "consistent rows'" using assms(1) unfolding consistent_def assms(2) .
  have "rows_map rows' k = rows_map rows k" for k
  proof (cases "rows_map rows k")
    case None
    then have "rows_map rows' k = None" using assms(2) by (simp add: rows_map_None)
    with None show ?thesis by simp
  next
    case (Some v)
    with rows_map_Some [OF assms(1)] have "\<exists>r \<in> set rows'. row_key r = k \<and> row_value r = v"
      by (simp add: assms(2))
    with rows_map_Some [OF \<open>consistent rows'\<close>] Some show ?thesis by metis
  qed
  then show ?thesis by blast
qed

lemma add_rows_in:
  assumes "consistent rows" and "row \<in> set rows"
  shows "(m ++ rows_map rows) (row_key row) = Some (row_value row)"
proof -
  have "rows_map rows (row_key row) = Some (row_value row)"
    using rows_map_Some [OF assms(1)] assms(2) by blast
  then show ?thesis by (rule map_add_find_right)
qed

lemma add_rows_notin: "k \<notin> row_key ` set rows \<Longrightarrow> (m ++ rows_map rows) k = m k"
  by (simp add: map_add_dom_app_simps(3) dom_rows_map)

locale kv_store =
  fixes invar :: "'s \<Rightarrow> bool"
    and view :: "'s \<Rightarrow> bytes \<Rightarrow> bytes option"
    and get :: "'s \<Rightarrow> bytes \<Rightarrow> bytes option res"
    and scan :: "'s \<Rightarrow> bytes \<Rightarrow> db_row res list"
    and put_rows :: "'s \<Rightarrow> db_row list \<Rightarrow> db_flush \<Rightarrow> 's res"
    and del_rows :: "'s \<Rightarrow> db_row list \<Rightarrow> db_flush \<Rightarrow> 's res"
  assumes view_finite: "invar s \<Longrightarrow> finite (dom (view s))"
    and get_view: "invar s \<Longrightarrow> get s k = Inr (view s k)"
    and scan_view: "invar s \<Longrightarrow> scan s pre = map Inr (rows_of (view s) (prefix pre))"
    and write_view: "invar s \<Longrightarrow> consistent rows \<Longrightarrow>
      \<exists>s'. put_rows s rows fl = Inr s' \<and> invar s' \<and> view s' = view s ++ rows_map rows"
    and del_view: "invar s \<Longrightarrow>
      \<exists>s'. del_rows s rows fl = Inr s' \<and> invar s' \<and> view s' = view s |` (- row_key ` set rows)"
begin

lemma get_written:
  assumes "invar s" and "consistent rows" and "put_rows s rows fl = Inr s'"
  shows "row \<in> set rows \<Longrightarrow> get s' (row_key row) = Inr (Some (row_value row))"
    and "k \<notin> row_key ` set rows \<Longrightarrow> get s' k = get s k"
proof -
  from write_view [OF assms(1,2), of fl] assms(3) have s': "invar s'" "view s' = view s ++ rows_map rows"
    by auto
  show "row \<in> set rows \<Longrightarrow> get s' (row_key row) = Inr (Some (row_value row))"
    by (simp add: get_view [OF s'(1)] s'(2) add_rows_in [OF assms(2)])
  show "k \<notin> row_key ` set rows \<Longrightarrow> get s' k = get s k"
    by (simp add: get_view [OF s'(1)] get_view [OF assms(1)] s'(2) add_rows_notin)
qed

text \<open>Writing batches one after the other gives the same content as writing them together.\<close>

lemma write_write:
  assumes "invar s" and "consistent (xs @ ys)"
    and "put_rows s xs fl = Inr s1" and "put_rows s1 ys fl' = Inr s2"
  shows "view s2 = view s ++ rows_map (xs @ ys)"
proof -
  have c: "consistent xs" "consistent ys" using assms(2) by (simp_all add: consistent_append)
  from write_view [OF assms(1) c(1), of fl] assms(3) have s1: "invar s1" "view s1 = view s ++ rows_map xs"
    by auto
  from write_view [OF s1(1) c(2), of fl'] assms(4) have s2: "view s2 = view s1 ++ rows_map ys"
    by auto
  have "view s2 = view s ++ rows_map (ys @ xs)" by (simp add: s1 s2 rows_map_append)
  also have "rows_map (ys @ xs) = rows_map (xs @ ys)"
    using assms(2) by (rule rows_map_cong) auto
  finally show ?thesis .
qed

text \<open>Writing rows again, as a restarted sync does, changes nothing.\<close>

lemma rewrite:
  assumes "invar s" and "consistent rows" and "rows_map rows \<subseteq>\<^sub>m view s" and "put_rows s rows fl = Inr s'"
  shows "view s' = view s"
proof -
  from write_view [OF assms(1,2), of fl] assms(4) have "view s' = view s ++ rows_map rows" by auto
  then show ?thesis by (simp add: map_add_subsumed2 [OF assms(3)])
qed

text \<open>Deleting the rows that were written restores a store that had none of their keys.\<close>

lemma del_written:
  assumes "invar s" and "consistent rows" and "put_rows s rows fl = Inr s1" and "del_rows s1 rows fl' = Inr s2"
    and "\<forall>r \<in> set rows. view s (row_key r) = None"
  shows "view s2 = view s"
proof -
  from write_view [OF assms(1,2), of fl] assms(3) have s1: "invar s1" "view s1 = view s ++ rows_map rows"
    by auto
  from del_view [OF s1(1), of rows fl'] assms(4) have s2: "view s2 = view s1 |` (- row_key ` set rows)"
    by auto
  have "view s2 k = view s k" for k
  proof (cases "k \<in> row_key ` set rows")
    case True
    then show ?thesis using assms(5) by (auto simp: s2)
  next
    case False
    then show ?thesis by (simp add: s1 s2 add_rows_notin)
  qed
  then show ?thesis by blast
qed

end

lemma rows_map_single: "rows_map [r] = [row_key r \<mapsto> row_value r]"
  by (simp add: rows_map_def)

lemma fold_puts: "fold apply_op (map (\<lambda>r. Put (row_key r) (row_value r)) rows) m = m ++ rows_map (rev rows)"
proof (induction rows arbitrary: m)
  case (Cons r rows)
  have "m ++ [row_key r \<mapsto> row_value r] = m(row_key r \<mapsto> row_value r)" by simp
  then show ?case
    by (simp only: list.map fold_simps apply_op_simps Cons.IH rev.simps rows_map_append
        rows_map_single map_add_assoc)
qed (simp add: rows_map_def)

lemma fold_deletes: "fold apply_op (map (\<lambda>r. Delete (row_key r)) rows) m = m |` (- row_key ` set rows)"
proof (induction rows arbitrary: m)
  case (Cons r rows)
  have "m(row_key r := None) |` (- row_key ` set rows) = m |` (- row_key ` set (r # rows))"
    by (auto simp: restrict_map_def fun_eq_iff)
  then show ?case
    by (simp only: list.map fold_simps apply_op_simps Cons.IH)
qed (simp add: restrict_map_def)

interpretation db: kv_store db_ok db_view db_get iter_scan write_rows delete_rows
proof
  fix s :: "'a DB" and rows fl
  assume "db_ok s"
  show "\<exists>s'. delete_rows s rows fl = Inr s' \<and> db_ok s' \<and> db_view s' = db_view s |` (- row_key ` set rows)"
    using write_batch_view [OF \<open>db_ok s\<close>, of "map (\<lambda>r. Delete (row_key r)) (sort_key row_key rows)" fl]
    by (simp add: delete_rows_def fold_deletes)
  assume "consistent rows"
  then have "rows_map (rev (sort_key row_key rows)) = rows_map rows"
    by (rule rows_map_cong) simp
  then show "\<exists>s'. write_rows s rows fl = Inr s' \<and> db_ok s' \<and> db_view s' = db_view s ++ rows_map rows"
    using write_batch_view [OF \<open>db_ok s\<close>,
        of "map (\<lambda>r. Put (row_key r) (row_value r)) (sort_key row_key rows)" fl]
    by (simp add: write_rows_def fold_puts)
qed (simp_all add: db_reads iter_scan_view)


section \<open>A concrete store\<close>

text \<open>
  An association list with later bindings in front implements the store contract; the
  witnesses run the model on it.
\<close>

definition list_listing :: "(bytes \<times> bytes) list \<Rightarrow> (bytes \<Rightarrow> bool) \<Rightarrow> (bytes \<times> bytes) list" where
  "list_listing db P = map (\<lambda>k. (k, the (map_of db k))) (sort (remdups (filter P (map fst db))))"

fun list_op :: "batch_op \<Rightarrow> (bytes \<times> bytes) list \<Rightarrow> (bytes \<times> bytes) list" where
  "list_op (Put k v) db = (k, v) # db"
| "list_op (Delete k) db = filter (\<lambda>kv. fst kv \<noteq> k) db"
| "list_op (DeleteRange a b) db = filter (\<lambda>kv. \<not> (a \<le> fst kv \<and> fst kv < b)) db"

definition list_rocks :: "(bytes \<times> bytes) list rocksdb" where
  "list_rocks =
     \<lparr>rk_view = map_of,
      rk_get = (\<lambda>db k. Inr (map_of db k)),
      rk_multi_get = (\<lambda>db ks. map (\<lambda>k. Inr (map_of db k)) ks),
      rk_iterator = (\<lambda>db total s. map Inr (list_listing db (\<lambda>k. s \<le> k))),
      rk_prefix_iterator = (\<lambda>db s. map Inr (list_listing db (\<lambda>k. s \<le> k \<and> same_prefix s k))),
      rk_seek_for_prev = (\<lambda>db s. rev (list_listing db (\<lambda>k. k \<le> s))),
      rk_write_opt = (\<lambda>db ops opts. Inr (fold list_op ops db)),
      rk_flush = Inr\<rparr>"

lemma list_listing_eq: "list_listing db P = listing (map_of db) P"
proof -
  have "set (filter P (map fst db)) = {k \<in> dom (map_of db). P k}" by (auto simp: dom_map_of_conv_image_fst)
  then have "sort (remdups (filter P (map fst db))) = sorted_list_of_set {k \<in> dom (map_of db). P k}"
    by (simp only: sorted_list_of_set_sort_remdups [symmetric])
  then show ?thesis by (simp add: list_listing_def listing_def)
qed

lemma map_of_filter_key: "map_of (filter (\<lambda>kv. Q (fst kv)) db) k = (if Q k then map_of db k else None)"
  by (induction db) auto

lemma map_of_list_op: "map_of (list_op op db) = apply_op op (map_of db)"
proof (cases op)
  case (Delete k)
  show ?thesis
    by (rule ext) (simp add: Delete map_of_filter_key [of "\<lambda>x. x \<noteq> k"])
next
  case (DeleteRange a b)
  show ?thesis
    by (rule ext) (simp add: DeleteRange map_of_filter_key [of "\<lambda>x. \<not> (a \<le> x \<and> x < b)"] del: de_Morgan_conj)
qed simp

lemma map_of_list_ops: "map_of (fold list_op ops db) = fold apply_op ops (map_of db)"
  by (induction ops arbitrary: db) (simp_all only: fold_simps map_of_list_op)

lemma takeWhile_map_Inr:
  "takeWhile (item_ok Q) (map Inr kvs) = map Inr (takeWhile (\<lambda>x. Q (fst x)) kvs)"
  by (induction kvs) (auto simp: item_ok_def)

lemma same_prefix_downward:
  assumes "PREFIX_LEN \<le> length s" and "s \<le> k" and "k \<le> k'" and "same_prefix s k'"
  shows "same_prefix s k"
proof -
  let ?p = "take PREFIX_LEN s"
  have p: "prefix ?p x \<longleftrightarrow> same_prefix s x" for x
    using assms(1) by (auto simp: same_prefix_def prefix_def PREFIX_LEN_def)
      (metis append_take_drop_id)+
  have "?p \<le> k" using assms(2) prefix_imp_le [OF take_is_prefix] order.trans by blast
  with assms(3,4) show ?thesis using prefix_downward [of ?p k k'] by (simp add: p)
qed

lemma list_rocks_laws: "rocksdb_laws list_rocks"
proof -
  have *: "takeWhile (item_ok (same_prefix s)) (map Inr (listing (map_of db) (\<lambda>k. s \<le> k))) =
      map Inr (listing (map_of db) (\<lambda>k. s \<le> k \<and> same_prefix s k))" if "PREFIX_LEN \<le> length s" for db s
    unfolding takeWhile_map_Inr
    by (subst takeWhile_listing) (use that same_prefix_downward in \<open>auto simp: finite_dom_map_of\<close>)
  have **: "takeWhile (item_ok (same_prefix s)) (map Inr (listing (map_of db) (\<lambda>k. s \<le> k \<and> same_prefix s k))) =
      map Inr (listing (map_of db) (\<lambda>k. s \<le> k \<and> same_prefix s k))" for db s
    unfolding takeWhile_map_Inr
    by (subst takeWhile_listing) (auto simp: finite_dom_map_of intro!: arg_cong [where f = "map Inr"])
  show ?thesis
    by (simp add: rocksdb_laws_def list_rocks_def list_listing_eq finite_dom_map_of map_of_list_ops * **)
qed

definition list_db :: "(bytes \<times> bytes) list \<Rightarrow> (bytes \<times> bytes) list DB" where
  "list_db kvs = \<lparr>db_lib = list_rocks, db_handle = kvs\<rparr>"

lemma list_db_ok [simp]: "db_ok (list_db kvs)"
  by (simp add: db_ok_def list_db_def list_rocks_laws)

lemma list_db_view [simp]: "db_view (list_db kvs) = map_of kvs"
  by (simp add: db_view_def list_db_def list_rocks_def)

section \<open>Properties of the wrapper\<close>

text \<open>
  Claim C29. Prefix scans are complete and ordered although the databases are opened with a
  33-byte prefix extractor: on a store without read errors, \<open>iter_scan\<close> delivers exactly the rows
  whose key has the prefix, by ascending key, for short prefixes as for long ones;
  \<open>iter_scan_from\<close> delivers those from the seek key on; and \<open>iter_scan_reverse\<close> delivers by
  descending key those up to its upper bound.
\<close>

theorem scans_complete:
  assumes "db_ok d"
  shows "iter_scan d pre = map Inr (rows_of (db_view d) (prefix pre)) \<and>
    (prefix pre start_at \<and> (length start_at < PREFIX_LEN \<or> PREFIX_LEN \<le> length pre) \<longrightarrow>
      iter_scan_from d pre start_at =
        map Inr (rows_of (db_view d) (\<lambda>k. start_at \<le> k \<and> prefix pre k))) \<and>
    (prefix pre prefix_max \<longrightarrow>
      iter_scan_reverse d pre prefix_max =
        rev (rows_of (db_view d) (\<lambda>k. k \<le> prefix_max \<and> prefix pre k)))"
  using iter_scan_view [OF assms] iter_scan_from_view [OF assms] iter_scan_reverse_view [OF assms]
  by blast

theorem scans_complete_witness:
  "iter_scan (list_db [([2, 1], [7]), ([1, 9], [8]), ([1, 3], [9])]) [1] =
     map Inr (rows_of (map_of [([2, 1], [7]), ([1, 9], [8]), ([1, 3], [9])]) (prefix [1]))"
  using scans_complete [OF list_db_ok, of "[([2, 1], [7]), ([1, 9], [8]), ([1, 3], [9])]" "[1]"] by simp

lemma put_bool_inject [simp]: "put_bool a = put_bool b \<longleftrightarrow> a = b"
  by (simp add: put_bool_def)

lemma length_put_bool [simp]: "length (put_bool b) = 1"
  by (simp add: put_bool_def)

lemma version_bytes_eq [simp]:
  "version_bytes c = version_bytes c' \<longleftrightarrow> fl_light_mode c = fl_light_mode c'"
  "flags_bytes c = flags_bytes c' \<longleftrightarrow>
     fl_index_unspendables c = fl_index_unspendables c' \<and> fl_address_search c = fl_address_search c'"
  "version_bytes c \<noteq> version_bytes c' @ flags_bytes c'"
proof -
  have "length (version_bytes c) \<noteq> length (version_bytes c' @ flags_bytes c')"
    by (simp add: version_bytes_def flags_bytes_def)
  then show "version_bytes c \<noteq> version_bytes c' @ flags_bytes c'" by metis
qed (simp_all add: version_bytes_def flags_bytes_def)

lemma marked_db:
  assumes "db_ok d" and "db_view d V_KEY = Some (version_bytes c)" and "db_view d FLAGS_KEY = Some (flags_bytes c)"
  shows "verify_compatibility d c' = Inr d \<longleftrightarrow> c' = c" "verify_compatibility d c' \<noteq> Inr d \<longleftrightarrow>
    (\<exists>msg. verify_compatibility d c' = Inl (Panic msg))"
  using assms by (auto simp: verify_compatibility_def db_reads intro: index_flags.equality)

lemma verify_compatibility_marks:
  assumes "db_ok d" and "verify_compatibility d c = Inr d'"
  shows "db_ok d' \<and> db_view d' V_KEY = Some (version_bytes c) \<and> db_view d' FLAGS_KEY = Some (flags_bytes c) \<and>
    (\<forall>k. k \<noteq> V_KEY \<longrightarrow> k \<noteq> FLAGS_KEY \<longrightarrow> db_view d' k = db_view d k)"
proof -
  have both: "db_ok d' \<and> db_view d' = (db_view d)(FLAGS_KEY \<mapsto> flags_bytes c, V_KEY \<mapsto> version_bytes c)"
    if "rbind (db_put d FLAGS_KEY (flags_bytes c)) (\<lambda>d. db_put d V_KEY (version_bytes c)) = Inr d'"
  proof -
    from that obtain d1 where d1: "db_put d FLAGS_KEY (flags_bytes c) = Inr d1"
      "db_put d1 V_KEY (version_bytes c) = Inr d'"
      by (auto simp: res_iffs)
    from db_put_Inr [OF d1(1) assms(1)] db_put_Inr [OF d1(2)] show ?thesis by simp
  qed
  note verify = assms(2) [unfolded verify_compatibility_def db_reads(2) [OF assms(1)] rbind_simps]
  show ?thesis
  proof (cases "db_view d V_KEY")
    case None
    with verify both show ?thesis by simp
  next
    case (Some v)
    show ?thesis
    proof (cases "v = version_bytes c")
      case False
      with Some verify both show ?thesis by (simp split: if_splits)
    next
      case True
      show ?thesis
      proof (cases "db_view d FLAGS_KEY")
        case None
        with Some True verify have "db_put d FLAGS_KEY (flags_bytes c) = Inr d'" by simp
        from db_put_Inr [OF this assms(1)] Some True show ?thesis by simp
      next
        case (Some f)
        with \<open>db_view d V_KEY = Some v\<close> True verify assms(1) show ?thesis by (simp split: if_splits)
      qed
    qed
  qed
qed

text \<open>
  Claim C30. A database is tied to the settings it was first opened with: once
  \<open>verify_compatibility\<close> has accepted a store with some settings (writing or migrating its
  marker rows and touching nothing else), it accepts the same settings again without a write
  and panics for any other combination of \<open>light_mode\<close>, \<open>index_unspendables\<close> and
  \<open>address_search\<close>.
\<close>

theorem verify_compatibility_pins_settings:
  assumes "db_ok d" and "verify_compatibility d c = Inr d'"
  shows "(\<forall>k. k \<noteq> V_KEY \<longrightarrow> k \<noteq> FLAGS_KEY \<longrightarrow> db_view d' k = db_view d k) \<and>
    verify_compatibility d' c = Inr d' \<and>
    (\<forall>c'. c' \<noteq> c \<longrightarrow> (\<exists>msg. verify_compatibility d' c' = Inl (Panic msg)))"
  using verify_compatibility_marks [OF assms] marked_db [of d' c] by blast

theorem verify_compatibility_pins_settings_witness:
  "\<exists>d' msg.
     verify_compatibility (list_db []) \<lparr>fl_light_mode = False, fl_index_unspendables = False, fl_address_search = True\<rparr> = Inr d' \<and>
     verify_compatibility d' \<lparr>fl_light_mode = True, fl_index_unspendables = False, fl_address_search = True\<rparr> = Inl (Panic msg)"
  (is "\<exists>d' msg. verify_compatibility ?d ?c = Inr d' \<and> verify_compatibility d' ?c' = _")
proof -
  have "verify_compatibility ?d ?c = Inr (list_db [(V_KEY, version_bytes ?c), (FLAGS_KEY, flags_bytes ?c)])"
    by (simp add: verify_compatibility_def db_get_def db_put_def list_db_def list_rocks_def)
  moreover have "?c' \<noteq> ?c" by simp
  ultimately show ?thesis
    using verify_compatibility_pins_settings [OF list_db_ok, of "[]" ?c] by blast
qed

end
