(* ===== verification/Store.thy ===== *)
theory Store
  imports Db
begin

text \<open>
  The three databases and the in-memory indexes of \<open>Store\<close> (\<^verbatim>\<open>src/new_index/schema.rs\<close>), how
  they are loaded at startup, and how blocks become rows: \<open>add_blocks\<close> for the transaction
  store and \<open>index_blocks\<close> for the history store. The liquid-only asset rows are not part of
  the Bitcoin build.
\<close>

section \<open>State and configuration\<close>

record indexer_config =
  light_mode :: bool
  address_search :: bool
  index_unspendables :: bool
  ic_network :: network
  block_batch_size :: nat

record 'db store =
  txstore_db :: "'db DB"
  history_db :: "'db DB"
  cache_db :: "'db DB"
  added_blockhashes :: "blockhash set"
  indexed_blockhashes :: "blockhash set"
  indexed_headers :: header_list

abbreviation TIP_KEY :: bytes where "TIP_KEY \<equiv> [0x74]"

text \<open>Consensus decoding of a block hash: exactly 32 bytes.\<close>

definition deser_blockhash :: "bytes \<Rightarrow> blockhash option" where
  "deser_blockhash bs = (if length bs = 32 then Some (hash_of_bytes bs) else None)"

section \<open>Loading\<close>

definition load_blockhashes :: "'db DB \<Rightarrow> bytes \<Rightarrow> blockhash set res" where
  "load_blockhashes d pre =
     rmap set (collect (map (\<lambda>r. rmap br_hash (rbind r block_row_from)) (iter_scan d pre)))"

definition load_blockheaders :: "bitcoin_lib \<Rightarrow> 'db DB \<Rightarrow> (blockhash \<times> block_header) list res" where
  "load_blockheaders B d =
     collect (map (\<lambda>r. rbind (rbind r block_row_from) (\<lambda>br.
         rmap (\<lambda>h. (br_hash br, h)) (expect ''failed to parse BlockHeader'' (deser_header B (br_value br)))))
       (iter_scan d header_filter))"

text \<open>
  The loop of \<open>load_headers\<close> that moves the saved tip back to an indexed block; \<open>None\<close> is a loop
  that never ends.
\<close>

partial_function (option) walk_to_indexed ::
  "(blockhash \<times> block_header) list \<Rightarrow> blockhash set \<Rightarrow> blockhash \<Rightarrow> blockhash res option" where
  "walk_to_indexed headers_map indexed tip_hash =
     (if tip_hash \<in> indexed then Some (Inr tip_hash)
      else case map_of headers_map tip_hash of
        None \<Rightarrow> Some (Inl (Panic ''invalid header chain''))
      | Some h \<Rightarrow> walk_to_indexed headers_map indexed (prev_blockhash h))"

definition load_headers :: "bitcoin_lib \<Rightarrow> 'db DB \<Rightarrow> blockhash set \<Rightarrow> header_list res option" where
  "load_headers B d indexed =
     (case db_get d TIP_KEY of
        Inl e \<Rightarrow> Some (Inl e)
      | Inr None \<Rightarrow> Some (Inr hl_empty)
      | Inr (Some raw) \<Rightarrow>
          (case rbind (expect ''invalid chain tip in `t`'' (deser_blockhash raw))
                  (\<lambda>tip_hash. rmap (\<lambda>m. (tip_hash, m)) (load_blockheaders B d)) of
             Inl e \<Rightarrow> Some (Inl e)
           | Inr (tip_hash, headers_map) \<Rightarrow>
               map_option (\<lambda>r. rbind r (hl_new B headers_map)) (walk_to_indexed headers_map indexed tip_hash)))"

text \<open>\<open>Store::open\<close>, given the three opened databases.\<close>

definition store_open ::
  "bitcoin_lib \<Rightarrow> index_flags \<Rightarrow> bool \<Rightarrow> 'db DB \<Rightarrow> 'db DB \<Rightarrow> 'db DB \<Rightarrow> 'db store res option" where
  "store_open B c verify_compat txdb histdb cachedb =
     (let check = (\<lambda>d. if verify_compat then verify_compatibility d c else Inr d) in
      case rbind (check txdb) (\<lambda>txdb. rbind (load_blockhashes txdb done_filter) (\<lambda>added.
           rbind (check histdb) (\<lambda>histdb. rbind (load_blockhashes histdb done_filter) (\<lambda>indexed.
           rbind (check cachedb) (\<lambda>cachedb. Inr (txdb, added, histdb, indexed, cachedb)))))) of
        Inl e \<Rightarrow> Some (Inl e)
      | Inr (txdb, added, histdb, indexed, cachedb) \<Rightarrow>
          map_option (rmap (\<lambda>hl. \<lparr>txstore_db = txdb, history_db = histdb, cache_db = cachedb,
              added_blockhashes = added, indexed_blockhashes = indexed, indexed_headers = hl\<rparr>))
            (load_headers B txdb indexed))"

definition done_initial_sync :: "'db store \<Rightarrow> bool res" where
  "done_initial_sync st = rmap (\<lambda>v. v \<noteq> None) (db_get (txstore_db st) TIP_KEY)"

definition completed_prefix_len :: "'a list \<Rightarrow> ('a \<Rightarrow> bool) \<Rightarrow> nat" where
  "completed_prefix_len items is_complete = length (takeWhile is_complete items)"

definition headers_to_process :: "'db store \<Rightarrow> header_entry list \<Rightarrow> header_entry list" where
  "headers_to_process st new_headers =
     filter (\<lambda>e. he_hash e \<notin> added_blockhashes st \<or> he_hash e \<notin> indexed_blockhashes st) new_headers"

definition completed_header_prefix :: "'db store \<Rightarrow> header_entry list \<Rightarrow> header_entry list" where
  "completed_header_prefix st new_headers =
     take (completed_prefix_len new_headers
         (\<lambda>e. he_hash e \<in> added_blockhashes st \<and> he_hash e \<in> indexed_blockhashes st)) new_headers"

text \<open>The error is returned before anything but an append of nothing has happened.\<close>

definition advance_synced_tip :: "'db store \<Rightarrow> header_entry list \<Rightarrow> (blockhash \<times> 'db store) res" where
  "advance_synced_tip st completed =
     rbind (hl_append (indexed_headers st) completed) (\<lambda>hl.
       if hl_is_empty hl then Inl (Msg ''no blocks were indexed, the index is still empty'')
       else rbind (hl_tip hl) (\<lambda>synced_tip.
         rmap (\<lambda>d. (synced_tip, st\<lparr>txstore_db := d, indexed_headers := hl\<rparr>))
           (put_sync (txstore_db st) TIP_KEY (hash_bytes synced_tip))))"

section \<open>Rows of a block\<close>

definition txo_rows :: "bitcoin_lib \<Rightarrow> indexer_config \<Rightarrow> txid \<Rightarrow> nat \<times> txout \<Rightarrow> db_row list" where
  "txo_rows B c txid = (\<lambda>(txo_index, txo).
     (if is_spendable B txo then [tx_out_row B txid txo_index txo] else []) @
     (if address_search c then
        (case addr_search_row B (script_pubkey txo) (ic_network c) of Some row \<Rightarrow> [row] | None \<Rightarrow> [])
      else []))"

definition add_transaction :: "bitcoin_lib \<Rightarrow> indexer_config \<Rightarrow> txid \<Rightarrow> transaction \<Rightarrow> db_row list" where
  "add_transaction B c txid tx =
     (if \<not> light_mode c then [tx_row B txid tx] else []) @
     concat (map (txo_rows B c txid) (enumerate 0 (tx_output tx)))"

definition add_block :: "bitcoin_lib \<Rightarrow> indexer_config \<Rightarrow> block_entry \<Rightarrow> db_row list res" where
  "add_block B c b =
     (if length (be_txids b) \<noteq> length (txdata (be_block b))
      then Inl (Panic ''assertion failed: b.txids.len() == b.block.txdata.len()'')
      else
        let blockhash = he_hash (be_entry b) in
        Inr (concat (map (\<lambda>(tx, txid). add_transaction B c txid tx) (zip (txdata (be_block b)) (be_txids b))) @
          (if \<not> light_mode c then
             [block_row_into (new_txids B blockhash (be_txids b)),
              block_row_into (new_meta blockhash (block_meta_from B b))]
           else []) @
          [block_row_into (new_header B b), block_row_into (new_done blockhash)]))"

definition add_blocks :: "bitcoin_lib \<Rightarrow> indexer_config \<Rightarrow> block_entry list \<Rightarrow> db_row list res" where
  "add_blocks B c block_entries = rmap concat (collect (map (add_block B c) block_entries))"

definition get_previous_txos :: "bitcoin_lib \<Rightarrow> block_entry list \<Rightarrow> outpoint set" where
  "get_previous_txos B block_entries =
     set (concat (map (\<lambda>tx. map previous_output (filter (has_prevout B) (tx_input tx)))
       (concat (map (\<lambda>b. txdata (be_block b)) block_entries))))"

text \<open>\<open>lookup_txos\<close>: the outputs of a \<open>BTreeSet\<close> of outpoints, the first failure being returned.\<close>

definition lookup_txos :: "bitcoin_lib \<Rightarrow> 'db DB \<Rightarrow> outpoint set \<Rightarrow> (outpoint \<Rightarrow> txout option) res" where
  "lookup_txos B d outpoints =
     (let ps = sorted_list_of_set outpoints in
      rmap map_of (collect (map (\<lambda>(r, p).
          rbind r (\<lambda>v. rbind (ok_or (MissingTxo p) v) (\<lambda>raw.
            rmap (\<lambda>txo. (p, txo)) (ok_or (Msg ''failed to parse TxOut'') (deser_txout B raw)))))
        (zip (multi_get d (map tx_out_key ps)) ps))))"

definition lookup_txo :: "bitcoin_lib \<Rightarrow> 'db DB \<Rightarrow> outpoint \<Rightarrow> txout option res" where
  "lookup_txo B d p =
     rbind (db_get d (tx_out_key p)) (\<lambda>v. case v of
       None \<Rightarrow> Inr None
     | Some raw \<Rightarrow> rmap Some (expect ''failed to parse TxOut'' (deser_txout B raw)))"

definition funding_row :: "bitcoin_lib \<Rightarrow> fullhash \<Rightarrow> u32 \<Rightarrow> u32 \<times> txout \<Rightarrow> tx_history_key" where
  "funding_row B txid confirmed_height = (\<lambda>(txo_index, txo).
     tx_history_row_new B (script_pubkey txo) confirmed_height
       (Funding \<lparr>fi_txid = txid, fi_vout = txo_index, fi_value = txo_value txo\<rparr>))"

definition spending_row :: "bitcoin_lib \<Rightarrow> fullhash \<Rightarrow> u32 \<Rightarrow> u32 \<Rightarrow> outpoint \<Rightarrow> txout \<Rightarrow> tx_history_key" where
  "spending_row B txid confirmed_height txi_index p prev_txo =
     tx_history_row_new B (script_pubkey prev_txo) confirmed_height
       (Spending \<lparr>si_txid = txid, si_vin = txi_index, si_prev_txid = op_txid p,
         si_prev_vout = op_vout p, si_value = txo_value prev_txo\<rparr>)"

definition txi_rows ::
  "bitcoin_lib \<Rightarrow> fullhash \<Rightarrow> u32 \<Rightarrow> (outpoint \<Rightarrow> txout option) \<Rightarrow> u32 \<times> txin \<Rightarrow> db_row list res" where
  "txi_rows B txid confirmed_height previous_txos_map = (\<lambda>(txi_index, txi).
     if \<not> has_prevout B txi then Inr []
     else case previous_txos_map (previous_output txi) of
       None \<Rightarrow> Inl (Panic ''missing previous txo'')
     | Some prev_txo \<Rightarrow>
         Inr [history_into_row (spending_row B txid confirmed_height txi_index (previous_output txi) prev_txo),
              tx_edge_row (op_txid (previous_output txi)) (op_vout (previous_output txi))
                txid txi_index confirmed_height])"

definition index_transaction ::
  "bitcoin_lib \<Rightarrow> indexer_config \<Rightarrow> transaction \<Rightarrow> fullhash \<Rightarrow> u32 \<Rightarrow> (outpoint \<Rightarrow> txout option) \<Rightarrow> db_row list res" where
  "index_transaction B c tx txid confirmed_height previous_txos_map =
     rmap (\<lambda>spends.
         tx_conf_row txid confirmed_height #
         map (history_into_row \<circ> funding_row B txid confirmed_height)
           (filter (\<lambda>(_, txo). is_spendable B txo \<or> index_unspendables c) (enum32 (tx_output tx))) @
         concat spends)
       (collect (map (txi_rows B txid confirmed_height previous_txos_map) (enum32 (tx_input tx))))"

definition done_row :: "blockhash \<Rightarrow> u32 \<Rightarrow> db_row" where
  "done_row hash height = block_row_into ((new_done hash)\<lparr>br_value := u32_le height\<rparr>)"

definition index_block ::
  "bitcoin_lib \<Rightarrow> indexer_config \<Rightarrow> (outpoint \<Rightarrow> txout option) \<Rightarrow> block_entry \<Rightarrow> db_row list res" where
  "index_block B c previous_txos_map b =
     (if length (be_txids b) \<noteq> length (txdata (be_block b))
      then Inl (Panic ''assertion failed: b.txids.len() == b.block.txdata.len()'')
      else
        let height = of_nat (he_height (be_entry b)) in
        rmap (\<lambda>rows. concat rows @ [done_row (he_hash (be_entry b)) height])
          (collect (map (\<lambda>(tx, txid). index_transaction B c tx txid height previous_txos_map)
            (zip (txdata (be_block b)) (be_txids b)))))"

definition index_blocks ::
  "bitcoin_lib \<Rightarrow> indexer_config \<Rightarrow> block_entry list \<Rightarrow> (outpoint \<Rightarrow> txout option) \<Rightarrow> db_row list res" where
  "index_blocks B c block_entries previous_txos_map =
     rmap concat (collect (map (index_block B c previous_txos_map) block_entries))"


section \<open>Which rows a block has\<close>

abbreviation block_hash_of :: "block_entry \<Rightarrow> blockhash" where
  "block_hash_of b \<equiv> he_hash (be_entry b)"

abbreviation block_txs :: "block_entry \<Rightarrow> (transaction \<times> txid) list" where
  "block_txs b \<equiv> zip (txdata (be_block b)) (be_txids b)"

abbreviation height32 :: "block_entry \<Rightarrow> u32" where
  "height32 b \<equiv> of_nat (he_height (be_entry b))"

lemma collect_concat_set:
  assumes "rmap concat (collect (map f xs)) = Inr rows"
  shows "r \<in> set rows \<longleftrightarrow> (\<exists>x \<in> set xs. \<exists>ys. f x = Inr ys \<and> r \<in> set ys)"
    and "x \<in> set xs \<Longrightarrow> \<exists>ys. f x = Inr ys"
proof -
  from assms obtain yss where y: "map f xs = map Inr yss" "rows = concat yss"
    by (auto simp: res_iffs collect_Inr_iff)
  then have len: "length xs = length yss" and nth: "\<And>i. i < length xs \<Longrightarrow> f (xs ! i) = Inr (yss ! i)"
    by (metis length_map, metis length_map nth_map)
  show "r \<in> set rows \<longleftrightarrow> (\<exists>x \<in> set xs. \<exists>ys. f x = Inr ys \<and> r \<in> set ys)"
    using len nth by (fastforce simp: y(2) in_set_conv_nth)
  show "x \<in> set xs \<Longrightarrow> \<exists>ys. f x = Inr ys"
    using nth by (metis in_set_conv_nth)
qed

text \<open>The rows of the transaction store.\<close>

definition tx_add_row :: "bitcoin_lib \<Rightarrow> indexer_config \<Rightarrow> transaction \<Rightarrow> txid \<Rightarrow> db_row \<Rightarrow> bool" where
  "tx_add_row B c tx txid r \<longleftrightarrow>
     \<not> light_mode c \<and> r = tx_row B txid tx \<or>
     (\<exists>i < length (tx_output tx).
        is_spendable B (tx_output tx ! i) \<and> r = tx_out_row B txid i (tx_output tx ! i) \<or>
        address_search c \<and> addr_search_row B (script_pubkey (tx_output tx ! i)) (ic_network c) = Some r)"

definition is_add_row :: "bitcoin_lib \<Rightarrow> indexer_config \<Rightarrow> block_entry \<Rightarrow> db_row \<Rightarrow> bool" where
  "is_add_row B c b r \<longleftrightarrow>
     (\<exists>tx txid. (tx, txid) \<in> set (block_txs b) \<and> tx_add_row B c tx txid r) \<or>
     \<not> light_mode c \<and> r = block_row_into (new_txids B (block_hash_of b) (be_txids b)) \<or>
     \<not> light_mode c \<and> r = block_row_into (new_meta (block_hash_of b) (block_meta_from B b)) \<or>
     r = block_row_into (new_header B b) \<or> r = block_row_into (new_done (block_hash_of b))"

lemma set_enumerate: "set (enumerate 0 xs) = (\<lambda>i. (i, xs ! i)) ` {..< length xs}"
  by (auto simp: in_set_enumerate_eq)

lemma set_option_list: "r \<in> set (case x of Some row \<Rightarrow> [row] | None \<Rightarrow> []) \<longleftrightarrow> x = Some r"
  by (cases x) auto

lemma set_txo_rows:
  "r \<in> set (txo_rows B c txid (i, txo)) \<longleftrightarrow>
     is_spendable B txo \<and> r = tx_out_row B txid i txo \<or>
     address_search c \<and> addr_search_row B (script_pubkey txo) (ic_network c) = Some r"
  by (cases "is_spendable B txo"; cases "address_search c") (simp_all add: txo_rows_def set_option_list eq_commute [of "Some r"])

lemma set_add_transaction: "r \<in> set (add_transaction B c txid tx) \<longleftrightarrow> tx_add_row B c tx txid r"
proof -
  have "r \<in> set (concat (map (txo_rows B c txid) (enumerate 0 (tx_output tx)))) \<longleftrightarrow>
      (\<exists>i < length (tx_output tx). r \<in> set (txo_rows B c txid (i, tx_output tx ! i)))"
    by (auto simp: set_enumerate)
  then show ?thesis by (simp add: add_transaction_def tx_add_row_def set_txo_rows) blast
qed

lemma set_add_block:
  assumes "add_block B c b = Inr rows"
  shows "r \<in> set rows \<longleftrightarrow> is_add_row B c b r"
proof -
  have "r \<in> set (concat (map (\<lambda>(tx, txid). add_transaction B c txid tx) (block_txs b))) \<longleftrightarrow>
      (\<exists>tx txid. (tx, txid) \<in> set (block_txs b) \<and> tx_add_row B c tx txid r)"
    by (simp add: set_add_transaction split_beta) (metis fst_conv snd_conv surj_pair)
  then show ?thesis
    using assms by (auto simp only: add_block_def Let_def is_add_row_def set_append Un_iff
        list.set insert_iff empty_iff simp_thms if_True if_False Inr_Inl_False sum.inject split: if_splits)
qed

lemma set_add_blocks:
  assumes "add_blocks B c bs = Inr rows"
  shows "r \<in> set rows \<longleftrightarrow> (\<exists>b \<in> set bs. is_add_row B c b r)"
  using collect_concat_set [OF assms [unfolded add_blocks_def]] set_add_block by metis

text \<open>The rows of the history store.\<close>

definition tx_fund_row :: "bitcoin_lib \<Rightarrow> indexer_config \<Rightarrow> u32 \<Rightarrow> transaction \<Rightarrow> txid \<Rightarrow> db_row \<Rightarrow> bool" where
  "tx_fund_row B c h tx txid r \<longleftrightarrow>
     (\<exists>i < length (tx_output tx).
        (is_spendable B (tx_output tx ! i) \<or> index_unspendables c) \<and>
        r = history_into_row (funding_row B txid h (of_nat i, tx_output tx ! i)))"

definition tx_spend_row ::
  "bitcoin_lib \<Rightarrow> (outpoint \<Rightarrow> txout option) \<Rightarrow> u32 \<Rightarrow> transaction \<Rightarrow> txid \<Rightarrow> db_row \<Rightarrow> bool" where
  "tx_spend_row B m h tx txid r \<longleftrightarrow>
     (\<exists>i < length (tx_input tx). \<exists>prev.
        has_prevout B (tx_input tx ! i) \<and> m (previous_output (tx_input tx ! i)) = Some prev \<and>
        (r = history_into_row (spending_row B txid h (of_nat i) (previous_output (tx_input tx ! i)) prev) \<or>
         r = tx_edge_row (op_txid (previous_output (tx_input tx ! i))) (op_vout (previous_output (tx_input tx ! i)))
           txid (of_nat i) h))"

definition is_index_row ::
  "bitcoin_lib \<Rightarrow> indexer_config \<Rightarrow> (outpoint \<Rightarrow> txout option) \<Rightarrow> block_entry \<Rightarrow> db_row \<Rightarrow> bool" where
  "is_index_row B c m b r \<longleftrightarrow>
     (\<exists>tx txid. (tx, txid) \<in> set (block_txs b) \<and>
        (r = tx_conf_row txid (height32 b) \<or> tx_fund_row B c (height32 b) tx txid r \<or>
         tx_spend_row B m (height32 b) tx txid r)) \<or>
     r = done_row (block_hash_of b) (height32 b)"

definition prevouts_known :: "bitcoin_lib \<Rightarrow> (outpoint \<Rightarrow> txout option) \<Rightarrow> transaction \<Rightarrow> bool" where
  "prevouts_known B m tx \<longleftrightarrow>
     (\<forall>txi \<in> set (tx_input tx). has_prevout B txi \<longrightarrow> m (previous_output txi) \<noteq> None)"

lemma set_txi_rows:
  "(\<exists>ys. txi_rows B txid h m (k, txi) = Inr ys \<and> r \<in> set ys) \<longleftrightarrow>
     (\<exists>prev. has_prevout B txi \<and> m (previous_output txi) = Some prev \<and>
        (r = history_into_row (spending_row B txid h k (previous_output txi) prev) \<or>
         r = tx_edge_row (op_txid (previous_output txi)) (op_vout (previous_output txi)) txid k h))"
  "(\<exists>ys. txi_rows B txid h m (k, txi) = Inr ys) \<longleftrightarrow> (has_prevout B txi \<longrightarrow> m (previous_output txi) \<noteq> None)"
  by (cases "m (previous_output txi)"; simp add: txi_rows_def)+

lemma spend_rows:
  assumes "collect (map (txi_rows B txid h m) (enum32 (tx_input tx))) = Inr spends"
  shows "r \<in> set (concat spends) \<longleftrightarrow> tx_spend_row B m h tx txid r"
proof -
  from assms have c: "rmap concat (collect (map (txi_rows B txid h m) (enum32 (tx_input tx)))) = Inr (concat spends)"
    by simp
  have "r \<in> set (concat spends) \<longleftrightarrow>
      (\<exists>i < length (tx_input tx). \<exists>ys. txi_rows B txid h m (of_nat i, tx_input tx ! i) = Inr ys \<and> r \<in> set ys)"
    unfolding collect_concat_set(1) [OF c] set_enum32 by blast
  then show ?thesis by (simp only: set_txi_rows(1) tx_spend_row_def)
qed

lemma spend_rows_total:
  "(\<exists>spends. collect (map (txi_rows B txid h m) (enum32 (tx_input tx))) = Inr spends) \<longleftrightarrow> prevouts_known B m tx"
proof -
  have "(\<exists>spends. collect (map (txi_rows B txid h m) (enum32 (tx_input tx))) = Inr spends) \<longleftrightarrow>
      (\<forall>i < length (tx_input tx). \<exists>y. txi_rows B txid h m (of_nat i, tx_input tx ! i) = Inr y)"
    by (auto simp: collect_total set_enum32)
  then show ?thesis by (simp only: set_txi_rows(2) prevouts_known_def all_set_conv_all_nth)
qed

lemma set_index_transaction:
  assumes "index_transaction B c tx txid h m = Inr rows"
  shows "r \<in> set rows \<longleftrightarrow>
    r = tx_conf_row txid h \<or> tx_fund_row B c h tx txid r \<or> tx_spend_row B m h tx txid r"
proof -
  have fund: "r \<in> set (map (history_into_row \<circ> funding_row B txid h)
      (filter (\<lambda>(_, txo). is_spendable B txo \<or> index_unspendables c) (enum32 (tx_output tx)))) \<longleftrightarrow>
      tx_fund_row B c h tx txid r"
    by (auto simp: set_enum32 tx_fund_row_def)
  from assms obtain spends where "collect (map (txi_rows B txid h m) (enum32 (tx_input tx))) = Inr spends"
    and "rows = tx_conf_row txid h #
         map (history_into_row \<circ> funding_row B txid h)
           (filter (\<lambda>(_, txo). is_spendable B txo \<or> index_unspendables c) (enum32 (tx_output tx))) @
         concat spends"
    by (auto simp: index_transaction_def res_iffs)
  then show ?thesis
    using spend_rows fund by (simp only: list.set(2) set_append insert_iff Un_iff)
qed

lemma index_transaction_total:
  "(\<exists>rows. index_transaction B c tx txid h m = Inr rows) \<longleftrightarrow> prevouts_known B m tx"
  unfolding index_transaction_def rmap_Inr_iff using spend_rows_total [of B txid h m tx] by blast

lemma index_block_rows:
  assumes "index_block B c m b = Inr rows"
  shows "r \<in> set rows \<longleftrightarrow> is_index_row B c m b r"
    and "(tx, txid) \<in> set (block_txs b) \<Longrightarrow> prevouts_known B m tx"
proof -
  let ?f = "\<lambda>(tx, txid). index_transaction B c tx txid (height32 b) m"
  from assms obtain rs where rs: "collect (map ?f (block_txs b)) = Inr rs"
    "rows = concat rs @ [done_row (block_hash_of b) (height32 b)]"
    by (auto simp: index_block_def Let_def res_iffs split: if_splits)
  then have c: "rmap concat (collect (map ?f (block_txs b))) = Inr (concat rs)" by simp
  have each: "(\<exists>ys. ?f (tx, txid) = Inr ys \<and> r \<in> set ys) \<longleftrightarrow>
      r = tx_conf_row txid (height32 b) \<or> tx_fund_row B c (height32 b) tx txid r \<or>
      tx_spend_row B m (height32 b) tx txid r" if "(tx, txid) \<in> set (block_txs b)" for tx txid
  proof -
    from collect_concat_set(2) [OF c that] obtain ys
      where ys: "index_transaction B c tx txid (height32 b) m = Inr ys" by auto
    then show ?thesis using set_index_transaction [OF ys, of r] by simp
  qed
  have "r \<in> set (concat rs) \<longleftrightarrow> (\<exists>tx txid. (tx, txid) \<in> set (block_txs b) \<and>
        (r = tx_conf_row txid (height32 b) \<or> tx_fund_row B c (height32 b) tx txid r \<or>
         tx_spend_row B m (height32 b) tx txid r))"
    unfolding collect_concat_set(1) [OF c] Bex_def split_paired_Ex
    by (intro ex_cong1 conj_cong each refl)
  then show "r \<in> set rows \<longleftrightarrow> is_index_row B c m b r"
    unfolding rs(2) is_index_row_def by simp blast
  show "prevouts_known B m tx" if "(tx, txid) \<in> set (block_txs b)"
    using collect_concat_set(2) [OF c that] index_transaction_total [of B c tx txid "height32 b" m] by auto
qed

lemma set_index_blocks:
  assumes "index_blocks B c bs m = Inr rows"
  shows "r \<in> set rows \<longleftrightarrow> (\<exists>b \<in> set bs. is_index_row B c m b r)"
    and "b \<in> set bs \<Longrightarrow> (tx, txid) \<in> set (block_txs b) \<Longrightarrow> prevouts_known B m tx"
  using collect_concat_set [OF assms [unfolded index_blocks_def]] index_block_rows by metis+

end
