(* ===== verification/Daemon.thy ===== *)
theory Daemon
  imports Block
begin

text \<open>
  The part of \<^verbatim>\<open>src/daemon.rs\<close> the indexer uses to follow the chain: \<open>getblocks\<close>,
  \<open>get_all_headers\<close> and \<open>get_new_headers\<close>. What bitcoind answers to one request is the parameter
  \<open>rpc\<close>: a value of the requested type, or an error (transport, RPC or decoding).
\<close>

section \<open>The node's answers\<close>

text \<open>
  \<open>rpc_getblock_batch n hs\<close> is the answer to the batch of \<open>getblock\<close> requests made with \<open>n\<close>
  attempts left, each reply being a block or undecodable; \<open>rpc_not_ready\<close> tells the errors whose
  text says that a block is not on disk yet.
\<close>

record daemon_rpc =
  rpc_reconnect :: "unit res"
  rpc_getbestblockhash :: "blockhash res"
  rpc_getblockheader :: "blockhash \<Rightarrow> block_header res"
  rpc_getblockheight :: "blockhash \<Rightarrow> nat res"
  rpc_getblockheaders :: "nat list \<Rightarrow> block_header list res"
  rpc_getblock_batch :: "nat \<Rightarrow> blockhash list \<Rightarrow> block option list res"
  rpc_getblock_txids :: "blockhash \<Rightarrow> txid list res"
  rpc_not_ready :: "error \<Rightarrow> bool"

section \<open>Blocks\<close>

definition MAX_ATTEMPTS :: nat where
  "MAX_ATTEMPTS = 5"

fun getblock_values :: "daemon_rpc \<Rightarrow> nat \<Rightarrow> blockhash list \<Rightarrow> block option list res" where
  "getblock_values D 0 hs = Inl (Msg ''failed to get blocks from bitcoind attempts=0'')"
| "getblock_values D (Suc attempts) hs =
     (case rpc_getblock_batch D attempts hs of
        Inr blocks \<Rightarrow> Inr blocks
      | Inl e \<Rightarrow>
          if rpc_not_ready D e then getblock_values D attempts hs
          else Inl (Msg ''failed to get blocks from bitcoind''))"

definition check_block :: "bitcoin_lib \<Rightarrow> block option \<times> blockhash \<Rightarrow> block res" where
  "check_block B = (\<lambda>(value, requested).
     rbind (ok_or (Msg ''non-hex or undecodable block'') value) (\<lambda>block.
       if block_hash B (blk_header block) \<noteq> requested
       then Inl (Msg ''bitcoind returned wrong block for getblocks'')
       else Inr block))"

definition getblocks :: "bitcoin_lib \<Rightarrow> daemon_rpc \<Rightarrow> blockhash list \<Rightarrow> block list res" where
  "getblocks B D blockhashes =
     rbind (getblock_values D MAX_ATTEMPTS blockhashes) (\<lambda>values.
       if length values \<noteq> length blockhashes
       then Inl (Msg ''bitcoind returned wrong number of blocks'')
       else collect (map (check_block B) (zip values blockhashes)))"

section \<open>Headers\<close>

definition CHUNK_SIZE :: nat where
  "CHUNK_SIZE = 100000"

text \<open>The heights \<open>0..=tip_height\<close> in runs of \<open>CHUNK_SIZE\<close>, one batch of requests each.\<close>

fun height_chunks :: "nat \<Rightarrow> nat \<Rightarrow> nat \<Rightarrow> nat list list" where
  "height_chunks 0 start tip_height = []"
| "height_chunks (Suc n) start tip_height =
     (if start > tip_height then []
      else [start ..< Suc (min (start + (CHUNK_SIZE - 1)) tip_height)] #
           height_chunks n (start + CHUNK_SIZE) tip_height)"

definition get_chunk :: "daemon_rpc \<Rightarrow> nat list \<Rightarrow> block_header list res" where
  "get_chunk D hts =
     rbind (rpc_getblockheaders D hts) (\<lambda>headers.
       if length headers \<noteq> length hts
       then Inl (Msg ''bitcoind returned wrong number of headers'')
       else Inr headers)"

fun contiguous :: "bitcoin_lib \<Rightarrow> blockhash \<Rightarrow> block_header list \<Rightarrow> blockhash res" where
  "contiguous B blockhash [] = Inr blockhash"
| "contiguous B blockhash (header # hs) =
     (if prev_blockhash header \<noteq> blockhash then Inl (Msg ''bitcoind returned non-contiguous headers'')
      else contiguous B (block_hash B header) hs)"

definition get_all_headers :: "bitcoin_lib \<Rightarrow> daemon_rpc \<Rightarrow> blockhash \<Rightarrow> block_header list res" where
  "get_all_headers B D tip_hash =
     rbind (rpc_getblockheight D tip_hash) (\<lambda>tip_height.
     rbind (collect (map (get_chunk D) (height_chunks (Suc tip_height) 0 tip_height))) (\<lambda>chunks.
       let result = concat chunks in
       rbind (contiguous B DEFAULT_BLOCKHASH result) (\<lambda>blockhash.
         if blockhash \<noteq> tip_hash then Inl (Msg ''bitcoind headers do not end at requested tip'')
         else Inr result)))"

text \<open>
  The loop of \<open>get_new_headers\<close>, from the daemon's tip back to a known block; \<open>None\<close> if the node
  never names a known block.
\<close>

partial_function (option) new_headers_loop ::
  "daemon_rpc \<Rightarrow> header_list \<Rightarrow> blockhash \<Rightarrow> block_header list \<Rightarrow> block_header list res option" where
  "new_headers_loop D indexed_headers blockhash new_headers =
     (if blockhash = DEFAULT_BLOCKHASH then Some (Inr new_headers)
      else case header_by_blockhash indexed_headers blockhash of
        Inl e \<Rightarrow> Some (Inl e)
      | Inr (Some _) \<Rightarrow> Some (Inr new_headers)
      | Inr None \<Rightarrow>
          (case rpc_getblockheader D blockhash of
             Inl e \<Rightarrow> Some (Inl e)
           | Inr header \<Rightarrow>
               new_headers_loop D indexed_headers (prev_blockhash header) (new_headers @ [header])))"

definition get_new_headers ::
  "bitcoin_lib \<Rightarrow> daemon_rpc \<Rightarrow> header_list \<Rightarrow> blockhash \<Rightarrow> block_header list res option" where
  "get_new_headers B D indexed_headers bestblockhash =
     (if hl_is_empty indexed_headers then Some (get_all_headers B D bestblockhash)
      else map_option (rmap rev) (new_headers_loop D indexed_headers bestblockhash []))"

section \<open>What the answers are checked for\<close>

lemma getblocks_hashes:
  assumes "getblocks B D hs = Inr bs"
  shows "map (\<lambda>b. block_hash B (blk_header b)) bs = hs"
proof -
  from assms obtain vals where v: "length vals = length hs"
    and c: "map (check_block B) (zip vals hs) = map Inr bs"
    by (auto simp: getblocks_def res_iffs collect_Inr_iff split: if_splits)
  have len: "length bs = length hs" using arg_cong [OF c, of length] v by simp
  show ?thesis
  proof (intro nth_equalityI)
    fix i assume "i < length (map (\<lambda>b. block_hash B (blk_header b)) bs)"
    then have i: "i < length bs" "i < length hs" "i < length vals" using len v by simp_all
    have "check_block B (vals ! i, hs ! i) = Inr (bs ! i)"
      using arg_cong [OF c, of "\<lambda>l. l ! i"] i by simp
    then show "map (\<lambda>b. block_hash B (blk_header b)) bs ! i = hs ! i"
      using i by (auto simp: check_block_def res_iffs split: if_splits)
  qed (simp add: len)
qed

text \<open>
  Claim C31. The blocks \<open>getblocks\<close> returns are the requested ones, in order: whatever the node
  answers, a reply of the wrong length or with a block of another hash is an error.
\<close>

theorem getblocks_are_requested:
  assumes "getblocks B D hs = Inr bs"
  shows "map (\<lambda>b. block_hash B (blk_header b)) bs = hs"
  using assms by (rule getblocks_hashes)

lemma headers_chained_short [simp]: "headers_chained B []" "headers_chained B [h]"
  by (simp_all add: headers_chained_def)

lemma headers_chained_Cons:
  "headers_chained B (x # hs) \<longleftrightarrow>
     headers_chained B hs \<and> (hs \<noteq> [] \<longrightarrow> prev_blockhash (hd hs) = block_hash B x)"
  by (cases hs) (simp_all add: headers_chained_def, metis)

lemma contiguous_Inr:
  "contiguous B h hs = Inr t \<longleftrightarrow>
     headers_chained B hs \<and> (hs = [] \<longrightarrow> t = h) \<and>
     (hs \<noteq> [] \<longrightarrow> prev_blockhash (hd hs) = h \<and> t = block_hash B (last hs))"
proof (induction hs arbitrary: h)
  case (Cons x hs)
  have "contiguous B h (x # hs) = Inr t \<longleftrightarrow> prev_blockhash x = h \<and> contiguous B (block_hash B x) hs = Inr t"
    by simp
  also have "\<dots> \<longleftrightarrow> headers_chained B (x # hs) \<and> prev_blockhash x = h \<and> t = block_hash B (last (x # hs))"
  proof (cases "hs = []")
    case True
    then show ?thesis by (auto simp: headers_chained_def)
  next
    case False
    then show ?thesis by (auto simp only: Cons.IH headers_chained_Cons last.simps if_False simp_thms)
  qed
  finally show ?case by simp
qed (auto simp: headers_chained_def)

lemma concat_height_chunks:
  "tip_height < start + n * CHUNK_SIZE \<Longrightarrow> concat (height_chunks n start tip_height) = [start ..< Suc tip_height]"
proof (induction n arbitrary: start)
  case (Suc n)
  show ?case
  proof (cases "start > tip_height")
    case False
    have pos: "0 < CHUNK_SIZE" by (simp add: CHUNK_SIZE_def)
    have IH: "concat (height_chunks n (start + CHUNK_SIZE) tip_height) = [start + CHUNK_SIZE ..< Suc tip_height]"
      using Suc.prems by (intro Suc.IH) (simp add: add_ac)
    show ?thesis
    proof (cases "start + (CHUNK_SIZE - 1) \<le> tip_height")
      case True
      then have "[start ..< Suc tip_height] = [start ..< start + CHUNK_SIZE] @ [start + CHUNK_SIZE ..< Suc tip_height]"
        using pos upt_add_eq_append [of start "start + CHUNK_SIZE" "Suc tip_height - (start + CHUNK_SIZE)"]
        by simp
      moreover have "Suc (min (start + (CHUNK_SIZE - 1)) tip_height) = start + CHUNK_SIZE"
        using True pos by simp
      then have "height_chunks (Suc n) start tip_height =
          [start ..< start + CHUNK_SIZE] # height_chunks n (start + CHUNK_SIZE) tip_height"
        using False by (simp only: height_chunks.simps if_False)
      ultimately show ?thesis using IH by simp
    next
      case F: False
      then have "[start + CHUNK_SIZE ..< Suc tip_height] = []" using pos by simp
      with F False IH show ?thesis by (simp del: upt_Suc add: min_def)
    qed
  qed simp
qed simp


lemma get_chunks_length:
  assumes "collect (map (get_chunk D) hts) = Inr chunks"
  shows "length (concat chunks) = length (concat hts)"
proof -
  from assms have "map (get_chunk D) hts = map Inr chunks" by (simp add: collect_Inr_iff)
  then show ?thesis
  proof (induction hts arbitrary: chunks)
    case (Cons h hts)
    then obtain c cs where c: "chunks = c # cs" by (cases chunks) auto
    with Cons.prems have "length c = length h" by (auto simp: get_chunk_def res_iffs split: if_splits)
    with c Cons.prems Cons.IH [of cs] show ?case by simp
  qed simp
qed

lemma get_all_headers_chain:
  assumes "get_all_headers B D t = Inr hs"
  shows "hs \<noteq> [] \<and> headers_chained B hs \<and> prev_blockhash (hd hs) = DEFAULT_BLOCKHASH \<and>
    block_hash B (last hs) = t \<and> (\<exists>n. rpc_getblockheight D t = Inr n \<and> length hs = Suc n)"
proof -
  from assms obtain n chunks where n: "rpc_getblockheight D t = Inr n"
    and chunks: "collect (map (get_chunk D) (height_chunks (Suc n) 0 n)) = Inr chunks"
    and hs: "hs = concat chunks" "contiguous B DEFAULT_BLOCKHASH hs = Inr t"
    by (auto simp: get_all_headers_def res_iffs Let_def split: if_splits)
  have "n < 0 + Suc n * CHUNK_SIZE" by (simp add: CHUNK_SIZE_def)
  then have "length hs = Suc n"
    using get_chunks_length [OF chunks] by (simp only: hs concat_height_chunks) simp
  then show ?thesis using hs(2) n by (auto simp: contiguous_Inr)
qed

definition known :: "header_list \<Rightarrow> blockhash \<Rightarrow> bool" where
  "known hl h \<longleftrightarrow> (\<exists>e. header_by_blockhash hl h = Inr (Some e))"

text \<open>\<open>segment B hl hs t\<close>: \<open>hs\<close> leads from a known block, or from a genesis block, to \<open>t\<close>.\<close>

definition segment :: "bitcoin_lib \<Rightarrow> header_list \<Rightarrow> block_header list \<Rightarrow> blockhash \<Rightarrow> bool" where
  "segment B hl hs t \<longleftrightarrow> headers_chained B hs \<and>
     (hs \<noteq> [] \<longrightarrow> block_hash B (last hs) = t) \<and>
     (let root = (if hs = [] then t else prev_blockhash (hd hs)) in root = DEFAULT_BLOCKHASH \<or> known hl root)"

lemma segment_snoc:
  "segment B hl (hs @ [h]) t \<longleftrightarrow> block_hash B h = t \<and> segment B hl hs (prev_blockhash h)"
  by (cases "hs = []") (auto simp: segment_def headers_chained_snoc Let_def)

lemma new_headers_loop_sound:
  assumes "new_headers_loop D hl b acc = Some (Inr r)"
    and "\<forall>h hdr. rpc_getblockheader D h = Inr hdr \<longrightarrow> block_hash B hdr = h"
  shows "\<exists>hs. r = acc @ rev hs \<and> segment B hl hs b"
proof -
  have "(\<forall>h hdr. rpc_getblockheader D h = Inr hdr \<longrightarrow> block_hash B hdr = h) \<longrightarrow>
      (\<forall>x. y = Inr x \<longrightarrow> (\<exists>hs. x = acc @ rev hs \<and> segment B hl hs b))"
    if "new_headers_loop D hl b acc = Some y" for y
    using that
  proof (induction rule: new_headers_loop.raw_induct [rotated, consumes 1, case_names step])
    case (step loop D hl blockhash new_headers y)
    have base: "segment B hl [] blockhash" if "blockhash = DEFAULT_BLOCKHASH \<or> known hl blockhash"
      using that by (simp add: segment_def headers_chained_def)
    show ?case
    proof (intro allI impI)
      fix x assume law: "\<forall>h hdr. rpc_getblockheader D h = Inr hdr \<longrightarrow> block_hash B hdr = h"
        and y: "y = Inr x"
      show "\<exists>hs. x = new_headers @ rev hs \<and> segment B hl hs blockhash"
      proof (cases "blockhash = DEFAULT_BLOCKHASH \<or> known hl blockhash")
        case True
        with step(2) y have "x = new_headers @ rev []"
          by (auto simp: known_def split: if_splits sum.splits option.splits)
        then show ?thesis using base [OF True] by blast
      next
        case False
        with step(2) y obtain hdr where hdr: "rpc_getblockheader D blockhash = Inr hdr"
          and rec: "loop D hl (prev_blockhash hdr) (new_headers @ [hdr]) = Some y"
          by (auto simp: known_def split: if_splits sum.splits option.splits)
        from step(1) [OF rec] law y obtain hs where hs: "x = (new_headers @ [hdr]) @ rev hs"
          "segment B hl hs (prev_blockhash hdr)" by blast
        then have "segment B hl (hs @ [hdr]) blockhash"
          using law hdr by (simp add: segment_snoc)
        with hs(1) show ?thesis by (intro exI [of _ "hs @ [hdr]"]) simp
      qed
    qed
  qed
  with assms show ?thesis by blast
qed


text \<open>A segment the node serves is walked to its root.\<close>

lemma new_headers_loop_complete:
  assumes "segment B hl hs t"
    and "\<forall>h \<in> set hs. rpc_getblockheader D (block_hash B h) = Inr h \<and>
      header_by_blockhash hl (block_hash B h) = Inr None \<and> block_hash B h \<noteq> DEFAULT_BLOCKHASH"
  shows "new_headers_loop D hl t acc = Some (Inr (acc @ rev hs))"
  using assms
proof (induction hs arbitrary: t acc rule: rev_induct)
  case Nil
  then show ?case
    by (subst new_headers_loop.simps) (auto simp: segment_def known_def)
next
  case (snoc h hs)
  then have h: "block_hash B h = t" "segment B hl hs (prev_blockhash h)"
    by (simp_all add: segment_snoc)
  have "new_headers_loop D hl t acc = new_headers_loop D hl (prev_blockhash h) (acc @ [h])"
    using snoc.prems(2) h(1) by (subst new_headers_loop.simps) simp
  with snoc.IH [OF h(2)] snoc.prems(2) show ?case by simp
qed

lemma segment_attach:
  assumes "segment B hl hs t" and "t \<noteq> DEFAULT_BLOCKHASH"
  shows "\<exists>n. attach_height B hl hs t = Inr n"
  using assms by (auto simp: segment_def known_def attach_height_def Let_def split: if_splits)

text \<open>
  Claim C32. Whatever headers \<open>get_new_headers\<close> returns, \<open>preprocess\<close> accepts them without a panic:
  they attach at a height of the indexed chain (or replace it from genesis) and, after the
  retained blocks, end in the daemon's tip. For an index that is not empty this relies on the
  node answering a header request with the header of that hash.
\<close>

theorem new_headers_accepted:
  assumes "hl_inv hl" and "t \<noteq> DEFAULT_BLOCKHASH"
    and "\<forall>h hdr. rpc_getblockheader D h = Inr hdr \<longrightarrow> block_hash B hdr = h"
    and "get_new_headers B D hl t = Some (Inr hs)"
  shows "\<exists>n. preprocess B hl hs t = Inr (mk_entries B n hs, if n < hl_len hl then Some n else None) \<and>
    n \<le> hl_len hl \<and> last_hash (take n (headers hl) @ mk_entries B n hs) = t"
proof -
  have "segment B hl hs t"
  proof (cases "hl_is_empty hl")
    case True
    with assms(4) have "get_all_headers B D t = Inr hs" by (simp add: get_new_headers_def)
    from get_all_headers_chain [OF this] show ?thesis by (simp add: segment_def)
  next
    case False
    with assms(4) obtain r where r: "new_headers_loop D hl t [] = Some (Inr r)" "hs = rev r"
      by (auto simp: get_new_headers_def res_iffs)
    from new_headers_loop_sound [OF r(1) assms(3)] r(2) show ?thesis by auto
  qed
  then obtain n where n: "attach_height B hl hs t = Inr n" using segment_attach assms(2) by blast
  with attach_height_spec(1,3) [OF assms(1) n] show ?thesis
    by (intro exI [of _ n]) (simp add: preprocess_attach hl_len_def)
qed

text \<open>
  Claim C22. When the node serves a chain from a block of a non-empty index to its tip, the walk
  of \<open>get_new_headers\<close> ends and returns exactly the headers that are missing.
\<close>

theorem new_headers_returned:
  assumes "\<not> hl_is_empty hl" and "segment B hl hs t"
    and "\<forall>h \<in> set hs. rpc_getblockheader D (block_hash B h) = Inr h \<and>
      header_by_blockhash hl (block_hash B h) = Inr None \<and> block_hash B h \<noteq> DEFAULT_BLOCKHASH"
  shows "get_new_headers B D hl t = Some (Inr hs)"
  using new_headers_loop_complete [OF assms(2,3), of "[]"] assms(1)
  by (simp add: get_new_headers_def)

definition example_rpc :: daemon_rpc where
  "example_rpc =
     \<lparr>rpc_reconnect = Inr (), rpc_getbestblockhash = Inr 5,
      rpc_getblockheader = (\<lambda>h. if h = 5 then Inr (example_header 4 5 310)
        else if h = 4 then Inr (example_header 2 4 300) else Inl (Msg ''not found'')),
      rpc_getblockheight = (\<lambda>_. Inr 3), rpc_getblockheaders = (\<lambda>_. Inl (Msg ''unused'')),
      rpc_getblock_batch = (\<lambda>_ hs. Inr (map (\<lambda>h. if h = 4 then
        Some \<lparr>blk_header = example_header 2 4 300, txdata = []\<rparr> else None) hs)),
      rpc_getblock_txids = (\<lambda>_. Inr []), rpc_not_ready = (\<lambda>_. False)\<rparr>"

lemma example_new_headers:
  "get_new_headers example_lib example_rpc example_hl 5 = Some (Inr [example_header 2 4 300, example_header 4 5 310])"
proof -
  have step: "new_headers_loop example_rpc example_hl 5 [] =
      Some (Inr [example_header 4 5 310, example_header 2 4 300])"
    by (subst new_headers_loop.simps, simp add: example_rpc_def example_hl_def example_headers_def
        header_by_blockhash_def hash_index_def hl_len_def Let_def DEFAULT_BLOCKHASH_def,
        subst new_headers_loop.simps, simp add: header_by_blockhash_def hash_index_def hl_len_def Let_def
        DEFAULT_BLOCKHASH_def,
        subst new_headers_loop.simps, simp add: header_by_blockhash_def hash_index_def hl_len_def Let_def
        DEFAULT_BLOCKHASH_def)
  then show ?thesis
    by (simp add: get_new_headers_def hl_is_empty_def example_hl_def example_headers_def Let_def)
qed

lemma example_getblocks:
  "getblocks example_lib example_rpc [4] = Inr [\<lparr>blk_header = example_header 2 4 300, txdata = []\<rparr>]"
proof -
  have m: "MAX_ATTEMPTS = Suc 4" by (simp add: MAX_ATTEMPTS_def)
  have "getblock_values example_rpc MAX_ATTEMPTS [4] =
      Inr [Some \<lparr>blk_header = example_header 2 4 300, txdata = []\<rparr>]"
    unfolding m getblock_values.simps by (simp add: example_rpc_def)
  then show ?thesis by (simp add: getblocks_def check_block_def)
qed

theorem getblocks_are_requested_witness:
  "map (\<lambda>b. block_hash example_lib (blk_header b)) [\<lparr>blk_header = example_header 2 4 300, txdata = []\<rparr>] = [4]"
  by (rule getblocks_are_requested [OF example_getblocks])

theorem new_headers_accepted_witness:
  "\<exists>n. preprocess example_lib example_hl [example_header 2 4 300, example_header 4 5 310] 5 =
     Inr (mk_entries example_lib n [example_header 2 4 300, example_header 4 5 310],
       if n < hl_len example_hl then Some n else None)"
proof -
  have "\<forall>h hdr. rpc_getblockheader example_rpc h = Inr hdr \<longrightarrow> block_hash example_lib hdr = h"
    by (auto simp: example_rpc_def split: if_splits)
  moreover have "(5 :: blockhash) \<noteq> DEFAULT_BLOCKHASH" by (simp add: DEFAULT_BLOCKHASH_def)
  ultimately show ?thesis
    using new_headers_accepted [OF example_hl_inv _ _ example_new_headers] by blast
qed

theorem new_headers_returned_witness:
  "get_new_headers example_lib example_rpc example_hl 5 = Some (Inr [example_header 2 4 300, example_header 4 5 310])"
proof (rule new_headers_returned)
  show "\<not> hl_is_empty example_hl"
    by (simp add: hl_is_empty_def example_hl_def example_headers_def Let_def)
  have "known example_hl 2"
    by (simp add: known_def header_by_blockhash_def example_hl_def example_headers_def hash_index_def
        hl_len_def Let_def)
  then show "segment example_lib example_hl [example_header 2 4 300, example_header 4 5 310] 5"
    by (simp add: segment_def headers_chained_def)
  show "\<forall>h \<in> set [example_header 2 4 300, example_header 4 5 310].
      rpc_getblockheader example_rpc (block_hash example_lib h) = Inr h \<and>
      header_by_blockhash example_hl (block_hash example_lib h) = Inr None \<and>
      block_hash example_lib h \<noteq> DEFAULT_BLOCKHASH"
    by (simp add: example_rpc_def header_by_blockhash_def example_hl_def example_headers_def hash_index_def
        DEFAULT_BLOCKHASH_def Let_def)
qed

end
