(* ===== verification/Fetch.thy ===== *)
theory Fetch
  imports Daemon Bincode
begin

text \<open>
  \<^verbatim>\<open>src/new_index/fetch.rs\<close>: the block sources of the indexer. A \<open>Fetcher\<close> is a producer thread
  and the channel it fills; what the consumer observes is the sequence of delivered items and
  the producer's result, and that pair is the model. The node's answers and the \<open>blk*.dat\<close>
  files are parameters.
\<close>

unbundle bit_operations_syntax

section \<open>Fetchers\<close>

datatype fetch_from = FromBitcoind | FromBlkFiles

record 'a fetcher =
  ft_items :: "'a list"
  ft_result :: "unit res"

text \<open>\<open>Fetcher::map\<close>: a consumer error stops the loop and wins over the producer's result.\<close>

fun consume :: "('s \<Rightarrow> 'a \<Rightarrow> 's \<times> unit res) \<Rightarrow> 's \<Rightarrow> 'a list \<Rightarrow> 's \<times> error option" where
  "consume f s [] = (s, None)"
| "consume f s (x # xs) =
     (case f s x of
        (s', Inl e) \<Rightarrow> (s', Some e)
      | (s', Inr _) \<Rightarrow> consume f s' xs)"

definition fetcher_map :: "('s \<Rightarrow> 'a \<Rightarrow> 's \<times> unit res) \<Rightarrow> 's \<Rightarrow> 'a fetcher \<Rightarrow> 's \<times> unit res" where
  "fetcher_map f s ft =
     (case consume f s (ft_items ft) of
        (s', Some e) \<Rightarrow> (s', Inl e)
      | (s', None) \<Rightarrow> (s', ft_result ft))"

text \<open>A producer that sends one item per input until the first error.\<close>

fun produce :: "('a \<Rightarrow> 'b res) \<Rightarrow> 'a list \<Rightarrow> 'b fetcher" where
  "produce f [] = \<lparr>ft_items = [], ft_result = Inr ()\<rparr>"
| "produce f (x # xs) =
     (case f x of
        Inl e \<Rightarrow> \<lparr>ft_items = [], ft_result = Inl e\<rparr>
      | Inr y \<Rightarrow> (produce f xs)\<lparr>ft_items := y # ft_items (produce f xs)\<rparr>)"

section \<open>Fetching over RPC\<close>

function chunks :: "nat \<Rightarrow> 'a list \<Rightarrow> 'a list list" where
  "chunks n xs = (if xs = [] \<or> n = 0 then [] else take n xs # chunks n (drop n xs))"
  by pat_completeness auto
termination
  by (relation "measure (\<lambda>(n, xs). length xs)") auto

declare chunks.simps [simp del]

definition make_block_entry :: "bitcoin_lib \<Rightarrow> block \<Rightarrow> header_entry \<Rightarrow> block_entry" where
  "make_block_entry B block entry =
     \<lparr>be_block = block, be_entry = entry, be_size = of_nat (total_size B block),
      be_txids = map (compute_txid B) (txdata block)\<rparr>"

definition fetch_batch :: "bitcoin_lib \<Rightarrow> daemon_rpc \<Rightarrow> header_entry list \<Rightarrow> block_entry list res" where
  "fetch_batch B D entries =
     rbind (getblocks B D (map he_hash entries)) (\<lambda>blocks.
       if length blocks \<noteq> length entries
       then Inl (Msg ''bitcoind_fetcher block/entry count mismatch'')
       else Inr (map (\<lambda>(block, entry). make_block_entry B block entry) (zip blocks entries)))"

text \<open>\<open>slice::chunks\<close> panics for a chunk size of zero.\<close>

definition bitcoind_fetcher ::
  "bitcoin_lib \<Rightarrow> daemon_rpc \<Rightarrow> header_entry list \<Rightarrow> nat \<Rightarrow> block_entry list fetcher res" where
  "bitcoind_fetcher B D new_headers batch_size =
     rmap (\<lambda>_.
       if batch_size = 0
       then \<lparr>ft_items = [], ft_result = Inl (Panic ''chunk size must be non-zero'')\<rparr>
       else produce (fetch_batch B D) (chunks batch_size new_headers))
     (rpc_reconnect D)"

section \<open>Reading the node's block files\<close>

record blk_source =
  bf_magic :: u32
  bf_files :: "string list res"
  bf_read :: "string \<Rightarrow> bytes res"
  bf_xor_key :: "bytes option res"

definition blkfile_apply_xor_key :: "bytes \<Rightarrow> bytes \<Rightarrow> bytes" where
  "blkfile_apply_xor_key xor_key blob = map (\<lambda>(i, b). b XOR xor_key ! (i AND 7)) (enumerate 0 blob)"

definition blkfiles_reader :: "blk_source \<Rightarrow> string list \<Rightarrow> bytes option \<Rightarrow> bytes fetcher" where
  "blkfiles_reader F blk_files xor_key =
     produce (\<lambda>path. rmap (\<lambda>blob. case xor_key of None \<Rightarrow> blob | Some k \<Rightarrow> blkfile_apply_xor_key k blob)
       (bf_read F path)) blk_files"

text \<open>
  The cursor loop of \<open>parse_blocks\<close>: skip to the magic, read the size, cut out the block. A file
  that ends inside a block body is taken to end before it.
\<close>

function parse_slices :: "u32 \<Rightarrow> bytes \<Rightarrow> nat \<Rightarrow> (bytes \<times> u32) list res" where
  "parse_slices magic blob pos =
     (if length blob \<le> pos then Inr []
      else case get_u32 Little (drop pos blob) of
        None \<Rightarrow> Inr []
      | Some (value, _) \<Rightarrow>
          if magic \<noteq> value then parse_slices magic blob (pos + 1)
          else case get_u32 Little (drop (pos + 4) blob) of
            None \<Rightarrow> Inl (Msg ''no block size'')
          | Some (block_size, _) \<Rightarrow>
              if pos + 8 + unat block_size > length blob then Inr []
              else case get_u32 Little (drop (pos + 8) blob) of
                None \<Rightarrow> Inr []
              | Some (version, _) \<Rightarrow>
                  if magic = version then parse_slices magic blob (pos + 8)
                  else rmap (Cons (take (unat block_size) (drop (pos + 8) blob), block_size))
                    (parse_slices magic blob (pos + 8 + unat block_size)))"
  by pat_completeness auto
termination
  by (relation "measure (\<lambda>(magic, blob, pos). length blob - pos)") auto

declare parse_slices.simps [simp del]

definition parse_blocks :: "bitcoin_lib \<Rightarrow> u32 \<Rightarrow> bytes \<Rightarrow> (block \<times> u32) list res" where
  "parse_blocks B magic blob =
     rbind (parse_slices magic blob 0) (\<lambda>slices.
       collect (map (\<lambda>(slice, size).
         rmap (\<lambda>block. (block, size))
           (ok_or (Msg ''failed to deserialize block from blk file'') (deser_block B slice))) slices))"

text \<open>A stage that maps the items of another fetcher: its own error, or that of its source.\<close>

definition stage :: "('a \<Rightarrow> 'b res) \<Rightarrow> 'a fetcher \<Rightarrow> 'b fetcher" where
  "stage f ft =
     (let out = produce f (ft_items ft)
      in case ft_result out of Inl e \<Rightarrow> out | Inr _ \<Rightarrow> out\<lparr>ft_result := ft_result ft\<rparr>)"

definition blkfiles_parser :: "bitcoin_lib \<Rightarrow> u32 \<Rightarrow> bytes fetcher \<Rightarrow> (block \<times> u32) list fetcher" where
  "blkfiles_parser B magic blobs = stage (parse_blocks B magic) blobs"

text \<open>Selecting the wanted blocks of one file: each wanted header is taken once.\<close>

fun select_blocks ::
  "bitcoin_lib \<Rightarrow> (block \<times> u32) list \<Rightarrow> (blockhash \<Rightarrow> header_entry option) \<Rightarrow>
     block_entry list \<times> (blockhash \<Rightarrow> header_entry option)" where
  "select_blocks B [] entry_map = ([], entry_map)"
| "select_blocks B ((block, sz) # rest) entry_map =
     (let blockhash = block_hash B (blk_header block) in
      case entry_map blockhash of
        None \<Rightarrow> select_blocks B rest entry_map
      | Some entry \<Rightarrow>
          (case select_blocks B rest (entry_map(blockhash := None)) of
             (entries, m) \<Rightarrow>
               (\<lparr>be_block = block, be_entry = entry, be_size = sz,
                 be_txids = map (compute_txid B) (txdata block)\<rparr> # entries, m)))"

fun select_all ::
  "bitcoin_lib \<Rightarrow> (block \<times> u32) list list \<Rightarrow> (blockhash \<Rightarrow> header_entry option) \<Rightarrow>
     block_entry list list \<times> (blockhash \<Rightarrow> header_entry option)" where
  "select_all B [] entry_map = ([], entry_map)"
| "select_all B (bs # rest) entry_map =
     (case select_blocks B bs entry_map of
        (entries, m) \<Rightarrow> (case select_all B rest m of (es, m') \<Rightarrow> (entries # es, m')))"

definition blkfiles_fetcher ::
  "bitcoin_lib \<Rightarrow> blk_source \<Rightarrow> header_entry list \<Rightarrow> block_entry list fetcher res" where
  "blkfiles_fetcher B F new_headers =
     rbind (bf_files F) (\<lambda>blk_files. rbind (bf_xor_key F) (\<lambda>xor_key.
       let entry_map = map_of (rev (map (\<lambda>h. (he_hash h, h)) new_headers));
           parsed = blkfiles_parser B (bf_magic F) (blkfiles_reader F blk_files xor_key)
       in case select_all B (ft_items parsed) entry_map of
            (items, left) \<Rightarrow>
              Inr \<lparr>ft_items = items,
                ft_result = rbind (ft_result parsed) (\<lambda>_.
                  if \<exists>h \<in> set new_headers. left (he_hash h) \<noteq> None
                  then Inl (Msg ''failed to index blocks from blk*.dat files'')
                  else Inr ())\<rparr>))"

definition start_fetcher ::
  "bitcoin_lib \<Rightarrow> daemon_rpc \<Rightarrow> blk_source \<Rightarrow> fetch_from \<Rightarrow> header_entry list \<Rightarrow> nat \<Rightarrow>
     block_entry list fetcher res" where
  "start_fetcher B D F from new_headers batch_size =
     (case from of
        FromBitcoind \<Rightarrow> bitcoind_fetcher B D new_headers batch_size
      | FromBlkFiles \<Rightarrow> blkfiles_fetcher B F new_headers)"


section \<open>Obfuscated block files\<close>

lemma nth_xor_key:
  "i < length blob \<Longrightarrow> blkfile_apply_xor_key k blob ! i = blob ! i XOR k ! (i AND 7)"
  by (simp add: blkfile_apply_xor_key_def nth_enumerate_eq)

lemma length_xor_key [simp]: "length (blkfile_apply_xor_key k blob) = length blob"
  by (simp add: blkfile_apply_xor_key_def)

lemma xor_key_involutive: "blkfile_apply_xor_key k (blkfile_apply_xor_key k blob) = blob"
  by (rule nth_equalityI) (simp_all add: nth_xor_key xor.assoc)

section \<open>Parsing a block file\<close>

definition blk_record :: "u32 \<Rightarrow> bytes \<Rightarrow> bytes" where
  "blk_record magic body = u32_le magic @ u32_le (of_nat (length body)) @ body"

text \<open>A block body that can be told from the next record: it starts with a version that is not the magic.\<close>

definition body_ok :: "u32 \<Rightarrow> bytes \<Rightarrow> bool" where
  "body_ok magic body \<longleftrightarrow> 4 \<le> length body \<and> length body < 2 ^ 32 \<and> of_nat (of_le (take 4 body)) \<noteq> magic"

lemma get_u32_long: "4 \<le> length bs \<Longrightarrow> get_u32 Little bs = Some (of_nat (of_le (take 4 bs)), drop 4 bs)"
  by (simp add: get_u32_def get_n_def of_bytes_def)

lemma get_u32_short: "length bs < 4 \<Longrightarrow> get_u32 Little bs = None"
  by (simp add: get_u32_def get_n_def)

lemma parse_slices_shift: "parse_slices magic (pre @ blob) (length pre + pos) = parse_slices magic blob pos"
proof (induction magic blob pos rule: parse_slices.induct)
  case (1 magic blob pos)
  have d: "drop (length pre + pos) (pre @ blob) = drop pos blob"
    "drop (length pre + pos + 4) (pre @ blob) = drop (pos + 4) blob"
    "drop (length pre + pos + 8) (pre @ blob) = drop (pos + 8) blob"
    by (simp_all add: drop_append)
  show ?case
    by (subst (1 2) parse_slices.simps)
      (use 1 in \<open>auto simp: d add.assoc split: option.split\<close>)
qed

lemma parse_slices_record:
  assumes "body_ok magic body"
  shows "parse_slices magic (blk_record magic body @ rest) 0 =
    rmap (Cons (body, of_nat (length body))) (parse_slices magic rest 0)"
proof -
  let ?blob = "blk_record magic body @ rest"
  have len: "length (blk_record magic body) = 8 + length body" by (simp add: blk_record_def)
  have size: "unat (of_nat (length body) :: u32) = length body"
    using assms by (simp add: body_ok_def unat_of_nat)
  have d: "drop 4 (blk_record magic body) = u32_le (of_nat (length body)) @ body"
    "drop 8 (blk_record magic body) = body"
    by (simp_all add: blk_record_def)
  have g: "get_u32 Little ?blob = Some (magic, u32_le (of_nat (length body)) @ body @ rest)"
    by (simp add: blk_record_def)
  have v: "get_u32 Little (body @ rest) = Some (of_nat (of_le (take 4 body)), drop 4 (body @ rest))"
    using assms by (subst get_u32_long) (simp_all add: body_ok_def)
  have tail: "parse_slices magic ?blob (8 + length body) = parse_slices magic rest 0"
    using parse_slices_shift [of magic "blk_record magic body" rest 0] by (simp add: len)
  show ?thesis
    using assms by (subst parse_slices.simps) (auto simp: g d v size tail len body_ok_def)
qed

lemma parse_slices_records:
  assumes "\<forall>body \<in> set bodies. body_ok magic body"
  shows "parse_slices magic (concat (map (blk_record magic) bodies) @ rest) 0 =
    rmap (append (map (\<lambda>body. (body, of_nat (length body))) bodies)) (parse_slices magic rest 0)"
  using assms
proof (induction bodies)
  case Nil
  then show ?case by (cases "parse_slices magic rest 0") simp_all
next
  case (Cons body bodies)
  then show ?case
    by (simp add: parse_slices_record rmap_rmap)
qed

text \<open>Zero padding and a record cut off in its body end a file.\<close>

lemma of_le_zeros [simp]: "of_le (replicate n 0) = 0"
  by (induction n) simp_all

lemma parse_slices_zeros:
  assumes "magic \<noteq> 0"
  shows "parse_slices magic (replicate n 0) pos = Inr []"
proof (induction "n - pos" arbitrary: pos)
  case 0
  then show ?case by (subst parse_slices.simps) simp
next
  case (Suc k)
  then have IH: "parse_slices magic (replicate n 0) (pos + 1) = Inr []" by simp
  have "get_u32 Little (replicate (n - pos) 0) = Some (v, r) \<Longrightarrow> v = 0" for v r
    by (cases "n - pos < 4") (auto simp: get_u32_short get_u32_long take_replicate)
  with IH assms show ?case
    by (subst parse_slices.simps) (auto split: option.split)
qed

lemma parse_slices_cut:
  assumes "length part < length body" and "length body < 2 ^ 32"
  shows "parse_slices magic (u32_le magic @ u32_le (of_nat (length body)) @ part) 0 = Inr []"
proof -
  have size: "unat (of_nat (length body) :: u32) = length body"
    using assms by (simp add: unat_of_nat)
  then show ?thesis using assms(1) by (subst parse_slices.simps) simp
qed



definition example_block :: "nat \<Rightarrow> nat \<Rightarrow> block" where
  "example_block prev self = \<lparr>blk_header = example_header prev self 100, txdata = []\<rparr>"


section \<open>What the sources deliver\<close>

text \<open>A block entry that belongs to its header: the invariant of \<open>BlockEntry\<close>.\<close>

definition entry_ok :: "bitcoin_lib \<Rightarrow> block_entry \<Rightarrow> bool" where
  "entry_ok B b \<longleftrightarrow> block_hash B (blk_header (be_block b)) = he_hash (be_entry b) \<and>
     be_txids b = map (compute_txid B) (txdata (be_block b))"

lemma concat_chunks: "0 < n \<Longrightarrow> concat (chunks n xs) = xs"
proof (induction n xs rule: chunks.induct)
  case (1 n xs)
  then show ?case by (subst chunks.simps) auto
qed

lemma produce_items: "\<exists>k. k \<le> length xs \<and> map f (take k xs) = map Inr (ft_items (produce f xs)) \<and>
  (ft_result (produce f xs) = Inr () \<longrightarrow> k = length xs)"
proof (induction xs)
  case (Cons x xs)
  then obtain k where k: "k \<le> length xs" "map f (take k xs) = map Inr (ft_items (produce f xs))"
    "ft_result (produce f xs) = Inr () \<longrightarrow> k = length xs" by blast
  show ?case
  proof (cases "f x")
    case (Inl e)
    then show ?thesis by (intro exI [of _ 0]) simp
  next
    case (Inr y)
    with k show ?thesis by (intro exI [of _ "Suc k"]) simp
  qed
qed simp

lemma fetch_batch_entries:
  assumes "fetch_batch B D entries = Inr bs"
  shows "map be_entry bs = entries" and "\<forall>b \<in> set bs. entry_ok B b"
proof -
  from assms obtain blocks where g: "getblocks B D (map he_hash entries) = Inr blocks"
    and len: "length blocks = length entries"
    and bs: "bs = map (\<lambda>(block, entry). make_block_entry B block entry) (zip blocks entries)"
    by (auto simp: fetch_batch_def res_iffs split: if_splits)
  show "map be_entry bs = entries"
    using len by (simp add: bs make_block_entry_def comp_def case_prod_unfold)
  have "map (\<lambda>b. block_hash B (blk_header b)) blocks = map he_hash entries"
    using g by (rule getblocks_hashes)
  then have "block_hash B (blk_header (blocks ! i)) = he_hash (entries ! i)" if "i < length entries" for i
    using that len by (metis length_map nth_map)
  then show "\<forall>b \<in> set bs. entry_ok B b"
    by (auto simp: bs entry_ok_def make_block_entry_def set_zip len)
qed


lemma batches_entries:
  assumes "map (fetch_batch B D) ess = map Inr bss"
  shows "map be_entry (concat bss) = concat ess" and "\<forall>b \<in> set (concat bss). entry_ok B b"
proof -
  have "map be_entry (concat bss) = concat ess \<and> (\<forall>b \<in> set (concat bss). entry_ok B b)"
    using assms
  proof (induction ess arbitrary: bss)
    case (Cons es ess)
    then obtain bs bss' where bss: "bss = bs # bss'" "fetch_batch B D es = Inr bs"
      "map (fetch_batch B D) ess = map Inr bss'" by (cases bss) auto
    with Cons.IH [OF bss(3)] fetch_batch_entries [OF bss(2)] show ?case by auto
  qed simp
  then show "map be_entry (concat bss) = concat ess" "\<forall>b \<in> set (concat bss). entry_ok B b" by blast+
qed

lemma bitcoind_fetcher_entries:
  assumes "bitcoind_fetcher B D new_headers batch_size = Inr ft"
  shows "prefix (map be_entry (concat (ft_items ft))) new_headers \<and>
    (\<forall>b \<in> set (concat (ft_items ft)). entry_ok B b) \<and>
    (ft_result ft = Inr () \<longrightarrow> map be_entry (concat (ft_items ft)) = new_headers)"
proof (cases "batch_size = 0")
  case True
  with assms show ?thesis by (auto simp: bitcoind_fetcher_def res_iffs)
next
  case False
  with assms have ft: "ft = produce (fetch_batch B D) (chunks batch_size new_headers)"
    by (auto simp: bitcoind_fetcher_def res_iffs)
  from produce_items [of "chunks batch_size new_headers" "fetch_batch B D"] obtain k where
    k: "map (fetch_batch B D) (take k (chunks batch_size new_headers)) = map Inr (ft_items ft)"
    "ft_result ft = Inr () \<longrightarrow> k = length (chunks batch_size new_headers)"
    unfolding ft by blast
  note all = concat_chunks [of batch_size new_headers]
  have "new_headers = concat (take k (chunks batch_size new_headers)) @ concat (drop k (chunks batch_size new_headers))"
    using False by (simp add: concat_append [symmetric] all del: concat_append)
  then have "prefix (concat (take k (chunks batch_size new_headers))) new_headers"
    by (metis prefixI)
  with batches_entries [OF k(1)] k(2) False show ?thesis by (auto simp: all)
qed

text \<open>
  Claim C34. The RPC fetcher delivers the requested blocks in order and nothing else: the header
  entries of what it delivers are a prefix of the request, every block hashes to its header
  entry and carries the txids of its transactions, and if the producer ends without an error
  the whole request was delivered.
\<close>

theorem bitcoind_fetcher_delivers:
  assumes "bitcoind_fetcher B D new_headers batch_size = Inr ft"
  shows "prefix (map be_entry (concat (ft_items ft))) new_headers \<and>
    (\<forall>b \<in> set (concat (ft_items ft)). entry_ok B b) \<and>
    (ft_result ft = Inr () \<longrightarrow> map be_entry (concat (ft_items ft)) = new_headers)"
  by (rule bitcoind_fetcher_entries [OF assms])

theorem bitcoind_fetcher_delivers_witness:
  "\<exists>ft. bitcoind_fetcher example_lib example_rpc [\<lparr>he_height = 2, he_hash = 4, he_header = example_header 2 4 300\<rparr>] 10 = Inr ft \<and>
     map be_entry (concat (ft_items ft)) = [\<lparr>he_height = 2, he_hash = 4, he_header = example_header 2 4 300\<rparr>]"
  (is "\<exists>ft. bitcoind_fetcher _ _ ?hs _ = _ \<and> _")
proof -
  obtain ft where ft: "bitcoind_fetcher example_lib example_rpc ?hs 10 = Inr ft"
    by (simp add: bitcoind_fetcher_def example_rpc_def)
  have "fetch_batch example_lib example_rpc ?hs =
      Inr [make_block_entry example_lib \<lparr>blk_header = example_header 2 4 300, txdata = []\<rparr> (hd ?hs)]"
    using example_getblocks by (simp add: fetch_batch_def)
  then have "ft_result ft = Inr ()"
    using ft by (auto simp: bitcoind_fetcher_def res_iffs chunks.simps [of _ ?hs] chunks.simps [of _ "[]"])
  with bitcoind_fetcher_delivers [OF ft] have "map be_entry (concat (ft_items ft)) = ?hs" by (elim conjE) (erule mp)
  with ft show ?thesis by (intro exI conjI)
qed

end
