(* ===== verification/Indexer.thy ===== *)
theory Indexer
  imports Store Fetch
begin

text \<open>
  The write path of \<open>Indexer\<close> (\<^verbatim>\<open>src/new_index/schema.rs\<close>): adding blocks to the transaction
  store, indexing their history, processing the batches of a fetcher, and the durable steps at
  the end of a sync. A panic aborts the process, so it is an error that no handler catches;
  other errors leave the state they were raised in.
\<close>

section \<open>State\<close>

record cleanup_retry =
  cr_delay :: "nat option"
  next_attempt :: "nat option"
  failed_at_tip :: "blockhash option"

record 'db indexer =
  ix_store :: "'db store"
  ix_flush :: db_flush
  ix_from :: fetch_from
  uncommitted_blocks :: "blockhash set"
  iconfig :: indexer_config
  stale_cleanup_failing :: bool
  ix_retry :: cleanup_retry

definition is_panic :: "error \<Rightarrow> bool" where
  "is_panic e = (case e of Panic _ \<Rightarrow> True | _ \<Rightarrow> False)"

text \<open>\<open>chain_err\<close> wraps an error in a message; a panic is not an error value.\<close>

definition chain_err :: "string \<Rightarrow> 'a res \<Rightarrow> 'a res" where
  "chain_err msg r = (case r of Inl e \<Rightarrow> if is_panic e then Inl e else Inl (Msg msg) | Inr x \<Rightarrow> Inr x)"

definition undo_marker_key :: "blockhash \<Rightarrow> bytes" where
  "undo_marker_key h = 0x75 # hash_bytes h"

section \<open>Adding and indexing blocks\<close>

definition add_op :: "bitcoin_lib \<Rightarrow> indexer_config \<Rightarrow> db_flush \<Rightarrow> 'db store \<Rightarrow> block_entry list \<Rightarrow> 'db store res" where
  "add_op B c fl st blocks =
     rbind (add_blocks B c blocks) (\<lambda>rows.
       rmap (\<lambda>d. st\<lparr>txstore_db := d,
           added_blockhashes := added_blockhashes st \<union> (\<lambda>b. he_hash (be_entry b)) ` set blocks\<rparr>)
         (write_rows (txstore_db st) rows fl))"

definition index_rows :: "bitcoin_lib \<Rightarrow> indexer_config \<Rightarrow> 'db store \<Rightarrow> block_entry list \<Rightarrow> db_row list res" where
  "index_rows B c st blocks =
     rbind (unwrap (lookup_txos B (txstore_db st) (get_previous_txos B blocks))) (\<lambda>previous_txos_map.
       if \<exists>b \<in> set blocks. he_hash (be_entry b) \<notin> added_blockhashes st
       then Inl (Panic ''cannot index block (missing from store)'')
       else index_blocks B c blocks previous_txos_map)"

definition index_op :: "bitcoin_lib \<Rightarrow> indexer_config \<Rightarrow> db_flush \<Rightarrow> 'db store \<Rightarrow> block_entry list \<Rightarrow> 'db store res" where
  "index_op B c fl st blocks =
     rbind (index_rows B c st blocks) (\<lambda>rows.
       rmap (\<lambda>d. st\<lparr>history_db := d,
           indexed_blockhashes := indexed_blockhashes st \<union> (\<lambda>b. he_hash (be_entry b)) ` set blocks\<rparr>)
         (write_batch (history_db st)
           (map (\<lambda>r. Put (row_key r) (row_value r)) (sort_key row_key rows) @
            map (\<lambda>b. Delete (undo_marker_key (he_hash (be_entry b)))) blocks) fl))"

definition process_block_batch ::
  "bitcoin_lib \<Rightarrow> indexer_config \<Rightarrow> db_flush \<Rightarrow> 'db store \<Rightarrow> block_entry list \<Rightarrow> 'db store res" where
  "process_block_batch B c fl st blocks =
     (let to_add = filter (\<lambda>b. he_hash (be_entry b) \<notin> added_blockhashes st) blocks;
          to_index = filter (\<lambda>b. he_hash (be_entry b) \<notin> indexed_blockhashes st) blocks
      in rbind (if to_add \<noteq> [] then add_op B c fl st to_add else Inr st) (\<lambda>st.
           if to_index \<noteq> [] then index_op B c fl st to_index else Inr st))"

section \<open>Fetching and indexing\<close>

definition fetch_index_batches ::
  "bitcoin_lib \<Rightarrow> daemon_rpc \<Rightarrow> blk_source \<Rightarrow> fetch_from \<Rightarrow> 'db indexer \<Rightarrow> header_entry list \<Rightarrow>
     'db indexer \<times> unit res" where
  "fetch_index_batches B D F from ix hdrs =
     (case start_fetcher B D F from (headers_to_process (ix_store ix) hdrs) (block_batch_size (iconfig ix)) of
        Inl e \<Rightarrow> (ix, Inl e)
      | Inr ft \<Rightarrow>
          fetcher_map (\<lambda>ix blocks.
            case process_block_batch B (iconfig ix) (ix_flush ix) (ix_store ix) blocks of
              Inl e \<Rightarrow> (ix, Inl e)
            | Inr st \<Rightarrow> (ix\<lparr>ix_store := st\<rparr>, Inr ())) ix ft)"

definition fetch_and_index ::
  "bitcoin_lib \<Rightarrow> daemon_rpc \<Rightarrow> blk_source \<Rightarrow> 'db indexer \<Rightarrow> header_entry list \<Rightarrow> 'db indexer \<times> unit res" where
  "fetch_and_index B D F ix hdrs =
     (case fetch_index_batches B D F (ix_from ix) ix hdrs of
        (ix1, result) \<Rightarrow>
          (case ix_from ix of
             FromBitcoind \<Rightarrow> (ix1, result)
           | FromBlkFiles \<Rightarrow>
               let ix2 = ix1\<lparr>ix_from := FromBitcoind\<rparr> in
               (case result of
                  Inr _ \<Rightarrow> (ix2, result)
                | Inl e \<Rightarrow>
                    if is_panic e then (ix2, result)
                    else (case fetch_index_batches B D F FromBitcoind ix2 hdrs of
                       (ix3, r) \<Rightarrow> (ix3, chain_err ''RPC fallback after blk-file import failed'' r)))))"

section \<open>Ending a sync\<close>

abbreviation F_KEY :: bytes where "F_KEY \<equiv> [0x46]"

text \<open>Compaction and the compaction triggers do not change the content.\<close>

definition start_auto_compactions :: "'db DB \<Rightarrow> 'db DB res" where
  "start_auto_compactions d =
     rbind (db_get d F_KEY) (\<lambda>v. case v of
       Some _ \<Rightarrow> Inr d
     | None \<Rightarrow> rbind (put_sync d F_KEY []) (\<lambda>d'. rbind (db_get d' F_KEY) (\<lambda>v'.
         if v' = None then Inl (Panic ''assertion failed: db.get(&key).is_some()'') else Inr d')))"

definition on_dbs :: "('db DB \<Rightarrow> 'db DB res) \<Rightarrow> 'db store \<Rightarrow> 'db store res" where
  "on_dbs f st =
     rbind (f (txstore_db st)) (\<lambda>t. rbind (f (history_db st)) (\<lambda>h. rbind (f (cache_db st)) (\<lambda>c.
       Inr (st\<lparr>txstore_db := t, history_db := h, cache_db := c\<rparr>))))"

definition finish_sync_writes :: "'db indexer \<Rightarrow> 'db indexer res" where
  "finish_sync_writes ix =
     rbind (on_dbs start_auto_compactions (ix_store ix)) (\<lambda>st.
       case ix_flush ix of
         FlushEnable \<Rightarrow> Inr (ix\<lparr>ix_store := st\<rparr>)
       | FlushDisable \<Rightarrow> rmap (\<lambda>st'. ix\<lparr>ix_store := st', ix_flush := FlushEnable\<rparr>) (on_dbs db_flush_op st))"

definition commit_completed_headers :: "'db indexer \<Rightarrow> header_entry list \<Rightarrow> (blockhash \<times> 'db indexer) res" where
  "commit_completed_headers ix completed =
     rbind (advance_synced_tip (ix_store ix) completed) (\<lambda>(tip_hash, st).
       if \<exists>h \<in> uncommitted_blocks ix. \<exists>e. header_by_blockhash (indexed_headers st) h = Inl e
       then Inl (Panic ''header.hash() != blockhash'')
       else Inr (tip_hash, ix\<lparr>ix_store := st,
         uncommitted_blocks := {h \<in> uncommitted_blocks ix.
           header_by_blockhash (indexed_headers st) h = Inr None}\<rparr>))"

definition remember_uncommitted_headers :: "'db indexer \<Rightarrow> header_entry list \<Rightarrow> 'db indexer" where
  "remember_uncommitted_headers ix hdrs =
     ix\<lparr>uncommitted_blocks := uncommitted_blocks ix \<union>
       he_hash ` {h \<in> set hdrs. he_hash h \<in> indexed_blockhashes (ix_store ix)}\<rparr>"

subsection \<open>Backoff of a failing cleanup (seconds)\<close>

definition CLEANUP_RETRY_INITIAL :: nat where "CLEANUP_RETRY_INITIAL = 5"
definition CLEANUP_RETRY_MAX :: nat where "CLEANUP_RETRY_MAX = 600"

definition retry_default :: cleanup_retry where
  "retry_default = \<lparr>cr_delay = None, next_attempt = None, failed_at_tip = None\<rparr>"

definition retry_due :: "cleanup_retry \<Rightarrow> nat \<Rightarrow> blockhash \<Rightarrow> bool" where
  "retry_due r now daemon_tip \<longleftrightarrow>
     failed_at_tip r \<noteq> Some daemon_tip \<or> (case next_attempt r of None \<Rightarrow> True | Some at \<Rightarrow> now \<ge> at)"

definition retry_failed :: "cleanup_retry \<Rightarrow> nat \<Rightarrow> blockhash \<Rightarrow> nat \<times> cleanup_retry" where
  "retry_failed r now daemon_tip =
     (let delay = (case cr_delay r of None \<Rightarrow> CLEANUP_RETRY_INITIAL | Some d \<Rightarrow> min (d * 2) CLEANUP_RETRY_MAX)
      in (delay, \<lparr>cr_delay = Some delay, next_attempt = Some (now + delay), failed_at_tip = Some daemon_tip\<rparr>))"


section \<open>Done-markers and the in-memory sets\<close>

text \<open>The hashes that have a row \<open>code{hash}\<close>, and that all rows of this code have such a key.\<close>

definition marked :: "u8 \<Rightarrow> (bytes \<Rightarrow> bytes option) \<Rightarrow> blockhash set" where
  "marked code m = {h. code # hash_bytes h \<in> dom m}"

definition marks_wf :: "u8 \<Rightarrow> (bytes \<Rightarrow> bytes option) \<Rightarrow> bool" where
  "marks_wf code m \<longleftrightarrow> (\<forall>k \<in> dom m. prefix [code] k \<longrightarrow> (\<exists>h. k = code # hash_bytes h))"

lemma set_rows_of:
  "finite (dom m) \<Longrightarrow> r \<in> set (rows_of m P) \<longleftrightarrow> m (row_key r) = Some (row_value r) \<and> P (row_key r)"
proof -
  assume "finite (dom m)"
  then have "r \<in> set (rows_of m P) \<longleftrightarrow> (\<exists>k v. m k = Some v \<and> P k \<and> r = to_row (k, v))"
    by (auto simp: rows_of_def set_listing)
  also have "\<dots> \<longleftrightarrow> m (row_key r) = Some (row_value r) \<and> P (row_key r)"
    by (cases r) (auto simp: to_row_def)
  finally show ?thesis .
qed

lemma block_row_from_key:
  "row_key r = c # hash_bytes h \<Longrightarrow> block_row_from r = Inr \<lparr>br_code = c, br_hash = h, br_value = row_value r\<rparr>"
  by (simp add: block_row_from_def deserialize_def)

lemma load_blockhashes_marked:
  assumes "db_ok d" and "marks_wf code (db_view d)"
  shows "load_blockhashes d [code] = Inr (marked code (db_view d))"
proof -
  let ?rows = "rows_of (db_view d) (prefix [code])"
  have rows: "r \<in> set ?rows \<longleftrightarrow> db_view d (row_key r) = Some (row_value r) \<and> prefix [code] (row_key r)" for r
    by (rule set_rows_of [OF db_reads(1) [OF assms(1)]])
  have parse: "rmap br_hash (block_row_from r) = Inr (hash_of_bytes (tl (row_key r)))"
    if "r \<in> set ?rows" for r
  proof -
    from that rows assms(2) obtain h where "row_key r = code # hash_bytes h"
      by (fastforce simp: marks_wf_def)
    then show ?thesis by (simp add: block_row_from_key)
  qed
  have "load_blockhashes d [code] = rmap set (collect (map (\<lambda>r. rmap br_hash (block_row_from r)) ?rows))"
    by (simp add: load_blockhashes_def iter_scan_view [OF assms(1)] comp_def)
  also have "map (\<lambda>r. rmap br_hash (block_row_from r)) ?rows = map (\<lambda>r. Inr (hash_of_bytes (tl (row_key r)))) ?rows"
    using parse by simp
  finally have "load_blockhashes d [code] = Inr ((\<lambda>r. hash_of_bytes (tl (row_key r))) ` set ?rows)"
    by simp
  moreover have "(\<lambda>r. hash_of_bytes (tl (row_key r))) ` set ?rows = marked code (db_view d)"
  proof (intro equalityI subsetI)
    fix h assume "h \<in> (\<lambda>r. hash_of_bytes (tl (row_key r))) ` set ?rows"
    then obtain r where r: "r \<in> set ?rows" "h = hash_of_bytes (tl (row_key r))" by blast
    with rows assms(2) obtain h' where h': "row_key r = code # hash_bytes h'"
      by (fastforce simp: marks_wf_def)
    with r rows show "h \<in> marked code (db_view d)" by (auto simp: marked_def)
  next
    fix h assume "h \<in> marked code (db_view d)"
    then obtain v where "db_view d (code # hash_bytes h) = Some v" by (auto simp: marked_def)
    then have "\<lparr>row_key = code # hash_bytes h, row_value = v\<rparr> \<in> set ?rows" by (simp add: rows)
    then show "h \<in> (\<lambda>r. hash_of_bytes (tl (row_key r))) ` set ?rows" by force
  qed
  ultimately show ?thesis by simp
qed

lemma add_row_codes:
  "is_add_row B c b r \<Longrightarrow> prefix [0x44] (row_key r) \<Longrightarrow> row_key r = 0x44 # hash_bytes (block_hash_of b)"
  by (elim is_add_row_def [THEN iffD1, elim_format] tx_add_row_def [THEN iffD1, elim_format] disjE exE conjE)
    (auto simp: tx_row_def tx_out_row_def row_simps new_txids_def new_meta_def new_header_def new_done_def)

lemma index_row_codes:
  "is_index_row B c m b r \<Longrightarrow> prefix [0x44] (row_key r) \<Longrightarrow> row_key r = 0x44 # hash_bytes (block_hash_of b)"
  "is_index_row B c m b r \<Longrightarrow> \<not> prefix [0x75] (row_key r)"
  by (elim is_index_row_def [THEN iffD1, elim_format] tx_fund_row_def [THEN iffD1, elim_format]
      tx_spend_row_def [THEN iffD1, elim_format] disjE exE conjE;
    auto simp: tx_conf_row_def tx_edge_row_def history_into_row_def row_simps funding_row_def spending_row_def
      tx_history_row_new_def done_row_def new_done_def)+


text \<open>
  The state invariant: the stores work, the in-memory sets are the done-markers of the two
  databases, and the header list is consistent.
\<close>

definition store_inv :: "'db store \<Rightarrow> bool" where
  "store_inv st \<longleftrightarrow>
     db_ok (txstore_db st) \<and> db_ok (history_db st) \<and> db_ok (cache_db st) \<and>
     marks_wf 0x44 (db_view (txstore_db st)) \<and> marks_wf 0x44 (db_view (history_db st)) \<and>
     marks_wf 0x75 (db_view (history_db st)) \<and>
     added_blockhashes st = marked 0x44 (db_view (txstore_db st)) \<and>
     indexed_blockhashes st = marked 0x44 (db_view (history_db st)) \<and>
     hl_inv (indexed_headers st)"

lemma store_invD:
  assumes "store_inv st"
  shows "db_ok (txstore_db st)" "db_ok (history_db st)" "db_ok (cache_db st)"
    "marks_wf 0x44 (db_view (txstore_db st))" "marks_wf 0x44 (db_view (history_db st))"
    "marks_wf 0x75 (db_view (history_db st))"
    "added_blockhashes st = marked 0x44 (db_view (txstore_db st))"
    "indexed_blockhashes st = marked 0x44 (db_view (history_db st))" "hl_inv (indexed_headers st)"
  using assms by (simp_all add: store_inv_def)

lemma write_rows_dom:
  assumes "db_ok d"
  shows "\<exists>d'. write_rows d rows fl = Inr d' \<and> db_ok d' \<and> dom (db_view d') = dom (db_view d) \<union> row_key ` set rows"
  using write_batch_view [OF assms, of "map (\<lambda>r. Put (row_key r) (row_value r)) (sort_key row_key rows)" fl]
  by (auto simp: write_rows_def fold_puts dom_rows_map)

lemma marked_insert:
  assumes "dom m' = dom m \<union> K" and "marks_wf code m" and "\<And>k. k \<in> K \<Longrightarrow> prefix [code] k \<Longrightarrow> \<exists>h \<in> H. k = code # hash_bytes h"
    and "\<And>h. h \<in> H \<Longrightarrow> code # hash_bytes h \<in> K"
  shows "marks_wf code m'" and "marked code m' = marked code m \<union> H"
proof -
  show "marks_wf code m'"
    using assms(2) unfolding marks_wf_def assms(1) by (blast dest: assms(3))
  show "marked code m' = marked code m \<union> H"
    using assms(3,4) by (auto simp: marked_def assms(1)) fastforce
qed

lemma done_row_in_add:
  assumes "add_blocks B c bs = Inr rows" and "b \<in> set bs"
  shows "0x44 # hash_bytes (block_hash_of b) \<in> row_key ` set rows"
proof -
  have "is_add_row B c b (block_row_into (new_done (block_hash_of b)))" by (simp add: is_add_row_def)
  with assms have "block_row_into (new_done (block_hash_of b)) \<in> set rows"
    by (auto simp: set_add_blocks)
  then show ?thesis by (force simp: block_row_into_def new_done_def)
qed

lemma add_op_inv:
  assumes "store_inv st" and "add_op B c fl st bs = Inr st'"
  shows "store_inv st'" and "added_blockhashes st' = added_blockhashes st \<union> block_hash_of ` set bs"
    and "history_db st' = history_db st" and "indexed_blockhashes st' = indexed_blockhashes st"
    and "indexed_headers st' = indexed_headers st" and "cache_db st' = cache_db st"
proof -
  note inv = store_invD [OF assms(1)]
  from assms(2) obtain rows d where rows: "add_blocks B c bs = Inr rows" "write_rows (txstore_db st) rows fl = Inr d"
    and st': "st' = st\<lparr>txstore_db := d, added_blockhashes := added_blockhashes st \<union> block_hash_of ` set bs\<rparr>"
    by (auto simp: add_op_def res_iffs)
  from write_rows_dom [OF inv(1), of rows fl] rows(2)
  have d: "db_ok d" "dom (db_view d) = dom (db_view (txstore_db st)) \<union> row_key ` set rows" by auto
  have "\<exists>h \<in> block_hash_of ` set bs. k = 0x44 # hash_bytes h" if "k \<in> row_key ` set rows" "prefix [0x44] k" for k
    using that add_row_codes by (fastforce simp: set_add_blocks [OF rows(1)])
  moreover have "0x44 # hash_bytes h \<in> row_key ` set rows" if "h \<in> block_hash_of ` set bs" for h
    using that done_row_in_add [OF rows(1)] by blast
  ultimately have "marks_wf 0x44 (db_view d)" "marked 0x44 (db_view d) = marked 0x44 (db_view (txstore_db st)) \<union> block_hash_of ` set bs"
    using marked_insert [OF d(2) inv(4), of "block_hash_of ` set bs"] by blast+
  with inv d(1) show "store_inv st'" by (simp add: store_inv_def st')
qed (use assms(2) in \<open>auto simp: add_op_def res_iffs\<close>)


text \<open>The batch of \<open>index\<close>: the rows are put, then the undo markers of the blocks are deleted.\<close>

definition undo_keys :: "block_entry list \<Rightarrow> bytes set" where
  "undo_keys bs = (\<lambda>b. undo_marker_key (block_hash_of b)) ` set bs"

lemma fold_undo_deletes:
  "fold apply_op (map (\<lambda>b. Delete (undo_marker_key (block_hash_of b))) bs) m = m |` (- undo_keys bs)"
proof (induction bs arbitrary: m)
  case (Cons b bs)
  have "m(undo_marker_key (block_hash_of b) := None) |` (- undo_keys bs) = m |` (- undo_keys (b # bs))"
    by (auto simp: restrict_map_def fun_eq_iff undo_keys_def)
  then show ?case by (simp only: list.map fold_simps apply_op_simps Cons.IH)
qed (simp add: undo_keys_def restrict_map_def)

lemma index_op_view:
  assumes "store_inv st" and "index_op B c fl st bs = Inr st'"
  shows "\<exists>rows. index_rows B c st bs = Inr rows \<and> db_ok (history_db st') \<and>
    db_view (history_db st') = (db_view (history_db st) ++ rows_map (rev (sort_key row_key rows))) |` (- undo_keys bs) \<and>
    st' = st\<lparr>history_db := history_db st', indexed_blockhashes := indexed_blockhashes st \<union> block_hash_of ` set bs\<rparr>"
proof -
  from assms(2) obtain rows d where rows: "index_rows B c st bs = Inr rows"
    and d: "write_batch (history_db st) (map (\<lambda>r. Put (row_key r) (row_value r)) (sort_key row_key rows) @
            map (\<lambda>b. Delete (undo_marker_key (block_hash_of b))) bs) fl = Inr d"
    and st': "st' = st\<lparr>history_db := d, indexed_blockhashes := indexed_blockhashes st \<union> block_hash_of ` set bs\<rparr>"
    by (auto simp: index_op_def res_iffs)
  from write_batch_Inr [OF d store_invD(2) [OF assms(1)]]
  have "db_ok d" "db_view d = (db_view (history_db st) ++ rows_map (rev (sort_key row_key rows))) |` (- undo_keys bs)"
    by (simp_all only: fold_append comp_apply fold_puts fold_undo_deletes)
  with rows st' show ?thesis by (intro exI [of _ rows]) simp
qed

lemma index_rows_Inr:
  assumes "index_rows B c st bs = Inr rows"
  shows "\<exists>m. lookup_txos B (txstore_db st) (get_previous_txos B bs) = Inr m \<and> index_blocks B c bs m = Inr rows \<and>
    block_hash_of ` set bs \<subseteq> added_blockhashes st"
proof (cases "lookup_txos B (txstore_db st) (get_previous_txos B bs)")
  case (Inl e)
  with assms show ?thesis by (simp add: index_rows_def)
next
  case (Inr m)
  with assms show ?thesis by (auto simp: index_rows_def split: if_splits)
qed

lemma done_row_in_index:
  assumes "index_blocks B c bs m = Inr rows" and "b \<in> set bs"
  shows "0x44 # hash_bytes (block_hash_of b) \<in> row_key ` set rows"
proof -
  have "is_index_row B c m b (done_row (block_hash_of b) (height32 b))" by (simp add: is_index_row_def)
  with assms have "done_row (block_hash_of b) (height32 b) \<in> set rows"
    by (auto simp: set_index_blocks)
  then show ?thesis by (force simp: done_row_def block_row_into_def new_done_def)
qed

lemma index_op_inv:
  assumes "store_inv st" and "index_op B c fl st bs = Inr st'"
  shows "store_inv st'" and "indexed_blockhashes st' = indexed_blockhashes st \<union> block_hash_of ` set bs"
    and "txstore_db st' = txstore_db st" and "added_blockhashes st' = added_blockhashes st"
    and "indexed_headers st' = indexed_headers st" and "cache_db st' = cache_db st"
proof -
  note inv = store_invD [OF assms(1)]
  from index_op_view [OF assms] obtain rows where rows: "index_rows B c st bs = Inr rows"
    and d: "db_ok (history_db st')"
    and v: "db_view (history_db st') = (db_view (history_db st) ++ rows_map (rev (sort_key row_key rows))) |` (- undo_keys bs)"
    and st': "st' = st\<lparr>history_db := history_db st', indexed_blockhashes := indexed_blockhashes st \<union> block_hash_of ` set bs\<rparr>"
    by blast
  from index_rows_Inr [OF rows] obtain m where m: "index_blocks B c bs m = Inr rows" by blast
  let ?old = "db_view (history_db st)" and ?new = "db_view (history_db st')"
  have dm: "dom ?new = (dom ?old \<union> row_key ` set rows) - undo_keys bs"
    by (auto simp: v dom_rows_map)
  have u: "\<not> prefix [0x44] k" if "k \<in> undo_keys bs" for k
    using that by (auto simp: undo_keys_def undo_marker_key_def)
  have uu: "prefix [0x75] k" if "k \<in> undo_keys bs" for k
    using that by (auto simp: undo_keys_def undo_marker_key_def)
  have rk: "is_index_row B c m b r \<Longrightarrow> prefix [0x44] (row_key r) \<Longrightarrow> row_key r = 0x44 # hash_bytes (block_hash_of b)" for b r
    by (rule index_row_codes)
  have done44: "\<exists>h \<in> block_hash_of ` set bs. k = 0x44 # hash_bytes h" if "k \<in> row_key ` set rows" "prefix [0x44] k" for k
    using that rk by (fastforce simp: set_index_blocks [OF m])
  have "marks_wf 0x44 ?new"
    using inv(5) done44 unfolding marks_wf_def dm by blast
  moreover have "marks_wf 0x75 ?new"
    using inv(6) index_row_codes(2) unfolding marks_wf_def dm by (fastforce simp: set_index_blocks [OF m])
  moreover have "marked 0x44 ?new = marked 0x44 ?old \<union> block_hash_of ` set bs"
  proof (intro equalityI subsetI)
    fix h assume "h \<in> marked 0x44 ?new"
    then have "0x44 # hash_bytes h \<in> dom ?old \<union> row_key ` set rows" by (auto simp: marked_def dm)
    then show "h \<in> marked 0x44 ?old \<union> block_hash_of ` set bs"
      using done44 [of "0x44 # hash_bytes h"] by (auto simp: marked_def)
  next
    fix h assume "h \<in> marked 0x44 ?old \<union> block_hash_of ` set bs"
    then have "0x44 # hash_bytes h \<in> dom ?old \<union> row_key ` set rows"
      using done_row_in_index [OF m] by (auto simp: marked_def)
    moreover have "0x44 # hash_bytes h \<notin> undo_keys bs" using u by fastforce
    ultimately show "h \<in> marked 0x44 ?new" by (simp add: marked_def dm)
  qed
  moreover have same: "txstore_db st' = txstore_db st" "added_blockhashes st' = added_blockhashes st"
    "indexed_headers st' = indexed_headers st" "cache_db st' = cache_db st"
    "indexed_blockhashes st' = indexed_blockhashes st \<union> block_hash_of ` set bs"
    by (subst st', simp)+
  ultimately show "store_inv st'" using inv d by (simp add: store_inv_def same)
  show "txstore_db st' = txstore_db st" "added_blockhashes st' = added_blockhashes st"
    "indexed_headers st' = indexed_headers st" "cache_db st' = cache_db st"
    "indexed_blockhashes st' = indexed_blockhashes st \<union> block_hash_of ` set bs"
    by (fact same)+
qed


section \<open>Looking up previous outputs\<close>

lemma lookup_txos_spec:
  assumes "db_ok d" and "finite ps"
  shows "lookup_txos B d ps = Inr m \<Longrightarrow> p \<in> ps \<Longrightarrow> \<exists>txo. m p = Some txo \<and> lookup_txo B d p = Inr (Some txo)"
    and "\<forall>p \<in> ps. \<exists>txo. lookup_txo B d p = Inr (Some txo) \<Longrightarrow> \<exists>m. lookup_txos B d ps = Inr m"
proof -
  define l where "l = sorted_list_of_set ps"
  define f where "f = (\<lambda>p. rbind (ok_or (MissingTxo p) (db_view d (tx_out_key p))) (\<lambda>raw.
            rmap (\<lambda>txo. (p, txo)) (ok_or (Msg ''failed to parse TxOut'') (deser_txout B raw))))"
  have l: "lookup_txos B d ps = rmap map_of (collect (map f l))"
    by (simp add: lookup_txos_def Let_def db_reads [OF assms(1)] zip_map1 zip_same_conv_map comp_def l_def f_def)
  have f: "f p = Inr y \<longleftrightarrow> fst y = p \<and> lookup_txo B d p = Inr (Some (snd y))" for p y
    by (cases "db_view d (tx_out_key p)"; cases y) (auto simp: f_def lookup_txo_def db_reads [OF assms(1)] res_iffs)
  have set_l: "set l = ps" using assms(2) by (simp add: l_def)
  show "\<exists>txo. m p = Some txo \<and> lookup_txo B d p = Inr (Some txo)"
    if m: "lookup_txos B d ps = Inr m" and p: "p \<in> ps"
  proof -
    from m obtain ys where ys: "list_all2 (\<lambda>p y. fst y = p \<and> lookup_txo B d p = Inr (Some (snd y))) l ys" "m = map_of ys"
      by (auto simp: l res_iffs collect_map_iff f)
    from p set_l obtain i where i: "i < length l" "l ! i = p" by (metis in_set_conv_nth)
    with list_all2_nthD [OF ys(1)] list_all2_lengthD [OF ys(1)] have "ys ! i \<in> set ys" "fst (ys ! i) = p" by simp_all
    then have "map_of ys p \<noteq> None" unfolding map_of_eq_None_iff by blast
    then obtain txo where txo: "m p = Some txo" unfolding ys(2) by blast
    then have "(p, txo) \<in> set ys" unfolding ys(2) by (rule map_of_SomeD)
    then have "lookup_txo B d p = Inr (Some txo)"
      using ys(1) by (fastforce simp: list_all2_conv_all_nth in_set_conv_nth)
    with txo show ?thesis by blast
  qed
  show "\<exists>m. lookup_txos B d ps = Inr m" if "\<forall>p \<in> ps. \<exists>txo. lookup_txo B d p = Inr (Some txo)"
  proof -
    have "\<forall>x \<in> set l. \<exists>y. f x = Inr y" using that by (simp add: set_l f)
    then obtain ys where "collect (map f l) = Inr ys" unfolding collect_map_total [symmetric] by blast
    then show ?thesis by (simp add: l)
  qed
qed

lemma finite_previous_txos [simp]: "finite (get_previous_txos B bs)"
  by (simp add: get_previous_txos_def)

lemma previous_txo_in:
  assumes "b \<in> set bs" and "(tx, txid) \<in> set (block_txs b)" and "txi \<in> set (tx_input tx)" and "has_prevout B txi"
  shows "previous_output txi \<in> get_previous_txos B bs"
proof -
  have "tx \<in> set (txdata (be_block b))" using assms(2) by (rule set_zip_leftD)
  with assms(1,3,4) show ?thesis by (force simp: get_previous_txos_def)
qed

section \<open>The history index after a batch\<close>

text \<open>
  Blocks of one chain: a transaction is in one block, an output is spent once, a hash names one
  block.
\<close>

definition batch_unique :: "bitcoin_lib \<Rightarrow> block_entry list \<Rightarrow> bool" where
  "batch_unique B bs \<longleftrightarrow>
     (\<forall>b \<in> set bs. \<forall>b' \<in> set bs. \<forall>tx tx' txid txid'.
        (tx, txid) \<in> set (block_txs b) \<longrightarrow> (tx', txid') \<in> set (block_txs b') \<longrightarrow>
        (txid = txid' \<longrightarrow> height32 b = height32 b') \<and>
        (\<forall>i < length (tx_input tx). \<forall>j < length (tx_input tx').
           has_prevout B (tx_input tx ! i) \<longrightarrow> previous_output (tx_input tx ! i) = previous_output (tx_input tx' ! j) \<longrightarrow>
           height32 b = height32 b' \<and> txid = txid' \<and> i = j)) \<and>
     (\<forall>b \<in> set bs. \<forall>b' \<in> set bs. block_hash_of b = block_hash_of b' \<longrightarrow> height32 b = height32 b')"

text \<open>The four kinds of history rows, by their key.\<close>

lemma index_row_kinds:
  assumes "is_index_row B c m b r"
  obtains (hist) k where "hk_code k = 0x48" "r = history_into_row k"
    | (conf) tx txid where "(tx, txid) \<in> set (block_txs b)" "r = tx_conf_row txid (height32 b)"
    | (edge) tx txid i where "(tx, txid) \<in> set (block_txs b)" "i < length (tx_input tx)"
        "has_prevout B (tx_input tx ! i)"
        "r = tx_edge_row (op_txid (previous_output (tx_input tx ! i))) (op_vout (previous_output (tx_input tx ! i)))
           txid (of_nat i) (height32 b)"
    | (marker) "r = done_row (block_hash_of b) (height32 b)"
proof -
  consider tx txid where "(tx, txid) \<in> set (block_txs b)" "r = tx_conf_row txid (height32 b)"
    | tx txid where "tx_fund_row B c (height32 b) tx txid r"
    | tx txid where "(tx, txid) \<in> set (block_txs b)" "tx_spend_row B m (height32 b) tx txid r"
    | "r = done_row (block_hash_of b) (height32 b)"
    using assms unfolding is_index_row_def by blast
  then show thesis
  proof cases
    case (2 tx txid)
    then obtain i where "r = history_into_row (funding_row B txid (height32 b) (of_nat i, tx_output tx ! i))"
      unfolding tx_fund_row_def by blast
    then show thesis by (rule hist [rotated]) (simp add: funding_row_def tx_history_row_new_def)
  next
    case (3 tx txid)
    then obtain i prev where "i < length (tx_input tx)" "has_prevout B (tx_input tx ! i)"
      and r: "r = history_into_row (spending_row B txid (height32 b) (of_nat i) (previous_output (tx_input tx ! i)) prev) \<or>
        r = tx_edge_row (op_txid (previous_output (tx_input tx ! i))) (op_vout (previous_output (tx_input tx ! i)))
           txid (of_nat i) (height32 b)"
      unfolding tx_spend_row_def by blast
    moreover have "hk_code (spending_row B txid (height32 b) (of_nat i) (previous_output (tx_input tx ! i)) prev) = 0x48"
      by (simp add: spending_row_def tx_history_row_new_def)
    ultimately show thesis using 3(1) hist edge by blast
  qed (use conf marker in blast)+
qed

lemma index_row_heads:
  "hd (row_key (history_into_row k)) = hk_code k" "hd (row_key (tx_conf_row t h)) = 0x43"
  "hd (row_key (tx_edge_row f v t i h)) = 0x53" "hd (row_key (done_row bh h)) = 0x44"
  "row_value (history_into_row k) = []"
  by (simp_all add: history_into_row_def put_history_key_def tx_conf_row_def tx_conf_key_def tx_edge_row_def
    tx_edge_key_def done_row_def block_row_into_def new_done_def)

lemma index_row_key_eqs:
  "row_key (tx_conf_row t h) = row_key (tx_conf_row t' h') \<longleftrightarrow> t = t'"
  "row_key (tx_edge_row (op_txid (p::outpoint)) (op_vout p) t i h) = row_key (tx_edge_row (op_txid p') (op_vout p') t' i' h') \<longleftrightarrow> p = p'"
  "row_key (done_row bh h) = row_key (done_row bh' h') \<longleftrightarrow> bh = bh'"
  by (simp_all add: tx_conf_row_def tx_edge_row_def done_row_def block_row_into_def new_done_def)
    (cases p; cases p'; simp)

lemma batch_uniqueD:
  assumes "batch_unique B bs" and "b \<in> set bs" and "b' \<in> set bs"
  shows "(tx, txid) \<in> set (block_txs b) \<Longrightarrow> (tx', txid) \<in> set (block_txs b') \<Longrightarrow> height32 b = height32 b'"
    and "(tx, txid) \<in> set (block_txs b) \<Longrightarrow> (tx', txid') \<in> set (block_txs b') \<Longrightarrow>
      i < length (tx_input tx) \<Longrightarrow> j < length (tx_input tx') \<Longrightarrow> has_prevout B (tx_input tx ! i) \<Longrightarrow>
      previous_output (tx_input tx ! i) = previous_output (tx_input tx' ! j) \<Longrightarrow>
      height32 b = height32 b' \<and> txid = txid' \<and> i = j"
    and "block_hash_of b = block_hash_of b' \<Longrightarrow> height32 b = height32 b'"
  using assms unfolding batch_unique_def by fast+

lemma index_rows_consistent:
  assumes "index_blocks B c bs m = Inr rows" and "batch_unique B bs"
  shows "consistent rows"
  unfolding consistent_def
proof (intro ballI impI)
  fix r r' assume "r \<in> set rows" "r' \<in> set rows" and key: "row_key r = row_key r'"
  then obtain b b' where b: "b \<in> set bs" "is_index_row B c m b r" and b': "b' \<in> set bs" "is_index_row B c m b' r'"
    unfolding set_index_blocks [OF assms(1)] by blast
  from key have hd: "hd (row_key r) = hd (row_key r')" by simp
  from b(2) show "row_value r = row_value r'"
  proof (cases rule: index_row_kinds)
    case (hist k)
    from b'(2) show ?thesis using hd hist by (cases rule: index_row_kinds) (simp_all add: index_row_heads)
  next
    case (conf tx txid)
    from b'(2) show ?thesis
    proof (cases rule: index_row_kinds)
      case c: (conf tx' txid')
      from key have "txid = txid'" unfolding conf(2) c(2) index_row_key_eqs .
      moreover have "height32 b = height32 b'"
        by (rule batch_uniqueD(1) [OF assms(2) b(1) b'(1) conf(1) c(1) [folded calculation]])
      ultimately show ?thesis unfolding conf(2) c(2) by simp
    qed (use hd conf(2) in \<open>simp_all add: index_row_heads\<close>)
  next
    case (edge tx txid i)
    from b'(2) show ?thesis
    proof (cases rule: index_row_kinds)
      case e: (edge tx' txid' j)
      let ?p = "previous_output (tx_input tx ! i)" and ?p' = "previous_output (tx_input tx' ! j)"
      from key have p: "?p = ?p'" unfolding edge(4) e(4) index_row_key_eqs .
      have "height32 b = height32 b' \<and> txid = txid' \<and> i = j"
        by (rule batch_uniqueD(2) [OF assms(2) b(1) b'(1) edge(1) e(1) edge(2) e(2) edge(3) p])
      with p show ?thesis unfolding edge(4) e(4) by simp
    qed (use hd edge(4) in \<open>simp_all add: index_row_heads\<close>)
  next
    case marker
    from b'(2) show ?thesis
    proof (cases rule: index_row_kinds)
      case d: marker
      from key have "block_hash_of b = block_hash_of b'" unfolding marker d index_row_key_eqs .
      moreover have "height32 b = height32 b'"
        by (rule batch_uniqueD(3) [OF assms(2) b(1) b'(1) calculation])
      ultimately show ?thesis unfolding marker d by simp
    qed (use hd marker in \<open>simp_all add: index_row_heads\<close>)
  qed
qed




lemma index_op_rows:
  assumes "store_inv st" and "index_op B c fl st bs = Inr st'" and "batch_unique B bs"
  shows "\<exists>m. lookup_txos B (txstore_db st) (get_previous_txos B bs) = Inr m \<and>
    (\<forall>b \<in> set bs. \<forall>r. is_index_row B c m b r \<longrightarrow> db_view (history_db st') (row_key r) = Some (row_value r))"
proof -
  from index_op_view [OF assms(1,2)] obtain rows where rows: "index_rows B c st bs = Inr rows"
    and v: "db_view (history_db st') = (db_view (history_db st) ++ rows_map (rev (sort_key row_key rows))) |` (- undo_keys bs)"
    by blast
  from index_rows_Inr [OF rows] obtain m where m: "lookup_txos B (txstore_db st) (get_previous_txos B bs) = Inr m"
    "index_blocks B c bs m = Inr rows" by blast
  have "consistent rows" by (rule index_rows_consistent [OF m(2) assms(3)])
  then have cons: "consistent (rev (sort_key row_key rows))" unfolding consistent_def by (simp only: set_rev set_sort)
  have "db_view (history_db st') (row_key r) = Some (row_value r)" if b: "b \<in> set bs" and r: "is_index_row B c m b r" for b r
  proof -
    have "r \<in> set (rev (sort_key row_key rows))" using b r by (simp only: set_rev set_sort set_index_blocks [OF m(2)]) blast
    then have "(db_view (history_db st) ++ rows_map (rev (sort_key row_key rows))) (row_key r) = Some (row_value r)"
      by (rule add_rows_in [OF cons])
    moreover have "prefix [0x75] k" if "k \<in> undo_keys bs" for k
      using that by (auto simp: undo_keys_def undo_marker_key_def)
    then have "row_key r \<notin> undo_keys bs" using index_row_codes(2) [OF r] by blast
    ultimately show ?thesis unfolding v by simp
  qed
  with m(1) show ?thesis by blast
qed

section \<open>The transaction store after a batch\<close>

text \<open>
  A txid names one transaction and a hash one block; a transaction has fewer than \<open>2\<^sup>32\<close> outputs.
\<close>

definition batch_ids :: "block_entry list \<Rightarrow> bool" where
  "batch_ids bs \<longleftrightarrow>
     (\<forall>b \<in> set bs. \<forall>b' \<in> set bs. \<forall>tx tx' txid.
        (tx, txid) \<in> set (block_txs b) \<longrightarrow> (tx', txid) \<in> set (block_txs b') \<longrightarrow> tx = tx') \<and>
     (\<forall>b \<in> set bs. \<forall>b' \<in> set bs. block_hash_of b = block_hash_of b' \<longrightarrow> b = b') \<and>
     (\<forall>b \<in> set bs. \<forall>tx \<in> set (txdata (be_block b)). length (tx_output tx) < 2 ^ 32)"

lemma batch_idsD:
  assumes "batch_ids bs" and "b \<in> set bs"
  shows "b' \<in> set bs \<Longrightarrow> (tx, txid) \<in> set (block_txs b) \<Longrightarrow> (tx', txid) \<in> set (block_txs b') \<Longrightarrow> tx = tx'"
    and "b' \<in> set bs \<Longrightarrow> block_hash_of b = block_hash_of b' \<Longrightarrow> b = b'"
    and "tx \<in> set (txdata (be_block b)) \<Longrightarrow> length (tx_output tx) < 2 ^ 32"
proof -
  note ids = assms(1) [unfolded batch_ids_def]
  show "b' \<in> set bs \<Longrightarrow> (tx, txid) \<in> set (block_txs b) \<Longrightarrow> (tx', txid) \<in> set (block_txs b') \<Longrightarrow> tx = tx'"
    using ids [THEN conjunct1] assms(2) by blast
  show "b' \<in> set bs \<Longrightarrow> block_hash_of b = block_hash_of b' \<Longrightarrow> b = b'"
    using ids [THEN conjunct2, THEN conjunct1] assms(2) by blast
  show "tx \<in> set (txdata (be_block b)) \<Longrightarrow> length (tx_output tx) < 2 ^ 32"
    using ids [THEN conjunct2, THEN conjunct2] assms(2) by blast
qed

definition block_rows_of :: "bitcoin_lib \<Rightarrow> block_entry \<Rightarrow> block_row set" where
  "block_rows_of B b = {new_txids B (block_hash_of b) (be_txids b), new_meta (block_hash_of b) (block_meta_from B b),
     new_header B b, new_done (block_hash_of b)}"

lemma add_row_heads:
  "hd (row_key (tx_row B txid t)) = 0x54" "hd (row_key (tx_out_row B txid i txo)) = 0x4f"
  "x \<in> block_rows_of B b \<Longrightarrow> hd (row_key (block_row_into x)) \<notin> {0x54, 0x4f, 0x61}"
  by (auto simp: tx_row_def tx_row_key_def tx_out_row_def tx_out_key_def block_row_into_def block_rows_of_def
    new_txids_def new_meta_def new_header_def new_done_def)

lemma add_row_kinds:
  assumes "is_add_row B c b r"
  obtains (tx) tx txid where "(tx, txid) \<in> set (block_txs b)" "r = tx_row B txid tx" "hd (row_key r) = 0x54"
    | (out) tx txid i where "(tx, txid) \<in> set (block_txs b)" "i < length (tx_output tx)"
        "r = tx_out_row B txid i (tx_output tx ! i)" "hd (row_key r) = 0x4f" "is_spendable B (tx_output tx ! i)"
    | (addr) a where "r = \<lparr>row_key = 0x61 # a, row_value = []\<rparr>" "hd (row_key r) = 0x61"
    | (block) x where "x \<in> block_rows_of B b" "r = block_row_into x" "hd (row_key r) \<notin> {0x54, 0x4f, 0x61}"
proof -
  have a: "\<exists>a. r = \<lparr>row_key = 0x61 # a, row_value = []\<rparr> \<and> hd (row_key r) = 0x61"
    if "addr_search_row B spk n = Some r" for spk n
  proof -
    from that obtain a where "r = \<lparr>row_key = 0x61 # a, row_value = []\<rparr>"
      unfolding addr_search_row_def map_option_eq_Some by blast
    then show ?thesis by simp
  qed
  consider t txid where "(t, txid) \<in> set (block_txs b)" "tx_add_row B c t txid r"
    | x where "x \<in> block_rows_of B b" "r = block_row_into x"
    using assms unfolding is_add_row_def block_rows_of_def by blast
  then show thesis
  proof cases
    case (1 t txid)
    from 1(2) consider "r = tx_row B txid t"
      | i where "i < length (tx_output t)" "r = tx_out_row B txid i (tx_output t ! i)" "is_spendable B (tx_output t ! i)"
      | i where "addr_search_row B (script_pubkey (tx_output t ! i)) (ic_network c) = Some r"
      unfolding tx_add_row_def by blast
    then show thesis
      by cases (use 1(1) a tx out addr add_row_heads(1,2) in blast)+
  next
    case (2 x)
    then show thesis using block add_row_heads(3) by blast
  qed
qed

lemma add_row_key_eqs:
  "row_key (tx_row B t x) = row_key (tx_row B t' x') \<longleftrightarrow> t = t'"
  "i < 2 ^ 32 \<Longrightarrow> j < 2 ^ 32 \<Longrightarrow>
     row_key (tx_out_row B t i y) = row_key (tx_out_row B t' j y') \<longleftrightarrow> t = t' \<and> i = j"
  "row_key (block_row_into r) = row_key (block_row_into r') \<longleftrightarrow> br_code r = br_code r' \<and> br_hash r = br_hash r'"
  by (simp_all add: tx_row_def tx_out_row_def block_row_into_def of_nat_u32_inject)

lemma block_rows_of_code:
  "x \<in> block_rows_of B b \<Longrightarrow> x' \<in> block_rows_of B b \<Longrightarrow> br_code x = br_code x' \<Longrightarrow> x = x'"
  "x \<in> block_rows_of B b \<Longrightarrow> br_hash x = block_hash_of b"
  by (auto simp: block_rows_of_def new_txids_def new_meta_def new_header_def new_done_def)

lemma add_rows_consistent:
  assumes "add_blocks B c bs = Inr rows" and "batch_ids bs"
  shows "consistent rows"
  unfolding consistent_def
proof (intro ballI impI)
  fix r r' assume "r \<in> set rows" "r' \<in> set rows" and key: "row_key r = row_key r'"
  then obtain b b' where b: "b \<in> set bs" "is_add_row B c b r" and b': "b' \<in> set bs" "is_add_row B c b' r'"
    unfolding set_add_blocks [OF assms(1)] by blast
  from key have hd: "hd (row_key r) = hd (row_key r')" by simp
  from b(2) show "row_value r = row_value r'"
  proof (cases rule: add_row_kinds)
    case (tx t txid)
    from b'(2) show ?thesis
    proof (cases rule: add_row_kinds)
      case t: (tx t' txid')
      from key have "txid = txid'" unfolding tx(2) t(2) add_row_key_eqs .
      moreover have "t = t'" by (rule batch_idsD(1) [OF assms(2) b(1) b'(1) tx(1) t(1) [folded calculation]])
      ultimately show ?thesis unfolding tx(2) t(2) by simp
    qed (use hd tx(3) in \<open>simp_all\<close>)
  next
    case (out t txid i)
    from b'(2) show ?thesis
    proof (cases rule: add_row_kinds)
      case o: (out t' txid' j)
      have "i < 2 ^ 32" "j < 2 ^ 32"
        using out(2) o(2) batch_idsD(3) [OF assms(2) b(1) set_zip_leftD [OF out(1)]] batch_idsD(3) [OF assms(2) b'(1) set_zip_leftD [OF o(1)]] by simp_all
      from key have ij: "txid = txid' \<and> i = j"
        unfolding out(3) o(3) add_row_key_eqs(2) [OF \<open>i < 2 ^ 32\<close> \<open>j < 2 ^ 32\<close>] .
      have "t = t'" by (rule batch_idsD(1) [OF assms(2) b(1) b'(1) out(1) o(1) [folded ij [THEN conjunct1]]])
      with ij show ?thesis unfolding out(3) o(3) by simp
    qed (use hd out(4) in \<open>simp_all\<close>)
  next
    case (addr a)
    from b'(2) show ?thesis
      by (cases rule: add_row_kinds) (use hd addr in \<open>simp_all\<close>)
  next
    case (block x)
    from b'(2) show ?thesis
    proof (cases rule: add_row_kinds)
      case x: (block x')
      from key have *: "br_code x = br_code x' \<and> br_hash x = br_hash x'" unfolding block(2) x(2) add_row_key_eqs .
      with block_rows_of_code(2) block(1) x(1) have "block_hash_of b = block_hash_of b'" by metis
      then have "b = b'" by (rule batch_idsD(2) [OF assms(2) b(1) b'(1)])
      with * block_rows_of_code(1) [OF block(1)] x(1) have "x = x'" by blast
      then show ?thesis unfolding block(2) x(2) by simp
    qed (use hd block(3) in \<open>simp_all\<close>)
  qed
qed

lemma add_op_rows:
  assumes "store_inv st" and "add_op B c fl st bs = Inr st'" and "batch_ids bs"
  shows "b \<in> set bs \<Longrightarrow> is_add_row B c b r \<Longrightarrow> db_view (txstore_db st') (row_key r) = Some (row_value r)"
    and "(\<And>b r. b \<in> set bs \<Longrightarrow> is_add_row B c b r \<Longrightarrow> row_key r \<noteq> k) \<Longrightarrow>
      db_view (txstore_db st') k = db_view (txstore_db st) k"
proof -
  note inv = store_invD [OF assms(1)]
  from assms(2) obtain rows d where rows: "add_blocks B c bs = Inr rows" "write_rows (txstore_db st) rows fl = Inr d"
    and st': "txstore_db st' = d"
    by (auto simp: add_op_def res_iffs)
  have cons: "consistent rows" by (rule add_rows_consistent [OF rows(1) assms(3)])
  from db.write_view [OF inv(1) cons, of fl] rows(2) have v: "db_view d = db_view (txstore_db st) ++ rows_map rows" by auto
  show "db_view (txstore_db st') (row_key r) = Some (row_value r)" if "b \<in> set bs" "is_add_row B c b r"
    unfolding st' v by (rule add_rows_in [OF cons]) (use that in \<open>unfold set_add_blocks [OF rows(1)], blast\<close>)
  show "db_view (txstore_db st') k = db_view (txstore_db st) k"
    if "\<And>b r. b \<in> set bs \<Longrightarrow> is_add_row B c b r \<Longrightarrow> row_key r \<noteq> k"
    unfolding st' v by (rule add_rows_notin) (use that set_add_blocks [OF rows(1)] in blast)
qed

end
