(* ===== verification/Batch.thy ===== *)
theory Batch
  imports Indexer Instances
begin

text \<open>
  What processing a batch of blocks (\<open>process_block_batch\<close>) leaves in the store: the invariant,
  that a retried batch is a no-op, that reopening the databases finds the same blocks, that every
  row of the blocks is there, and when a batch is processed at all. The last sections are about
  the end of a sync: the synced tip and the delays between retries.
\<close>

section \<open>Processing a batch\<close>

lemma process_block_batch_steps:
  assumes "process_block_batch B c fl st bs = Inr st'"
  obtains st1 where
    "filter (\<lambda>b. block_hash_of b \<notin> added_blockhashes st) bs = [] \<and> st1 = st \<or>
     add_op B c fl st (filter (\<lambda>b. block_hash_of b \<notin> added_blockhashes st) bs) = Inr st1"
    "filter (\<lambda>b. block_hash_of b \<notin> indexed_blockhashes st) bs = [] \<and> st' = st1 \<or>
     index_op B c fl st1 (filter (\<lambda>b. block_hash_of b \<notin> indexed_blockhashes st) bs) = Inr st'"
  using assms unfolding process_block_batch_def Let_def
  by (cases "filter (\<lambda>b. block_hash_of b \<notin> added_blockhashes st) bs = []";
      cases "filter (\<lambda>b. block_hash_of b \<notin> indexed_blockhashes st) bs = []")
    (simp_all add: res_iffs, blast+)

lemma process_block_batch_sets:
  assumes "store_inv st" and "process_block_batch B c fl st bs = Inr st'"
  shows "store_inv st'" and "added_blockhashes st' = added_blockhashes st \<union> block_hash_of ` set bs"
    and "indexed_blockhashes st' = indexed_blockhashes st \<union> block_hash_of ` set bs"
    and "indexed_headers st' = indexed_headers st"
proof -
  let ?a = "filter (\<lambda>b. block_hash_of b \<notin> added_blockhashes st) bs"
  let ?i = "filter (\<lambda>b. block_hash_of b \<notin> indexed_blockhashes st) bs"
  from assms(2) obtain st1 where 1: "?a = [] \<and> st1 = st \<or> add_op B c fl st ?a = Inr st1"
    and 2: "?i = [] \<and> st' = st1 \<or> index_op B c fl st1 ?i = Inr st'"
    by (rule process_block_batch_steps)
  have s1: "store_inv st1 \<and> added_blockhashes st1 = added_blockhashes st \<union> block_hash_of ` set ?a \<and>
      indexed_blockhashes st1 = indexed_blockhashes st \<and> indexed_headers st1 = indexed_headers st"
    using 1
  proof
    assume "add_op B c fl st ?a = Inr st1"
    from add_op_inv [OF assms(1) this] show ?thesis by blast
  qed (use assms(1) in simp)
  have s2: "store_inv st' \<and> added_blockhashes st' = added_blockhashes st1 \<and>
      indexed_blockhashes st' = indexed_blockhashes st1 \<union> block_hash_of ` set ?i \<and> indexed_headers st' = indexed_headers st1"
    using 2
  proof
    assume "index_op B c fl st1 ?i = Inr st'"
    from index_op_inv [OF s1 [THEN conjunct1] this] show ?thesis by blast
  qed (use s1 in simp)
  show "store_inv st'" "indexed_headers st' = indexed_headers st" using s1 s2 by simp_all
  show "added_blockhashes st' = added_blockhashes st \<union> block_hash_of ` set bs"
    "indexed_blockhashes st' = indexed_blockhashes st \<union> block_hash_of ` set bs"
    using s1 s2 by auto
qed


section \<open>When a batch is processed\<close>

definition creates :: "bitcoin_lib \<Rightarrow> block_entry \<Rightarrow> outpoint \<Rightarrow> bool" where
  "creates B b p \<longleftrightarrow> (\<exists>tx txid i. (tx, txid) \<in> set (block_txs b) \<and> i < length (tx_output tx) \<and>
     is_spendable B (tx_output tx ! i) \<and> p = \<lparr>op_txid = txid, op_vout = of_nat i\<rparr>)"

lemma creates_add_row:
  assumes "creates B b p"
  shows "\<exists>r txo. is_add_row B c b r \<and> row_key r = tx_out_key p \<and> row_value r = ser_txout B txo"
proof -
  from assms obtain tx txid i where i: "(tx, txid) \<in> set (block_txs b)" "i < length (tx_output tx)"
    "is_spendable B (tx_output tx ! i)" and p: "p = \<lparr>op_txid = txid, op_vout = of_nat i\<rparr>"
    unfolding creates_def by blast
  let ?r = "tx_out_row B txid i (tx_output tx ! i)"
  from i have "is_add_row B c b ?r" unfolding is_add_row_def tx_add_row_def by blast
  moreover have "row_key ?r = tx_out_key p" "row_value ?r = ser_txout B (tx_output tx ! i)"
    by (simp_all add: tx_out_row_def p)
  ultimately show ?thesis by (intro exI [of _ ?r] exI [of _ "tx_output tx ! i"] conjI)
qed

lemma not_creates_key:
  assumes "\<not> creates B b p" and "is_add_row B c b r"
  shows "row_key r \<noteq> tx_out_key p"
proof
  assume r: "row_key r = tx_out_key p"
  then have hd: "hd (row_key r) = 0x4f" by (simp add: tx_out_key_def)
  from assms(2) show False
  proof (cases rule: add_row_kinds)
    case (out tx txid i)
    from r have "p = \<lparr>op_txid = txid, op_vout = of_nat i\<rparr>" unfolding out(3) by (simp add: tx_out_row_def)
    with out(1,2,5) assms(1) show ?thesis unfolding creates_def by blast
  qed (use hd in simp_all)
qed

lemma lookup_txo_view:
  assumes "db_ok d"
  shows "lookup_txo B d p = Inr (Some txo) \<longleftrightarrow>
    (\<exists>raw. db_view d (tx_out_key p) = Some raw \<and> deser_txout B raw = Some txo)"
  by (cases "db_view d (tx_out_key p)"; cases "deser_txout B (the (db_view d (tx_out_key p)))")
    (auto simp: lookup_txo_def db_reads [OF assms])

lemma lookup_after_add:
  assumes "store_inv st" and "add_op B c fl st bs = Inr st'" and "batch_ids bs" and "bitcoin_laws B"
  shows "(\<exists>txo. lookup_txo B (txstore_db st') p = Inr (Some txo)) \<longleftrightarrow>
    (\<exists>b \<in> set bs. creates B b p) \<or> (\<exists>txo. lookup_txo B (txstore_db st) p = Inr (Some txo))"
proof -
  have ok: "db_ok (txstore_db st)" "db_ok (txstore_db st')"
    using store_invD(1) [OF assms(1)] store_invD(1) [OF add_op_inv(1) [OF assms(1,2)]] by simp_all
  show ?thesis
  proof (cases "\<exists>b \<in> set bs. creates B b p")
    case True
    then obtain b where b: "b \<in> set bs" "creates B b p" by blast
    from creates_add_row [OF b(2)] obtain r txo where r: "is_add_row B c b r" "row_key r = tx_out_key p"
      "row_value r = ser_txout B txo" by blast
    with add_op_rows(1) [OF assms(1-3) b(1) r(1)] have "db_view (txstore_db st') (tx_out_key p) = Some (ser_txout B txo)"
      by simp
    with bitcoin_lawsD(3) [OF assms(4)] have "lookup_txo B (txstore_db st') p = Inr (Some txo)"
      unfolding lookup_txo_view [OF ok(2)] by blast
    with True show ?thesis by blast
  next
    case False
    have "db_view (txstore_db st') (tx_out_key p) = db_view (txstore_db st) (tx_out_key p)"
      using add_op_rows(2) [OF assms(1-3)] not_creates_key False by blast
    then show ?thesis using False unfolding lookup_txo_view [OF ok(1)] lookup_txo_view [OF ok(2)] by simp
  qed
qed

lemma add_op_total:
  assumes "store_inv st" and "\<forall>b \<in> set bs. length (be_txids b) = length (txdata (be_block b))"
  shows "\<exists>st'. add_op B c fl st bs = Inr st'"
proof -
  have "\<forall>b \<in> set bs. \<exists>rows. add_block B c b = Inr rows"
    using assms(2) by (simp add: add_block_def Let_def)
  then obtain rows where "add_blocks B c bs = Inr rows"
    unfolding add_blocks_def collect_map_total [symmetric] by force
  with write_rows_dom [OF store_invD(1) [OF assms(1)], of rows fl] show ?thesis
    by (auto simp: add_op_def)
qed

lemma index_op_total:
  assumes "store_inv st" and "\<forall>b \<in> set bs. length (be_txids b) = length (txdata (be_block b))"
    and "block_hash_of ` set bs \<subseteq> added_blockhashes st"
  shows "(\<exists>st'. index_op B c fl st bs = Inr st') \<longleftrightarrow>
      (\<forall>p \<in> get_previous_txos B bs. \<exists>txo. lookup_txo B (txstore_db st) p = Inr (Some txo))"
    and "(\<exists>st'. index_op B c fl st bs = Inr st') \<or> (\<exists>msg. index_op B c fl st bs = Inl (Panic msg))"
proof -
  note ok = store_invD(1) [OF assms(1)]
  let ?l = "lookup_txos B (txstore_db st) (get_previous_txos B bs)"
  have idx: "\<exists>st'. index_op B c fl st bs = Inr st'" if m: "?l = Inr m" for m
  proof -
    have "prevouts_known B m tx" if "b \<in> set bs" "(tx, txid) \<in> set (block_txs b)" for b tx txid
      unfolding prevouts_known_def
      using previous_txo_in [OF that] lookup_txos_spec(1) [OF ok finite_previous_txos m] by blast
    then have "\<exists>rs. collect (map (\<lambda>(tx, txid). index_transaction B c tx txid (height32 b) m) (block_txs b)) = Inr rs"
      if "b \<in> set bs" for b
      unfolding collect_map_total using that index_transaction_total by fastforce
    then have "\<forall>b \<in> set bs. \<exists>rows. index_block B c m b = Inr rows"
      using assms(2) by (fastforce simp: index_block_def Let_def)
    then obtain rows where rows: "index_blocks B c bs m = Inr rows"
      unfolding index_blocks_def collect_map_total [symmetric] by force
    have "\<not> (\<exists>b \<in> set bs. block_hash_of b \<notin> added_blockhashes st)" using assms(3) by blast
    with m rows have "index_rows B c st bs = Inr rows" by (simp add: index_rows_def)
    moreover from write_batch_view [OF store_invD(2) [OF assms(1)]] obtain d where
      "write_batch (history_db st) (map (\<lambda>r. Put (row_key r) (row_value r)) (sort_key row_key rows) @
            map (\<lambda>b. Delete (undo_marker_key (block_hash_of b))) bs) fl = Inr d" by blast
    ultimately show ?thesis by (simp add: index_op_def)
  qed
  have fails: "\<exists>msg. index_op B c fl st bs = Inl (Panic msg)" if "?l = Inl e" for e
    using that by (simp add: index_op_def index_rows_def)
  show "(\<exists>st'. index_op B c fl st bs = Inr st') \<or> (\<exists>msg. index_op B c fl st bs = Inl (Panic msg))"
    using idx fails by (cases ?l) auto
  show "(\<exists>st'. index_op B c fl st bs = Inr st') \<longleftrightarrow>
      (\<forall>p \<in> get_previous_txos B bs. \<exists>txo. lookup_txo B (txstore_db st) p = Inr (Some txo))" (is "?L \<longleftrightarrow> ?R")
  proof
    assume ?L
    then obtain m where "?l = Inr m" using fails by (cases ?l) auto
    then show ?R using lookup_txos_spec(1) [OF ok finite_previous_txos] by blast
  next
    assume ?R
    then obtain m where "?l = Inr m" using lookup_txos_spec(2) [OF ok finite_previous_txos] by blast
    then show ?L by (rule idx)
  qed
qed


lemma process_new_batch:
  assumes "store_inv st" and "bitcoin_laws B" and "batch_ids bs"
    and "\<forall>b \<in> set bs. length (be_txids b) = length (txdata (be_block b))"
    and "\<forall>b \<in> set bs. block_hash_of b \<notin> added_blockhashes st \<and> block_hash_of b \<notin> indexed_blockhashes st"
  shows "((\<exists>st'. process_block_batch B c fl st bs = Inr st') \<longleftrightarrow>
      (\<forall>p \<in> get_previous_txos B bs. (\<exists>b \<in> set bs. creates B b p) \<or>
         (\<exists>txo. lookup_txo B (txstore_db st) p = Inr (Some txo)))) \<and>
    ((\<exists>st'. process_block_batch B c fl st bs = Inr st') \<or>
     (\<exists>msg. process_block_batch B c fl st bs = Inl (Panic msg)))"
proof (cases "bs = []")
  case True
  then show ?thesis by (simp add: process_block_batch_def get_previous_txos_def)
next
  case False
  obtain st1 where st1: "add_op B c fl st bs = Inr st1" using add_op_total [OF assms(1,4)] by blast
  have "filter (\<lambda>b. block_hash_of b \<notin> added_blockhashes st) bs = bs"
    "filter (\<lambda>b. block_hash_of b \<notin> indexed_blockhashes st) bs = bs"
    using assms(5) by (simp_all add: filter_id_conv)
  then have p: "process_block_batch B c fl st bs = index_op B c fl st1 bs"
    using False st1 by (simp add: process_block_batch_def)
  have "block_hash_of ` set bs \<subseteq> added_blockhashes st1" by (simp add: add_op_inv(2) [OF assms(1) st1])
  note i = index_op_total [OF add_op_inv(1) [OF assms(1) st1] assms(4) this]
  show ?thesis unfolding p lookup_after_add [OF assms(1) st1 assms(3,2), symmetric]
    using i [where B = B and c = c and fl = fl] by blast
qed

subsection \<open>A concrete store and block\<close>

definition empty_store :: "(bytes \<times> bytes) list store" where
  "empty_store = \<lparr>txstore_db = list_db [], history_db = list_db [], cache_db = list_db [],
     added_blockhashes = {}, indexed_blockhashes = {}, indexed_headers = hl_empty\<rparr>"

text \<open>A coinbase that pays 50 to the script \<open>51\<close>, and a transaction that spends it to \<open>52\<close>.\<close>

definition example_coinbase :: transaction where
  "example_coinbase = \<lparr>tx_version = 1, lock_time = 1,
     tx_input = [\<lparr>previous_output = \<lparr>op_txid = 0, op_vout = - 1\<rparr>, script_sig = [], tx_sequence = 0, witness = []\<rparr>],
     tx_output = [\<lparr>txo_value = 50, script_pubkey = [0x51]\<rparr>]\<rparr>"

definition example_spend :: transaction where
  "example_spend = \<lparr>tx_version = 1, lock_time = 2,
     tx_input = [\<lparr>previous_output = \<lparr>op_txid = 1, op_vout = 0\<rparr>, script_sig = [], tx_sequence = 0, witness = []\<rparr>],
     tx_output = [\<lparr>txo_value = 49, script_pubkey = [0x52]\<rparr>]\<rparr>"

definition example_entry :: block_entry where
  "example_entry = \<lparr>be_block = \<lparr>blk_header = example_header 0 5 1000, txdata = [example_coinbase, example_spend]\<rparr>,
     be_entry = \<lparr>he_height = 0, he_hash = 5, he_header = example_header 0 5 1000\<rparr>, be_size = 200,
     be_txids = [1, 2]\<rparr>"

definition example_config :: indexer_config where
  "example_config = \<lparr>light_mode = False, address_search = True, index_unspendables = False,
     ic_network = Regtest, block_batch_size = 10\<rparr>"

lemma empty_store_inv: "store_inv empty_store"
  by (simp add: store_inv_def empty_store_def marks_wf_def marked_def)

lemma example_txs:
  "block_txs example_entry = [(example_coinbase, 1), (example_spend, 2)]" "block_hash_of example_entry = 5"
  "he_height (be_entry example_entry) = 0" "length (be_txids example_entry) = length (txdata (be_block example_entry))"
  by (simp_all add: example_entry_def)

lemma example_has_prevout:
  "has_prevout example_lib (tx_input example_coinbase ! 0) = False"
  "has_prevout example_lib (tx_input example_spend ! 0) = True"
  "previous_output (tx_input example_spend ! 0) = \<lparr>op_txid = 1, op_vout = 0\<rparr>"
  "length (tx_input example_coinbase) = Suc 0" "length (tx_input example_spend) = Suc 0"
  "length (tx_output example_coinbase) = Suc 0" "length (tx_output example_spend) = Suc 0"
  by (simp_all add: has_prevout_def example_lib_def example_coinbase_def example_spend_def)

lemma example_ids: "batch_ids [example_entry]" "batch_unique example_lib [example_entry]"
  by (auto simp: batch_ids_def batch_unique_def example_txs example_has_prevout)
    (auto simp: example_entry_def example_coinbase_def example_spend_def)

lemma example_prevouts: "get_previous_txos example_lib [example_entry] = {\<lparr>op_txid = 1, op_vout = 0\<rparr>}"
  by (simp add: get_previous_txos_def example_entry_def example_coinbase_def example_spend_def has_prevout_def example_lib_def)

lemma example_creates: "creates example_lib example_entry \<lparr>op_txid = 1, op_vout = 0\<rparr>"
proof -
  have "is_spendable example_lib (tx_output example_coinbase ! 0)"
    by (simp add: is_spendable_def example_lib_def example_coinbase_def)
  then show ?thesis unfolding creates_def example_txs
    by (intro exI [of _ example_coinbase] exI [of _ 1] exI [of _ 0]) (simp add: example_has_prevout)
qed

lemma example_processed: "\<exists>st'. process_block_batch example_lib example_config fl empty_store [example_entry] = Inr st'"
proof -
  have new: "\<forall>b \<in> set [example_entry]. block_hash_of b \<notin> added_blockhashes empty_store \<and> block_hash_of b \<notin> indexed_blockhashes empty_store"
    by (simp add: empty_store_def)
  have len: "\<forall>b \<in> set [example_entry]. length (be_txids b) = length (txdata (be_block b))" by (simp add: example_txs)
  from process_new_batch [OF empty_store_inv example_lib_laws example_ids(1) len new]
  show ?thesis using example_creates by (simp add: example_prevouts)
qed

text \<open>
  Claim C35. A batch of new blocks is processed exactly when every output it spends is stored
  already or is a spendable output of a block of the batch; otherwise the indexer panics, and no
  other error is returned.
\<close>

theorem process_block_batch_total:
  assumes "store_inv st" and "bitcoin_laws B" and "batch_ids bs"
    and "\<forall>b \<in> set bs. length (be_txids b) = length (txdata (be_block b))"
    and "\<forall>b \<in> set bs. block_hash_of b \<notin> added_blockhashes st \<and> block_hash_of b \<notin> indexed_blockhashes st"
  shows "((\<exists>st'. process_block_batch B c fl st bs = Inr st') \<longleftrightarrow>
      (\<forall>p \<in> get_previous_txos B bs. (\<exists>b \<in> set bs. creates B b p) \<or>
         (\<exists>txo. lookup_txo B (txstore_db st) p = Inr (Some txo)))) \<and>
    ((\<exists>st'. process_block_batch B c fl st bs = Inr st') \<or>
     (\<exists>msg. process_block_batch B c fl st bs = Inl (Panic msg)))"
  by (rule process_new_batch [OF assms])

theorem process_block_batch_total_witness:
  "\<exists>st'. process_block_batch example_lib example_config FlushDisable empty_store [example_entry] = Inr st'"
proof -
  have new: "\<forall>b \<in> set [example_entry]. block_hash_of b \<notin> added_blockhashes empty_store \<and> block_hash_of b \<notin> indexed_blockhashes empty_store"
    by (simp add: empty_store_def)
  have len: "\<forall>b \<in> set [example_entry]. length (be_txids b) = length (txdata (be_block b))" by (simp add: example_txs)
  from process_block_batch_total [OF empty_store_inv example_lib_laws example_ids(1) len new]
  show ?thesis using example_creates by (simp add: example_prevouts)
qed

section \<open>What is stored after a batch\<close>

lemma add_row_intros:
  "(tx, txid) \<in> set (block_txs b) \<Longrightarrow> \<not> light_mode c \<Longrightarrow> is_add_row B c b (tx_row B txid tx)"
  "(tx, txid) \<in> set (block_txs b) \<Longrightarrow> i < length (tx_output tx) \<Longrightarrow> is_spendable B (tx_output tx ! i) \<Longrightarrow>
     is_add_row B c b (tx_out_row B txid i (tx_output tx ! i))"
  "\<not> light_mode c \<Longrightarrow> is_add_row B c b (block_row_into (new_txids B (block_hash_of b) (be_txids b)))"
  "is_add_row B c b (block_row_into (new_header B b))"
  "\<not> light_mode c \<Longrightarrow> is_add_row B c b (block_row_into (new_meta (block_hash_of b) (block_meta_from B b)))"
  unfolding is_add_row_def tx_add_row_def by blast+

lemma index_row_intros:
  "(tx, txid) \<in> set (block_txs b) \<Longrightarrow> is_index_row B c m b (tx_conf_row txid (height32 b))"
  "(tx, txid) \<in> set (block_txs b) \<Longrightarrow> i < length (tx_output tx) \<Longrightarrow> is_spendable B (tx_output tx ! i) \<Longrightarrow>
     is_index_row B c m b (history_into_row (funding_row B txid (height32 b) (of_nat i, tx_output tx ! i)))"
  "(tx, txid) \<in> set (block_txs b) \<Longrightarrow> tx_spend_row B m (height32 b) tx txid r \<Longrightarrow> is_index_row B c m b r"
  unfolding is_index_row_def tx_fund_row_def by blast+

lemma process_new_batch_rows:
  assumes "store_inv st" and "process_block_batch B c fl st bs = Inr st'" and "batch_ids bs" and "batch_unique B bs"
    and "\<forall>b \<in> set bs. block_hash_of b \<notin> added_blockhashes st \<and> block_hash_of b \<notin> indexed_blockhashes st"
    and "b \<in> set bs" and "(tx, txid) \<in> set (block_txs b)"
  shows "(\<not> light_mode c \<longrightarrow> db_view (txstore_db st') (tx_row_key txid) = Some (ser_tx B tx) \<and>
        db_view (txstore_db st') (txids_key (block_hash_of b)) = Some (put_txids B (be_txids b)) \<and>
        db_view (txstore_db st') (meta_key (block_hash_of b)) = Some (put_meta (block_meta_from B b))) \<and>
    db_view (txstore_db st') (0x42 # hash_bytes (block_hash_of b)) = Some (ser_header B (blk_header (be_block b))) \<and>
    db_view (history_db st') (tx_conf_key txid) = Some (u32_le (height32 b)) \<and>
    (\<forall>i < length (tx_output tx). is_spendable B (tx_output tx ! i) \<longrightarrow>
       db_view (txstore_db st') (tx_out_key \<lparr>op_txid = txid, op_vout = of_nat i\<rparr>) = Some (ser_txout B (tx_output tx ! i)) \<and>
       db_view (history_db st') (put_history_key (funding_row B txid (height32 b) (of_nat i, tx_output tx ! i))) = Some []) \<and>
    (\<forall>i < length (tx_input tx). has_prevout B (tx_input tx ! i) \<longrightarrow>
       (\<exists>prev. lookup_txo B (txstore_db st') (previous_output (tx_input tx ! i)) = Inr (Some prev) \<and>
          db_view (history_db st') (put_history_key
            (spending_row B txid (height32 b) (of_nat i) (previous_output (tx_input tx ! i)) prev)) = Some [] \<and>
          db_view (history_db st') (tx_edge_key (previous_output (tx_input tx ! i))) =
            Some (put_edge_value \<lparr>te_spending_txid = txid, te_spending_vin = of_nat i, te_spending_height = height32 b\<rparr>)))"
proof -
  have ne: "bs \<noteq> []" using assms(6) by auto
  have "filter (\<lambda>b. block_hash_of b \<notin> added_blockhashes st) bs = bs"
    "filter (\<lambda>b. block_hash_of b \<notin> indexed_blockhashes st) bs = bs"
    using assms(5) by (simp_all add: filter_id_conv)
  with assms(2) ne obtain st1 where st1: "add_op B c fl st bs = Inr st1" "index_op B c fl st1 bs = Inr st'"
    by (rule_tac process_block_batch_steps [OF assms(2)]) auto
  note inv1 = add_op_inv(1) [OF assms(1) st1(1)]
  have t: "txstore_db st' = txstore_db st1" by (rule index_op_inv(3) [OF inv1 st1(2)])
  have add: "db_view (txstore_db st') (row_key r) = Some (row_value r)" if "is_add_row B c b r" for r
    unfolding t by (rule add_op_rows(1) [OF assms(1) st1(1) assms(3,6) that])
  from index_op_rows [OF inv1 st1(2) assms(4)] obtain m
    where m: "lookup_txos B (txstore_db st1) (get_previous_txos B bs) = Inr m"
    and idx: "is_index_row B c m b r \<Longrightarrow> db_view (history_db st') (row_key r) = Some (row_value r)" for r
    using assms(6) by blast
  have ok: "db_ok (txstore_db st1)" by (rule store_invD(1) [OF inv1])
  have conf: "db_view (history_db st') (tx_conf_key txid) = Some (u32_le (height32 b))"
    using idx [OF index_row_intros(1) [OF assms(7)]] by (simp add: tx_conf_row_def)
  have light: "\<not> light_mode c \<longrightarrow> db_view (txstore_db st') (tx_row_key txid) = Some (ser_tx B tx) \<and>
        db_view (txstore_db st') (txids_key (block_hash_of b)) = Some (put_txids B (be_txids b)) \<and>
        db_view (txstore_db st') (meta_key (block_hash_of b)) = Some (put_meta (block_meta_from B b))"
    using add [OF add_row_intros(1) [OF assms(7)]] add [OF add_row_intros(3)] add [OF add_row_intros(5)]
    by (simp add: tx_row_def block_row_into_def new_txids_def txids_key_def new_meta_def meta_key_def)
  have header: "db_view (txstore_db st') (0x42 # hash_bytes (block_hash_of b)) = Some (ser_header B (blk_header (be_block b)))"
    using add [OF add_row_intros(4)] by (simp add: block_row_into_def new_header_def)
  have outs: "db_view (txstore_db st') (tx_out_key \<lparr>op_txid = txid, op_vout = of_nat i\<rparr>) = Some (ser_txout B (tx_output tx ! i)) \<and>
       db_view (history_db st') (put_history_key (funding_row B txid (height32 b) (of_nat i, tx_output tx ! i))) = Some []"
    if "i < length (tx_output tx)" "is_spendable B (tx_output tx ! i)" for i
    using add [OF add_row_intros(2) [OF assms(7) that]] idx [OF index_row_intros(2) [OF assms(7) that]]
    by (simp add: tx_out_row_def history_into_row_def)
  have ins: "\<exists>prev. lookup_txo B (txstore_db st') (previous_output (tx_input tx ! i)) = Inr (Some prev) \<and>
       db_view (history_db st') (put_history_key
         (spending_row B txid (height32 b) (of_nat i) (previous_output (tx_input tx ! i)) prev)) = Some [] \<and>
       db_view (history_db st') (tx_edge_key (previous_output (tx_input tx ! i))) =
         Some (put_edge_value \<lparr>te_spending_txid = txid, te_spending_vin = of_nat i, te_spending_height = height32 b\<rparr>)"
    if i: "i < length (tx_input tx)" and pv: "has_prevout B (tx_input tx ! i)" for i
  proof -
    let ?p = "previous_output (tx_input tx ! i)"
    have "?p \<in> get_previous_txos B bs" by (rule previous_txo_in [OF assms(6,7) nth_mem [OF i] pv])
    from lookup_txos_spec(1) [OF ok finite_previous_txos m this] obtain prev
      where prev: "m ?p = Some prev" "lookup_txo B (txstore_db st') ?p = Inr (Some prev)" unfolding t by blast
    let ?s = "history_into_row (spending_row B txid (height32 b) (of_nat i) ?p prev)"
      and ?e = "tx_edge_row (op_txid ?p) (op_vout ?p) txid (of_nat i) (height32 b)"
    have "tx_spend_row B m (height32 b) tx txid ?s" "tx_spend_row B m (height32 b) tx txid ?e"
      unfolding tx_spend_row_def using i pv prev(1) by blast+
    from this [THEN index_row_intros(3) [OF assms(7)], THEN idx] prev(2)
    show ?thesis by (intro exI [of _ prev]) (simp add: history_into_row_def tx_edge_row_def tx_edge_key_def)
  qed
  show ?thesis using light header conf outs ins by blast
qed





end
