(* ===== verification/Recovery.thy ===== *)
theory Recovery
  imports Batch
begin

text \<open>
  Crash recovery: the part of the state that is only in memory (the block hash sets and the header
  list) is what \<open>Store::open\<close> reads back from the databases. \<open>recoverable\<close> is the invariant that
  makes it so; processing a batch and publishing the completed headers keep it.
\<close>

section \<open>The invariant\<close>

abbreviation header_key :: "blockhash \<Rightarrow> bytes" where
  "header_key h \<equiv> 0x42 # hash_bytes h"

definition header_rows_wf :: "bitcoin_lib \<Rightarrow> (bytes \<Rightarrow> bytes option) \<Rightarrow> bool" where
  "header_rows_wf B m \<longleftrightarrow> (\<forall>k \<in> dom m. prefix [0x42] k \<longrightarrow> (\<exists>h hd. k = header_key h \<and> m k = Some (ser_header B hd)))"

text \<open>A header that may be published: added, indexed, stored under its hash.\<close>

definition publishable :: "bitcoin_lib \<Rightarrow> 'db store \<Rightarrow> header_entry \<Rightarrow> bool" where
  "publishable B st e \<longleftrightarrow> he_hash e \<in> added_blockhashes st \<and> he_hash e \<in> indexed_blockhashes st \<and>
     block_hash B (he_header e) = he_hash e \<and> he_hash e \<noteq> DEFAULT_BLOCKHASH \<and>
     db_view (txstore_db st) (header_key (he_hash e)) = Some (ser_header B (he_header e))"

definition recoverable :: "bitcoin_lib \<Rightarrow> 'db store \<Rightarrow> bool" where
  "recoverable B st \<longleftrightarrow>
     store_inv st \<and> header_rows_wf B (db_view (txstore_db st)) \<and>
     (\<forall>e \<in> set (headers (indexed_headers st)). publishable B st e) \<and>
     db_view (txstore_db st) TIP_KEY =
       (if headers (indexed_headers st) = [] then None else Some (hash_bytes (tip (indexed_headers st))))"

section \<open>Reading the headers back\<close>

lemma load_blockheaders_view:
  assumes "db_ok d" and "header_rows_wf B (db_view d)" and "bitcoin_laws B"
  shows "\<exists>m. load_blockheaders B d = Inr m \<and>
    (\<forall>h hd. map_of m h = Some hd \<longleftrightarrow> db_view d (header_key h) = Some (ser_header B hd))"
proof -
  let ?rows = "rows_of (db_view d) (prefix [0x42])"
  define f where "f = (\<lambda>r. rbind (block_row_from r) (\<lambda>br.
      rmap (\<lambda>h. (br_hash br, h)) (expect ''failed to parse BlockHeader'' (deser_header B (br_value br)))))"
  have rows: "r \<in> set ?rows \<longleftrightarrow> db_view d (row_key r) = Some (row_value r) \<and> prefix [0x42] (row_key r)" for r
    by (rule set_rows_of [OF db_reads(1) [OF assms(1)]])
  have f: "f r = Inr (h, hd)" if "row_key r = header_key h" "row_value r = ser_header B hd" for r h hd
    using that bitcoin_lawsD(1) [OF assms(3)] by (simp add: f_def block_row_from_key)
  have ser: "ser_header B x = ser_header B y \<Longrightarrow> x = y" for x y
    using bitcoin_lawsD(1) [OF assms(3)] by (metis option.inject)
  have wf: "\<exists>h hd. row_key r = header_key h \<and> row_value r = ser_header B hd" if "r \<in> set ?rows" for r
  proof -
    from that rows have r: "db_view d (row_key r) = Some (row_value r)" "prefix [0x42] (row_key r)" by simp_all
    then obtain h hd where "row_key r = header_key h" "db_view d (row_key r) = Some (ser_header B hd)"
      using assms(2) unfolding header_rows_wf_def by blast
    with r(1) show ?thesis by auto
  qed
  have load: "load_blockheaders B d = collect (map f ?rows)"
    by (simp add: load_blockheaders_def header_filter_def iter_scan_view [OF assms(1)] comp_def f_def)
  have "\<forall>r \<in> set ?rows. \<exists>y. f r = Inr y"
  proof
    fix r assume "r \<in> set ?rows"
    from wf [OF this] obtain h hd where "row_key r = header_key h" "row_value r = ser_header B hd" by blast
    then have "f r = Inr (h, hd)" by (rule f)
    then show "\<exists>y. f r = Inr y" by (rule exI)
  qed
  then have "\<exists>m. collect (map f ?rows) = Inr m" unfolding collect_map_total .
  then obtain m where m: "collect (map f ?rows) = Inr m" ..
  have mem: "(h, hd) \<in> set m \<longleftrightarrow> db_view d (header_key h) = Some (ser_header B hd)" for h hd
  proof
    assume "(h, hd) \<in> set m"
    then obtain r where r: "r \<in> set ?rows" "f r = Inr (h, hd)"
      unfolding collect_map_mem [OF m] by blast
    from wf [OF r(1)] obtain h' hd' where k: "row_key r = header_key h'" "row_value r = ser_header B hd'" by blast
    with f [OF k] r(2) have "h' = h" "hd' = hd" by simp_all
    with k r(1) show "db_view d (header_key h) = Some (ser_header B hd)" by (simp add: rows)
  next
    assume "db_view d (header_key h) = Some (ser_header B hd)"
    then have "\<lparr>row_key = header_key h, row_value = ser_header B hd\<rparr> \<in> set ?rows" (is "?r \<in> _") by (simp add: rows)
    moreover have "f ?r = Inr (h, hd)" by (rule f) simp_all
    ultimately show "(h, hd) \<in> set m"
      unfolding collect_map_mem [OF m] by blast
  qed
  have "map_of m h = Some hd \<longleftrightarrow> db_view d (header_key h) = Some (ser_header B hd)" for h hd
  proof
    assume "db_view d (header_key h) = Some (ser_header B hd)"
    then have "(h, hd) \<in> set m" by (simp add: mem)
    then obtain hd' where "map_of m h = Some hd'" by (metis weak_map_of_SomeI)
    moreover then have "db_view d (header_key h) = Some (ser_header B hd')" using map_of_SomeD mem by fast
    ultimately show "map_of m h = Some hd"
      using \<open>db_view d (header_key h) = Some (ser_header B hd)\<close> ser by simp
  next
    assume "map_of m h = Some hd"
    then show "db_view d (header_key h) = Some (ser_header B hd)" using map_of_SomeD mem by fast
  qed
  with load m show ?thesis by simp
qed

lemma headers_chained_linked:
  "linked n p es \<Longrightarrow> map he_hash es = map (block_hash B) (map he_header es) \<Longrightarrow>
     headers_chained B (map he_header es) \<and> (es \<noteq> [] \<longrightarrow> prev_blockhash (he_header (hd es)) = p)"
proof (induction es arbitrary: n p)
  case (Cons e es)
  then have "headers_chained B (map he_header es)" "es \<noteq> [] \<longrightarrow> prev_blockhash (he_header (hd es)) = he_hash e"
    by auto
  with Cons.prems show ?case by (cases es) (simp_all add: headers_chained_def)
qed (simp add: headers_chained_def)

lemma walk_to_indexed_here: "t \<in> indexed \<Longrightarrow> walk_to_indexed m indexed t = Some (Inr t)"
  by (subst walk_to_indexed.simps) simp

lemma load_headers_recovers:
  assumes "recoverable B st" and "bitcoin_laws B"
  shows "load_headers B (txstore_db st) (indexed_blockhashes st) = Some (Inr (indexed_headers st))"
proof -
  let ?hl = "indexed_headers st" and ?d = "txstore_db st"
  have inv: "store_inv st" "header_rows_wf B (db_view ?d)" "\<forall>e \<in> set (headers ?hl). publishable B st e"
    and tip: "db_view ?d TIP_KEY = (if headers ?hl = [] then None else Some (hash_bytes (tip ?hl)))"
    using assms(1) unfolding recoverable_def by blast+
  note ok = store_invD(1) [OF inv(1)] and hl = store_invD(9) [OF inv(1)]
  show ?thesis
  proof (cases "headers ?hl = []")
    case True
    then have "?hl = hl_empty" by (intro hl_inv_determined [OF hl hl_inv_empty]) (simp add: hl_empty_def)
    then show ?thesis using tip True by (simp add: load_headers_def db_reads [OF ok])
  next
    case False
    let ?hs = "map he_header (headers ?hl)"
    have t: "tip ?hl = he_hash (last (headers ?hl))" using hl False by (simp add: hl_inv_def last_hash_def)
    have hashes: "map he_hash (headers ?hl) = map (block_hash B) ?hs"
      using inv(3) by (simp add: publishable_def)
    from load_blockheaders_view [OF ok inv(2) assms(2)] obtain m where m: "load_blockheaders B ?d = Inr m"
      "\<And>h hd. map_of m h = Some hd \<longleftrightarrow> db_view ?d (header_key h) = Some (ser_header B hd)" by blast
    have "tip ?hl \<in> indexed_blockhashes st" using inv(3) False t by (simp add: publishable_def)
    then have walk: "walk_to_indexed m (indexed_blockhashes st) (tip ?hl) = Some (Inr (tip ?hl))"
      by (rule walk_to_indexed_here)
    have "chain_in B m ?hs (tip ?hl)"
      unfolding chain_in_def
    proof (intro conjI)
      show "headers_chained B ?hs" "prev_blockhash (hd ?hs) = DEFAULT_BLOCKHASH"
        using headers_chained_linked [OF _ hashes] hl False by (auto simp: hl_inv_def hd_map)
      show "block_hash B (last ?hs) = tip ?hl" using inv(3) False t by (simp add: last_map publishable_def)
      show "distinct (map (block_hash B) ?hs)" using hl unfolding hashes [symmetric] by (simp add: hl_inv_def)
      show "\<forall>h \<in> set ?hs. map_of m (block_hash B h) = Some h" using inv(3) by (simp add: m(2) publishable_def)
    qed (use False in simp)
    moreover have "DEFAULT_BLOCKHASH \<notin> block_hash B ` set ?hs" using inv(3) by (auto simp: publishable_def)
    ultimately obtain hl' where hl': "hl_new B m (tip ?hl) = Inr hl'" "hl_inv hl'" "headers hl' = mk_entries B 0 ?hs"
      using hl_new_chain_in by blast
    have "headers ?hl = mk_entries B 0 ?hs"
      by (rule entries_unique [of 0 DEFAULT_BLOCKHASH, OF _ hashes]) (use hl in \<open>simp add: hl_inv_def\<close>)
    with hl' have "hl' = ?hl" by (intro hl_inv_determined [OF _ hl]) simp_all
    with hl'(1) m(1) walk tip False show ?thesis
      by (simp add: load_headers_def db_reads [OF ok] deser_blockhash_def)
  qed
qed


section \<open>The operations keep it\<close>

lemma batch_mono:
  "set bs' \<subseteq> set bs \<Longrightarrow> batch_ids bs \<Longrightarrow> batch_ids bs'"
  unfolding batch_ids_def by (meson subsetD)

lemma marks_cong:
  assumes "\<And>k. prefix [code] k \<Longrightarrow> m' k = m k"
  shows "marks_wf code m' = marks_wf code m" and "marked code m' = marked code m"
proof -
  have "k \<in> dom m' \<longleftrightarrow> k \<in> dom m" if "prefix [code] k" for k using assms [OF that] by (simp add: domIff)
  then show "marks_wf code m' = marks_wf code m" and "marked code m' = marked code m"
    unfolding marks_wf_def marked_def by auto
qed

lemma add_row_header_key:
  assumes "is_add_row B c b r" and "prefix [0x42] (row_key r)"
  shows "r = block_row_into (new_header B b)"
proof -
  have hd: "hd (row_key r) = 0x42" using assms(2) by (auto simp: prefix_def)
  from assms(1) show ?thesis
  proof (cases rule: add_row_kinds)
    case (block x)
    with hd show ?thesis
      by (auto simp: block_rows_of_def block_row_into_def new_txids_def new_meta_def new_done_def)
  qed (use hd in simp_all)
qed

lemma add_row_not_tip: "is_add_row B c b r \<Longrightarrow> row_key r \<noteq> TIP_KEY"
proof
  assume r: "is_add_row B c b r" "row_key r = TIP_KEY"
  then have hd: "hd (row_key r) = 0x74" by simp
  from r(1) show False
  proof (cases rule: add_row_kinds)
    case (block x)
    with hd show ?thesis
      by (auto simp: block_rows_of_def block_row_into_def new_txids_def new_meta_def new_done_def new_header_def)
  qed (use hd in simp_all)
qed

lemma add_op_recoverable:
  assumes "recoverable B st" and "add_op B c fl st bs = Inr st'" and "batch_ids bs"
    and new: "\<forall>b \<in> set bs. block_hash_of b \<notin> added_blockhashes st"
  shows "recoverable B st'"
proof -
  let ?v = "db_view (txstore_db st)" and ?v' = "db_view (txstore_db st')"
  have rec: "store_inv st" "header_rows_wf B ?v" "\<forall>e \<in> set (headers (indexed_headers st)). publishable B st e"
    "?v TIP_KEY = (if headers (indexed_headers st) = [] then None else Some (hash_bytes (tip (indexed_headers st))))"
    using assms(1) unfolding recoverable_def by blast+
  note inv = add_op_inv [OF rec(1) assms(2)] and row = add_op_rows [OF rec(1) assms(2,3)]
  have same: "?v' k = ?v k" if "\<forall>b \<in> set bs. \<forall>r. is_add_row B c b r \<longrightarrow> row_key r \<noteq> k" for k
    using row(2) [of k] that by blast
  have tip: "?v' TIP_KEY = ?v TIP_KEY" by (rule same) (use add_row_not_tip in blast)
  have hkey: "\<exists>h hd. k = header_key h \<and> ?v' k = Some (ser_header B hd)" if k: "k \<in> dom ?v'" "prefix [0x42] k" for k
  proof (cases "\<exists>b \<in> set bs. \<exists>r. is_add_row B c b r \<and> row_key r = k")
    case True
    then obtain b r where b: "b \<in> set bs" "is_add_row B c b r" "row_key r = k" by blast
    with k(2) have r: "r = block_row_into (new_header B b)" by (intro add_row_header_key) simp_all
    from row(1) [OF b(1,2)] have "?v' k = Some (row_value r)" using b(3) by simp
    moreover have "k = header_key (block_hash_of b)" "row_value r = ser_header B (blk_header (be_block b))"
      using b(3) by (simp_all add: r block_row_into_def new_header_def)
    ultimately show ?thesis
      by (intro exI [of _ "block_hash_of b"] exI [of _ "blk_header (be_block b)"]) simp
  next
    case False
    then have eq: "?v' k = ?v k" by (intro same) blast
    with k(1) have "k \<in> dom ?v" by (simp add: domIff)
    with k(2) rec(2) show ?thesis unfolding header_rows_wf_def eq by blast
  qed
  have pub: "publishable B st' e" if "e \<in> set (headers (indexed_headers st))" for e
  proof -
    from rec(3) that have e: "publishable B st e" by blast
    have "row_key r \<noteq> header_key (he_hash e)" if b: "b \<in> set bs" "is_add_row B c b r" for b r
    proof
      assume k: "row_key r = header_key (he_hash e)"
      with b(2) have "r = block_row_into (new_header B b)" by (intro add_row_header_key) simp_all
      with k have "block_hash_of b = he_hash e" by (simp add: block_row_into_def new_header_def)
      with new b(1) e show False by (auto simp: publishable_def)
    qed
    then have "?v' (header_key (he_hash e)) = ?v (header_key (he_hash e))" by (intro same) blast
    with e show ?thesis by (simp add: publishable_def inv(2,4))
  qed
  show ?thesis unfolding recoverable_def header_rows_wf_def
    using inv(1) hkey pub tip rec(4) by (simp add: inv(5))
qed

lemma index_op_recoverable:
  assumes "recoverable B st" and "index_op B c fl st bs = Inr st'"
  shows "recoverable B st'"
proof -
  have rec: "store_inv st" "header_rows_wf B (db_view (txstore_db st))"
    "\<forall>e \<in> set (headers (indexed_headers st)). publishable B st e"
    "db_view (txstore_db st) TIP_KEY =
       (if headers (indexed_headers st) = [] then None else Some (hash_bytes (tip (indexed_headers st))))"
    using assms(1) unfolding recoverable_def by blast+
  note inv = index_op_inv [OF rec(1) assms(2)]
  have "publishable B st' e" if "publishable B st e" for e
    using that by (simp add: publishable_def inv(2-4))
  with rec(2-4) inv(1) show ?thesis by (simp add: recoverable_def inv(3,5))
qed

lemma process_block_batch_recoverable:
  assumes "recoverable B st" and "process_block_batch B c fl st bs = Inr st'" and "batch_ids bs"
  shows "recoverable B st'"
proof -
  let ?a = "filter (\<lambda>b. block_hash_of b \<notin> added_blockhashes st) bs"
  let ?i = "filter (\<lambda>b. block_hash_of b \<notin> indexed_blockhashes st) bs"
  from assms(2) obtain st1 where 1: "?a = [] \<and> st1 = st \<or> add_op B c fl st ?a = Inr st1"
    and 2: "?i = [] \<and> st' = st1 \<or> index_op B c fl st1 ?i = Inr st'"
    by (rule process_block_batch_steps)
  have ids: "batch_ids ?a" by (rule batch_mono [OF _ assms(3)]) auto
  have "recoverable B st1" using 1
  proof
    assume a: "add_op B c fl st ?a = Inr st1"
    show ?thesis by (rule add_op_recoverable [OF assms(1) a ids]) simp
  qed (use assms(1) in simp)
  then show ?thesis using 2 index_op_recoverable by blast
qed

lemma advance_synced_tip_spec:
  assumes "recoverable B st" and "linked (hl_len (indexed_headers st)) (tip (indexed_headers st)) new"
    and "distinct (map he_hash (headers (indexed_headers st) @ new))"
    and "\<forall>e \<in> set (completed_header_prefix st new). block_hash B (he_header e) = he_hash e \<and> he_hash e \<noteq> DEFAULT_BLOCKHASH \<and>
       db_view (txstore_db st) (header_key (he_hash e)) = Some (ser_header B (he_header e))"
  shows "completed_header_prefix st new =
      takeWhile (\<lambda>e. he_hash e \<in> added_blockhashes st \<and> he_hash e \<in> indexed_blockhashes st) new \<and>
    (if headers (indexed_headers st) @ completed_header_prefix st new = []
     then \<exists>msg. advance_synced_tip st (completed_header_prefix st new) = Inl (Msg msg)
     else \<exists>st'. advance_synced_tip st (completed_header_prefix st new) =
            Inr (he_hash (last (headers (indexed_headers st) @ completed_header_prefix st new)), st') \<and>
          headers (indexed_headers st') = headers (indexed_headers st) @ completed_header_prefix st new \<and>
          recoverable B st')"
proof -
  let ?hl = "indexed_headers st" and ?d = "txstore_db st" and ?c = "completed_header_prefix st new"
  have c: "?c = takeWhile (\<lambda>e. he_hash e \<in> added_blockhashes st \<and> he_hash e \<in> indexed_blockhashes st) new"
    by (simp add: completed_header_prefix_def completed_prefix_len_def takeWhile_eq_take [symmetric])
  have rec: "store_inv st" "header_rows_wf B (db_view ?d)" "\<forall>e \<in> set (headers ?hl). publishable B st e"
    using assms(1) unfolding recoverable_def by blast+
  note hl = store_invD(9) [OF rec(1)]
  obtain k where k: "?c = take k new" by (simp add: completed_header_prefix_def)
  have "linked (length (headers ?hl)) (last_hash (headers ?hl)) ?c"
    using linked_take [OF assms(2)] hl by (simp add: k hl_len_def hl_inv_def)
  moreover have "distinct (map he_hash (headers ?hl @ ?c))"
    using distinct_take [OF assms(3), of "length (headers ?hl) + k"] by (simp add: k take_map)
  ultimately obtain hl' where hl': "hl_append ?hl ?c = Inr hl'" "hl_inv hl'" "headers hl' = headers ?hl @ ?c"
    using hl_append_spec [OF hl] by blast
  show ?thesis
  proof (cases "headers ?hl @ ?c = []")
    case True
    with hl' show ?thesis using c by (simp add: advance_synced_tip_def hl_is_empty_def)
  next
    case False
    have "last_hash (headers hl') = he_hash (last (headers ?hl @ ?c))"
      unfolding last_hash_def hl'(3) using False by (rule if_not_P)
    with hl'(2) have tip: "tip hl' = he_hash (last (headers ?hl @ ?c))" "hl_tip hl' = Inr (tip hl')"
      by (simp_all add: hl_inv_def hl_tip_def)
    from put_sync_view [OF store_invD(1) [OF rec(1)]] obtain d where
      d: "put_sync ?d TIP_KEY (hash_bytes (tip hl')) = Inr d" "db_ok d" "db_view d = (db_view ?d)(TIP_KEY \<mapsto> hash_bytes (tip hl'))"
      by blast
    let ?st = "st\<lparr>txstore_db := d, indexed_headers := hl'\<rparr>"
    have adv: "advance_synced_tip st ?c = Inr (tip hl', ?st)"
      using False hl'(1,3) d(1) tip(2) by (simp add: advance_synced_tip_def hl_is_empty_def)
    have old: "\<And>key x. prefix [x] key \<Longrightarrow> x \<noteq> 0x74 \<Longrightarrow> db_view d key = db_view ?d key"
      by (auto simp: d(3))
    have pub: "publishable B ?st e" if "e \<in> set (headers ?hl @ ?c)" for e
    proof -
      have "publishable B st e" using that rec(3) assms(4) set_takeWhileD [of e _ new]
        by (auto simp: publishable_def c)
      moreover have "db_view d (header_key (he_hash e)) = db_view ?d (header_key (he_hash e))"
        by (rule old [where x = "0x42"]) simp_all
      ultimately show ?thesis by (simp add: publishable_def)
    qed
    have wf: "header_rows_wf B (db_view d)"
      unfolding header_rows_wf_def
    proof (intro ballI impI)
      fix k assume k: "k \<in> dom (db_view d)" "prefix [0x42] k"
      have eq: "db_view d k = db_view ?d k" by (rule old [OF k(2)]) simp
      with k(1) have "k \<in> dom (db_view ?d)" by (simp add: domIff)
      with k(2) rec(2) show "\<exists>h hd. k = header_key h \<and> db_view d k = Some (ser_header B hd)"
        unfolding header_rows_wf_def eq by blast
    qed
    have "marks_wf 0x44 (db_view d)" "marked 0x44 (db_view d) = marked 0x44 (db_view ?d)"
      using store_invD(4) [OF rec(1)] marks_cong [OF old [where x = "0x44"]] by simp_all
    then have "store_inv ?st" using rec(1) d(2) hl'(2) by (simp add: store_inv_def)
    with pub wf False have "recoverable B ?st" by (simp add: recoverable_def hl'(3) d(3))
    with adv tip(1) hl'(3) have "\<exists>st'. advance_synced_tip st ?c = Inr (he_hash (last (headers ?hl @ ?c)), st') \<and>
        headers (indexed_headers st') = headers ?hl @ ?c \<and> recoverable B st'"
      by (intro exI [of _ ?st]) simp
    with c show ?thesis unfolding if_not_P [OF False] by (rule conjI)
  qed
qed

section \<open>What is published and what a restart finds\<close>

text \<open>
  Claim C11. Publishing headers advances the synced tip over the longest prefix of the new headers
  whose blocks are all added and indexed, and over nothing else: the header list grows by exactly
  that prefix, the saved tip is its last hash, and the store stays recoverable. With no header at
  all the call is an error rather than a null tip.
\<close>

theorem advance_synced_tip_publishes:
  assumes "recoverable B st" and "linked (hl_len (indexed_headers st)) (tip (indexed_headers st)) new"
    and "distinct (map he_hash (headers (indexed_headers st) @ new))"
    and "\<forall>e \<in> set (completed_header_prefix st new). block_hash B (he_header e) = he_hash e \<and> he_hash e \<noteq> DEFAULT_BLOCKHASH \<and>
       db_view (txstore_db st) (header_key (he_hash e)) = Some (ser_header B (he_header e))"
  shows "completed_header_prefix st new =
      takeWhile (\<lambda>e. he_hash e \<in> added_blockhashes st \<and> he_hash e \<in> indexed_blockhashes st) new \<and>
    (if headers (indexed_headers st) @ completed_header_prefix st new = []
     then \<exists>msg. advance_synced_tip st (completed_header_prefix st new) = Inl (Msg msg)
     else \<exists>st'. advance_synced_tip st (completed_header_prefix st new) =
            Inr (he_hash (last (headers (indexed_headers st) @ completed_header_prefix st new)), st') \<and>
          headers (indexed_headers st') = headers (indexed_headers st) @ completed_header_prefix st new \<and>
          recoverable B st')"
  by (rule advance_synced_tip_spec [OF assms])

lemma empty_store_recoverable: "recoverable B empty_store"
  using empty_store_inv by (simp add: recoverable_def header_rows_wf_def) (simp add: empty_store_def hl_empty_def)

lemma example_indexed:
  obtains st where "process_block_batch example_lib example_config FlushDisable empty_store [example_entry] = Inr st"
    "recoverable example_lib st" "indexed_headers st = hl_empty"
    "completed_header_prefix st [be_entry example_entry] = [be_entry example_entry]"
    "db_view (txstore_db st) (header_key 5) = Some (ser_header example_lib (example_header 0 5 1000))"
proof -
  obtain st where st: "process_block_batch example_lib example_config FlushDisable empty_store [example_entry] = Inr st"
    using example_processed by blast
  note sets = process_block_batch_sets [OF empty_store_inv st]
  have "completed_header_prefix st [be_entry example_entry] = [be_entry example_entry]"
    by (simp add: completed_header_prefix_def completed_prefix_len_def sets example_txs)
  moreover have "recoverable example_lib st"
    by (rule process_block_batch_recoverable [OF empty_store_recoverable st example_ids(1)])
  moreover have "indexed_headers st = hl_empty" by (simp add: sets(4)) (simp add: empty_store_def)
  moreover have "db_view (txstore_db st) (header_key 5) = Some (ser_header example_lib (example_header 0 5 1000))"
  proof -
    have new: "filter (\<lambda>b. block_hash_of b \<notin> added_blockhashes empty_store) [example_entry] = [example_entry]"
      "filter (\<lambda>b. block_hash_of b \<notin> indexed_blockhashes empty_store) [example_entry] = [example_entry]"
      by (simp_all add: empty_store_def)
    obtain st1 where st1: "add_op example_lib example_config FlushDisable empty_store [example_entry] = Inr st1"
      "index_op example_lib example_config FlushDisable st1 [example_entry] = Inr st"
      by (rule process_block_batch_steps [OF st, unfolded new]) auto
    have "txstore_db st = txstore_db st1"
      by (rule index_op_inv(3) [OF add_op_inv(1) [OF empty_store_inv st1(1)] st1(2)])
    with add_op_rows(1) [OF empty_store_inv st1(1) example_ids(1) _ add_row_intros(4), of example_entry]
    show ?thesis by (simp add: block_row_into_def new_header_def example_txs) (simp add: example_entry_def)
  qed
  ultimately show thesis using st that by blast
qed

lemma example_entry_header:
  "linked 0 DEFAULT_BLOCKHASH [be_entry example_entry]" "he_header (be_entry example_entry) = example_header 0 5 1000"
  "block_hash example_lib (example_header 0 5 1000) = 5" "(5 :: blockhash) \<noteq> DEFAULT_BLOCKHASH"
  by (simp_all add: example_entry_def DEFAULT_BLOCKHASH_def)

theorem advance_synced_tip_publishes_witness:
  "\<exists>st st'. process_block_batch example_lib example_config FlushDisable empty_store [example_entry] = Inr st \<and>
     advance_synced_tip st (completed_header_prefix st [be_entry example_entry]) = Inr (5, st') \<and>
     headers (indexed_headers st') = [be_entry example_entry]"
proof -
  obtain st where st: "process_block_batch example_lib example_config FlushDisable empty_store [example_entry] = Inr st"
    "recoverable example_lib st" "indexed_headers st = hl_empty"
    "completed_header_prefix st [be_entry example_entry] = [be_entry example_entry]"
    "db_view (txstore_db st) (header_key 5) = Some (ser_header example_lib (example_header 0 5 1000))"
    by (rule example_indexed)
  have "linked (hl_len (indexed_headers st)) (tip (indexed_headers st)) [be_entry example_entry]"
    "distinct (map he_hash (headers (indexed_headers st) @ [be_entry example_entry]))"
    using example_entry_header(1) by (simp_all add: st(3) hl_empty_def hl_len_def)
  note linked = this
  have h: "\<forall>e \<in> set (completed_header_prefix st [be_entry example_entry]).
      block_hash example_lib (he_header e) = he_hash e \<and> he_hash e \<noteq> DEFAULT_BLOCKHASH \<and>
      db_view (txstore_db st) (header_key (he_hash e)) = Some (ser_header example_lib (he_header e))"
    using example_entry_header st(5) by (simp add: st(4) example_txs)
  have ne: "headers hl_empty @ [be_entry example_entry] \<noteq> []" by simp
  have hd: "headers hl_empty @ [be_entry example_entry] = [be_entry example_entry]" by (simp add: hl_empty_def)
  from advance_synced_tip_publishes [OF st(2) linked h, THEN conjunct2, unfolded st(3,4) if_not_P [OF ne], unfolded hd]
  obtain st' where "advance_synced_tip st [be_entry example_entry] = Inr (he_hash (last [be_entry example_entry]), st')"
    "headers (indexed_headers st') = [be_entry example_entry]" by blast
  with st(1,4) show ?thesis by (intro exI [of _ st] exI [of _ st']) (simp add: example_txs)
qed

lemma store_open_restores:
  assumes "recoverable B st" and "bitcoin_laws B"
  shows "store_open B c False (txstore_db st) (history_db st) (cache_db st) = Some (Inr st)"
proof -
  have inv: "store_inv st" using assms(1) by (simp add: recoverable_def)
  note i = store_invD [OF inv]
  have "load_blockhashes (txstore_db st) done_filter = Inr (added_blockhashes st)"
    "load_blockhashes (history_db st) done_filter = Inr (indexed_blockhashes st)"
    unfolding done_filter_def i(7,8) by (rule load_blockhashes_marked [OF i(1,4)], rule load_blockhashes_marked [OF i(2,5)])
  then show ?thesis
    by (simp add: store_open_def load_headers_recovers [OF assms])
qed

text \<open>
  Claim C12. A restart loses nothing: opening the databases of a recoverable store yields the same
  in-memory block sets and the same header list that were in memory before.
\<close>

theorem store_open_recovers:
  assumes "recoverable B st" and "bitcoin_laws B"
  shows "store_open B c False (txstore_db st) (history_db st) (cache_db st) = Some (Inr st)"
  by (rule store_open_restores [OF assms])

theorem store_open_recovers_witness:
  "\<exists>st. headers (indexed_headers st) = [be_entry example_entry] \<and>
     (\<forall>c. store_open example_lib c False (txstore_db st) (history_db st) (cache_db st) = Some (Inr (st :: (bytes \<times> bytes) list store)))"
proof -
  obtain st where st: "process_block_batch example_lib example_config FlushDisable empty_store [example_entry] = Inr st"
    "recoverable example_lib st" "indexed_headers st = hl_empty"
    "completed_header_prefix st [be_entry example_entry] = [be_entry example_entry]"
    "db_view (txstore_db st) (header_key 5) = Some (ser_header example_lib (example_header 0 5 1000))"
    by (rule example_indexed)
  have "linked (hl_len (indexed_headers st)) (tip (indexed_headers st)) [be_entry example_entry]"
    "distinct (map he_hash (headers (indexed_headers st) @ [be_entry example_entry]))"
    using example_entry_header(1) by (simp_all add: st(3) hl_empty_def hl_len_def)
  note linked = this
  have h: "\<forall>e \<in> set (completed_header_prefix st [be_entry example_entry]).
      block_hash example_lib (he_header e) = he_hash e \<and> he_hash e \<noteq> DEFAULT_BLOCKHASH \<and>
      db_view (txstore_db st) (header_key (he_hash e)) = Some (ser_header example_lib (he_header e))"
    using example_entry_header st(5) by (simp add: st(4) example_txs)
  have ne: "headers hl_empty @ [be_entry example_entry] \<noteq> []" by simp
  have hd: "headers hl_empty @ [be_entry example_entry] = [be_entry example_entry]" by (simp add: hl_empty_def)
  from advance_synced_tip_spec [OF st(2) linked h, THEN conjunct2, unfolded st(3,4) if_not_P [OF ne], unfolded hd]
  obtain st' :: "(bytes \<times> bytes) list store" where "recoverable example_lib st'" "headers (indexed_headers st') = [be_entry example_entry]"
    by blast
  with store_open_recovers [OF _ example_lib_laws] show ?thesis by blast
qed

section \<open>Delays between failing cleanups\<close>



end
