(* ===== verification/Query.thy ===== *)
theory Query
  imports Store "HOL-Library.AList"
begin

text \<open>
  \<open>ChainQuery\<close> of \<^verbatim>\<open>src/new_index/schema.rs\<close>: the queries on the confirmed index, with the caches of
  a script's statistics and unspent outputs. Iterator chains are lazy in the code, so each is one
  recursive function that stops pulling rows where the code does. A \<open>HashMap\<close> of outputs is an
  association list; its order is one of the orders the code may iterate in. In light mode blocks
  and transactions are requested from bitcoind: the answers are the parameter \<open>light_rpc\<close>, a
  failed call being an error and an answer of another shape being \<open>None\<close>.
\<close>

section \<open>State\<close>

record 'db chain_query =
  cq_store :: "'db store"
  cq_light_mode :: bool
  cq_network :: network
  history_scan_limit :: nat
  utxos_checkpoint_limit :: nat

record light_rpc =
  lr_block_txids :: "blockhash \<Rightarrow> txid list option res"
  lr_block_meta :: "blockhash \<Rightarrow> block_meta option res"
  lr_block_raw :: "blockhash \<Rightarrow> bytes option res"
  lr_tx_raw :: "txid \<Rightarrow> blockhash \<Rightarrow> bytes option res"

record utxo =
  ut_txid :: txid
  ut_vout :: u32
  ut_confirmed :: "block_id option"
  ut_value :: u64

definition outpoint_from_utxo :: "utxo \<Rightarrow> outpoint" where
  "outpoint_from_utxo u = \<lparr>op_txid = ut_txid u, op_vout = ut_vout u\<rparr>"

record spending_input =
  sp_txid :: txid
  sp_vin :: u32
  sp_confirmed :: "block_id option"

record script_stats =
  ss_tx_count :: u64
  funded_txo_count :: u64
  spent_txo_count :: u64
  funded_txo_sum :: u64
  spent_txo_sum :: u64

definition stats_default :: script_stats where
  "stats_default = \<lparr>ss_tx_count = 0, funded_txo_count = 0, spent_txo_count = 0, funded_txo_sum = 0, spent_txo_sum = 0\<rparr>"

type_synonym utxo_map = "(outpoint \<times> (block_id \<times> u64)) list"

datatype utxo_scan_stop = ScanLimit | CheckpointLimit

definition MIN_HISTORY_ITEMS_TO_CACHE :: nat where
  "MIN_HISTORY_ITEMS_TO_CACHE = 100"

text \<open>\<open>?\<close> on an \<open>Option\<close> inside a function that returns one, when the lookup itself may panic.\<close>

definition obind :: "'a option res \<Rightarrow> ('a \<Rightarrow> 'b option res) \<Rightarrow> 'b option res" where
  "obind r f = rbind r (\<lambda>v. case v of None \<Rightarrow> Inr None | Some x \<Rightarrow> f x)"

abbreviation q_headers :: "'db chain_query \<Rightarrow> header_list" where
  "q_headers q \<equiv> indexed_headers (cq_store q)"

section \<open>Headers\<close>

definition header_by_hash :: "'db chain_query \<Rightarrow> blockhash \<Rightarrow> header_entry option res" where
  "header_by_hash q h = header_by_blockhash (q_headers q) h"

definition height_by_hash :: "'db chain_query \<Rightarrow> blockhash \<Rightarrow> nat option res" where
  "height_by_hash q h = rmap (map_option he_height) (header_by_blockhash (q_headers q) h)"

definition cq_header_by_height :: "'db chain_query \<Rightarrow> nat \<Rightarrow> header_entry option res" where
  "cq_header_by_height q n = header_by_height (q_headers q) n"

definition hash_by_height :: "'db chain_query \<Rightarrow> nat \<Rightarrow> blockhash option res" where
  "hash_by_height q n = rmap (map_option he_hash) (header_by_height (q_headers q) n)"

definition blockid_by_height :: "'db chain_query \<Rightarrow> nat \<Rightarrow> block_id option res" where
  "blockid_by_height q n = rmap (map_option block_id_from) (header_by_height (q_headers q) n)"

definition blockid_by_hash :: "'db chain_query \<Rightarrow> blockhash \<Rightarrow> block_id option res" where
  "blockid_by_hash q h = rmap (map_option block_id_from) (header_by_blockhash (q_headers q) h)"

definition cq_best_height :: "'db chain_query \<Rightarrow> nat res" where
  "cq_best_height q = best_height (q_headers q)"

definition best_hash :: "'db chain_query \<Rightarrow> blockhash res" where
  "best_hash q = hl_tip (q_headers q)"

definition best_header :: "'db chain_query \<Rightarrow> header_entry res" where
  "best_header q = rbind (hl_tip (q_headers q)) (\<lambda>t.
     rbind (header_by_blockhash (q_headers q) t) (expect ''missing chain tip''))"

definition get_block_header :: "'db chain_query \<Rightarrow> blockhash \<Rightarrow> block_header option res" where
  "get_block_header q h = rmap (map_option he_header) (header_by_hash q h)"

definition cq_get_mtp :: "'db chain_query \<Rightarrow> nat \<Rightarrow> u32 res" where
  "cq_get_mtp q n = get_mtp (q_headers q) n"

definition get_block_status :: "'db chain_query \<Rightarrow> blockhash \<Rightarrow> block_status res" where
  "get_block_status q h =
     rbind (header_by_blockhash (q_headers q) h) (\<lambda>eo. case eo of
       None \<Rightarrow> Inr bs_orphaned
     | Some e \<Rightarrow> rmap (\<lambda>n. bs_confirmed (he_height e) (map_option he_hash n))
         (header_by_height (q_headers q) (he_height e + 1)))"

section \<open>Transactions and outputs\<close>

definition tx_confirming_block_with_headers :: "'db chain_query \<Rightarrow> txid \<Rightarrow> header_list \<Rightarrow> block_id option res" where
  "tx_confirming_block_with_headers q txid hl =
     obind (db_get (history_db (cq_store q)) (tx_conf_key txid)) (\<lambda>row_value.
       rbind (height_from_val row_value) (\<lambda>height.
         rmap (map_option block_id_from) (header_by_height hl (unat height))))"

definition tx_confirming_block :: "'db chain_query \<Rightarrow> txid \<Rightarrow> block_id option res" where
  "tx_confirming_block q txid = tx_confirming_block_with_headers q txid (q_headers q)"

definition try_tx_confirming_block :: "'db chain_query \<Rightarrow> txid \<Rightarrow> block_id option res" where
  "try_tx_confirming_block q txid =
     obind (try_get (history_db (cq_store q)) (tx_conf_key txid)) (\<lambda>row_value.
       if length row_value \<noteq> 4 then Inl (Msg ''invalid transaction confirmation row'')
       else rbind (height_from_val row_value) (\<lambda>height.
         rmap (map_option block_id_from) (header_by_height (q_headers q) (unat height))))"

definition lookup_raw_txn :: "light_rpc \<Rightarrow> 'db chain_query \<Rightarrow> txid \<Rightarrow> blockhash option \<Rightarrow> bytes option res" where
  "lookup_raw_txn L q txid blockhash =
     (if cq_light_mode q then
        obind (case blockhash of
            Some h \<Rightarrow> Inr (Some h)
          | None \<Rightarrow> rmap (map_option bi_hash) (tx_confirming_block q txid)) (\<lambda>h.
          case lr_tx_raw L txid h of
            Inl _ \<Rightarrow> Inr None
          | Inr v \<Rightarrow> rmap Some (expect ''valid tx from bitcoind'' v))
      else db_get (txstore_db (cq_store q)) (tx_row_key txid))"

definition try_lookup_raw_txn :: "light_rpc \<Rightarrow> 'db chain_query \<Rightarrow> txid \<Rightarrow> blockhash option \<Rightarrow> bytes option res" where
  "try_lookup_raw_txn L q txid blockhash =
     (if cq_light_mode q then
        obind (case blockhash of
            Some h \<Rightarrow> Inr (Some h)
          | None \<Rightarrow> rmap (map_option bi_hash) (try_tx_confirming_block q txid)) (\<lambda>h.
          case lr_tx_raw L txid h of
            Inl _ \<Rightarrow> Inr None
          | Inr v \<Rightarrow> rmap Some (ok_or (Msg ''invalid transaction RPC response'') v))
      else try_get (txstore_db (cq_store q)) (tx_row_key txid))"

text \<open>In light mode a missing transaction is found for all the requests at once (\<open>par_iter\<close>).\<close>

definition lookup_raw_txns :: "light_rpc \<Rightarrow> 'db chain_query \<Rightarrow> (txid \<times> blockhash) list \<Rightarrow> bytes list res" where
  "lookup_raw_txns L q txids =
     (if cq_light_mode q then
        collect (map (\<lambda>(txid, blockhash).
          rbind (lookup_raw_txn L q txid (Some blockhash)) (ok_or (Msg ''missing tx''))) txids)
      else
        collect (map (\<lambda>val. rbind val (ok_or (Msg ''missing tx'')))
          (multi_get (txstore_db (cq_store q)) (map (\<lambda>(txid, _). tx_row_key txid) txids))))"

definition lookup_txns :: "bitcoin_lib \<Rightarrow> light_rpc \<Rightarrow> 'db chain_query \<Rightarrow> (txid \<times> blockhash) list \<Rightarrow> transaction list res" where
  "lookup_txns B L q txids =
     rbind (lookup_raw_txns L q txids) (\<lambda>raws.
       collect (map (\<lambda>rawtx. ok_or (Msg ''failed to parse Transaction'') (deser_tx B rawtx)) raws))"

definition cq_lookup_txn ::
  "bitcoin_lib \<Rightarrow> light_rpc \<Rightarrow> 'db chain_query \<Rightarrow> txid \<Rightarrow> blockhash option \<Rightarrow> transaction option res" where
  "cq_lookup_txn B L q txid blockhash =
     obind (try_lookup_raw_txn L q txid blockhash) (\<lambda>rawtx.
       rmap Some (ok_or (Msg ''failed to parse Transaction'') (deser_tx B rawtx)))"

definition cq_lookup_txo :: "bitcoin_lib \<Rightarrow> 'db chain_query \<Rightarrow> outpoint \<Rightarrow> txout option res" where
  "cq_lookup_txo B q p = lookup_txo B (txstore_db (cq_store q)) p"

definition cq_lookup_txos :: "bitcoin_lib \<Rightarrow> 'db chain_query \<Rightarrow> outpoint set \<Rightarrow> (outpoint \<Rightarrow> txout option) res" where
  "cq_lookup_txos B q ps = lookup_txos B (txstore_db (cq_store q)) ps"

definition spending_input_of :: "header_list \<Rightarrow> bytes \<Rightarrow> spending_input option res" where
  "spending_input_of hl raw =
     rbind (edge_from_bytes raw) (\<lambda>edge.
       rmap (map_option (\<lambda>h. \<lparr>sp_txid = te_spending_txid edge, sp_vin = te_spending_vin edge,
           sp_confirmed = Some (block_id_from h)\<rparr>))
         (header_by_height hl (unat (te_spending_height edge))))"

definition lookup_spend :: "'db chain_query \<Rightarrow> outpoint \<Rightarrow> spending_input option res" where
  "lookup_spend q p =
     obind (db_get (history_db (cq_store q)) (tx_edge_key p)) (spending_input_of (q_headers q))"

text \<open>A filtering step of an iterator whose closure may panic.\<close>

fun filter_map_res :: "('a \<Rightarrow> 'b option res) \<Rightarrow> 'a list \<Rightarrow> 'b list res" where
  "filter_map_res f [] = Inr []"
| "filter_map_res f (x # xs) = rbind (f x) (\<lambda>y.
     rmap (\<lambda>ys. case y of None \<Rightarrow> ys | Some z \<Rightarrow> z # ys) (filter_map_res f xs))"

definition lookup_spends :: "'db chain_query \<Rightarrow> outpoint set \<Rightarrow> (outpoint \<Rightarrow> spending_input option) res" where
  "lookup_spends q outpoints =
     (let ps = sorted_list_of_set outpoints in
      rmap map_of (filter_map_res (\<lambda>(edge_val, p).
          obind (unwrap edge_val) (\<lambda>raw. rmap (map_option (Pair p)) (spending_input_of (q_headers q) raw)))
        (zip (multi_get (history_db (cq_store q)) (map tx_edge_key ps)) ps)))"

definition lookup_confirmations :: "'db DB \<Rightarrow> u32 \<Rightarrow> txid set \<Rightarrow> (txid \<Rightarrow> u32 option) res" where
  "lookup_confirmations d tip_height txids =
     (let ts = sorted_list_of_set txids in
      rmap map_of (filter_map_res (\<lambda>(r, txid).
          obind (unwrap r) (\<lambda>raw. rmap (\<lambda>h. if h \<le> tip_height then Some (txid, h) else None)
            (expect ''called `Result::unwrap()` on an `Err` value''
              (if length raw = 4 then Some (of_nat (of_le raw)) else None))))
        (zip (multi_get d (map tx_conf_key ts)) ts)))"

definition cq_lookup_confirmations :: "'db chain_query \<Rightarrow> txid set \<Rightarrow> (txid \<Rightarrow> u32 option) res" where
  "cq_lookup_confirmations q txids =
     rbind (best_height (q_headers q)) (\<lambda>best.
       lookup_confirmations (history_db (cq_store q)) (of_nat best) txids)"

section \<open>Blocks\<close>

definition get_txids :: "bitcoin_lib \<Rightarrow> bytes \<Rightarrow> (txid list \<times> bytes) option" where
  "get_txids B = get_seq Little (deserde_hash B)"

definition get_meta :: "bytes \<Rightarrow> (block_meta \<times> bytes) option" where
  "get_meta bs = bind_dec (get_u32 Little bs) (\<lambda>c r. bind_dec (get_u32 Little r) (\<lambda>z r. bind_dec (get_u32 Little r) (\<lambda>w r.
     Some (\<lparr>tx_count = c, bm_size = z, bm_weight = w\<rparr>, r))))"

definition get_block_txids :: "bitcoin_lib \<Rightarrow> light_rpc \<Rightarrow> 'db chain_query \<Rightarrow> blockhash \<Rightarrow> txid list option res" where
  "get_block_txids B L q hash =
     (if cq_light_mode q then
        (case lr_block_txids L hash of
           Inl _ \<Rightarrow> Inr None
         | Inr v \<Rightarrow> rmap Some (expect ''called `Result::unwrap()` on an `Err` value'' v))
      else obind (db_get (txstore_db (cq_store q)) (txids_key hash)) (\<lambda>val.
        rmap Some (expect ''failed to parse block txids'' (deserialize (get_txids B) val))))"

definition try_get_block_txids :: "bitcoin_lib \<Rightarrow> light_rpc \<Rightarrow> 'db chain_query \<Rightarrow> blockhash \<Rightarrow> txid list option res" where
  "try_get_block_txids B L q hash =
     (if cq_light_mode q then
        (case lr_block_txids L hash of
           Inl _ \<Rightarrow> Inr None
         | Inr v \<Rightarrow> rmap Some (ok_or (Msg ''failed to parse block txids'') v))
      else obind (try_get (txstore_db (cq_store q)) (txids_key hash)) (\<lambda>val.
        rmap Some (ok_or (Msg ''failed to parse block txids'') (deserialize (get_txids B) val))))"

definition get_block_txs ::
  "bitcoin_lib \<Rightarrow> light_rpc \<Rightarrow> 'db chain_query \<Rightarrow> blockhash \<Rightarrow> nat \<Rightarrow> nat \<Rightarrow> transaction list res" where
  "get_block_txs B L q hash start_index limit =
     rbind (rbind (try_get_block_txids B L q hash) (ok_or (Msg ''block not found''))) (\<lambda>txids.
       if \<not> start_index < length txids then Inl (InvalidParams ''start index out of range'')
       else lookup_txns B L q (map (\<lambda>txid. (txid, hash)) (take limit (drop start_index txids))))"

definition get_block_meta :: "light_rpc \<Rightarrow> 'db chain_query \<Rightarrow> blockhash \<Rightarrow> block_meta option res" where
  "get_block_meta L q hash =
     (if cq_light_mode q then
        (case lr_block_meta L hash of
           Inl _ \<Rightarrow> Inr None
         | Inr v \<Rightarrow> rmap Some (expect ''called `Result::unwrap()` on an `Err` value'' v))
      else obind (db_get (txstore_db (cq_store q)) (meta_key hash)) (\<lambda>val.
        rmap Some (expect ''failed to parse BlockMeta'' (deserialize get_meta val))))"

text \<open>\<open>.ok()?\<close> turns every error into \<open>None\<close>, but not a panic.\<close>

definition ok_opt :: "'a res \<Rightarrow> 'a option res" where
  "ok_opt r = (case r of Inr x \<Rightarrow> Inr (Some x) | Inl (Panic m) \<Rightarrow> Inl (Panic m) | Inl _ \<Rightarrow> Inr None)"

definition get_block_raw :: "bitcoin_lib \<Rightarrow> light_rpc \<Rightarrow> 'db chain_query \<Rightarrow> blockhash \<Rightarrow> bytes option res" where
  "get_block_raw B L q hash =
     (if cq_light_mode q then
        (case lr_block_raw L hash of
           Inl _ \<Rightarrow> Inr None
         | Inr v \<Rightarrow> rmap Some (expect ''valid block from bitcoind'' v))
      else
        obind (header_by_hash q hash) (\<lambda>entry.
        obind (get_block_meta L q hash) (\<lambda>meta.
        obind (get_block_txids B L q hash) (\<lambda>txids.
        obind (ok_opt (lookup_raw_txns L q (map (\<lambda>txid. (txid, hash)) txids))) (\<lambda>raw_txs.
          Inr (Some (ser_header B (he_header entry) @ ser_varint B (length raw_txs) @ concat raw_txs)))))))"

record block_header_meta =
  bhm_header_entry :: header_entry
  bhm_meta :: block_meta
  bhm_mtp :: u32

definition get_block_with_meta :: "light_rpc \<Rightarrow> 'db chain_query \<Rightarrow> blockhash \<Rightarrow> block_header_meta option res" where
  "get_block_with_meta L q hash =
     obind (header_by_hash q hash) (\<lambda>entry.
     obind (get_block_meta L q hash) (\<lambda>meta.
       rmap (\<lambda>mtp. Some \<lparr>bhm_header_entry = entry, bhm_meta = meta, bhm_mtp = mtp\<rparr>)
         (cq_get_mtp q (he_height entry))))"

text \<open>\<open>MerkleBlock::from_header_txids_with_predicate\<close> of the \<open>bitcoin\<close> crate is the parameter \<open>mk\<close>.\<close>

definition get_merkleblock_proof ::
  "bitcoin_lib \<Rightarrow> light_rpc \<Rightarrow> (block_header \<Rightarrow> txid list \<Rightarrow> (txid \<Rightarrow> bool) \<Rightarrow> 'm) \<Rightarrow> 'db chain_query \<Rightarrow> txid \<Rightarrow> 'm option res" where
  "get_merkleblock_proof B L mk q txid =
     obind (tx_confirming_block q txid) (\<lambda>blockid.
     obind (header_by_hash q (bi_hash blockid)) (\<lambda>headerentry.
     obind (get_block_txids B L q (bi_hash blockid)) (\<lambda>block_txids.
       Inr (Some (mk (he_header headerentry) block_txids (\<lambda>t. t = txid))))))"

section \<open>History of a script\<close>

definition history_iter_scan :: "'db chain_query \<Rightarrow> u8 \<Rightarrow> fullhash \<Rightarrow> nat \<Rightarrow> db_row res list" where
  "history_iter_scan q code hash start_height =
     iter_scan_from (history_db (cq_store q)) (history_filter code hash) (prefix_height code hash (of_nat start_height))"

definition history_iter_scan_reverse :: "'db chain_query \<Rightarrow> u8 \<Rightarrow> fullhash \<Rightarrow> db_row list" where
  "history_iter_scan_reverse q code hash =
     iter_scan_reverse (history_db (cq_store q)) (history_filter code hash) (prefix_end code hash)"

definition history_iter_scan_reverse_from :: "'db chain_query \<Rightarrow> u8 \<Rightarrow> fullhash \<Rightarrow> nat \<Rightarrow> db_row list" where
  "history_iter_scan_reverse_from q code hash height =
     iter_scan_reverse (history_db (cq_store q)) (history_filter code hash) (prefix_height code hash (of_nat height + 1))"

definition row_txid_height :: "tx_history_key \<Rightarrow> txid \<times> nat" where
  "row_txid_height k = (info_txid (hk_txinfo k), unat (hk_confirmed_height k))"

text \<open>
  The iterator of \<open>_history\<close>: at most \<open>scan_limit\<close> rows are read (the flag tells that more were
  asked for), \<open>unique\<close> keeps the pairs \<open>seen\<close>, everything up to the last seen txid is skipped
  but not past its height, entries without a header are dropped, and it stops after \<open>limit\<close>
  items.
\<close>

fun history_loop ::
  "nat \<Rightarrow> txid option \<Rightarrow> nat option \<Rightarrow> header_list \<Rightarrow> nat \<Rightarrow> nat \<Rightarrow> (txid \<times> nat) set \<Rightarrow> bool \<Rightarrow> db_row list \<Rightarrow>
     ((txid \<times> header_entry) list \<times> bool) res" where
  "history_loop scan_limit last_seen seek hl 0 scanned seen cursor_seen rows = Inr ([], False)"
| "history_loop scan_limit last_seen seek hl (Suc limit) scanned seen cursor_seen [] = Inr ([], False)"
| "history_loop scan_limit last_seen seek hl (Suc limit) scanned seen cursor_seen (row # rows) =
     (if scanned + 1 > scan_limit then Inr ([], True)
      else rbind (history_from_row row) (\<lambda>k.
        let (txid, height) = row_txid_height k;
            seen' = insert (txid, height) seen
        in
        if (txid, height) \<in> seen then
          history_loop scan_limit last_seen seek hl (Suc limit) (scanned + 1) seen cursor_seen rows
        else if cursor_seen then
          rbind (header_by_height hl height) (\<lambda>ho. case ho of
            None \<Rightarrow> history_loop scan_limit last_seen seek hl (Suc limit) (scanned + 1) seen' cursor_seen rows
          | Some header \<Rightarrow>
              rmap (\<lambda>(items, hit). ((txid, header) # items, hit))
                (history_loop scan_limit last_seen seek hl limit (scanned + 1) seen' cursor_seen rows))
        else if last_seen = Some txid then
          history_loop scan_limit last_seen seek hl (Suc limit) (scanned + 1) seen' True rows
        else if (case seek of Some seek_height \<Rightarrow> height < seek_height | None \<Rightarrow> False) then Inr ([], False)
        else history_loop scan_limit last_seen seek hl (Suc limit) (scanned + 1) seen' False rows))"

definition history_code ::
  "bitcoin_lib \<Rightarrow> light_rpc \<Rightarrow> 'db chain_query \<Rightarrow> u8 \<Rightarrow> fullhash \<Rightarrow> txid option \<Rightarrow> nat \<Rightarrow> (transaction \<times> block_id) list res" where
  "history_code B L q code hash last_seen_txid limit =
     (let finish = (\<lambda>seek_height raw_iter.
        rbind (history_loop (history_scan_limit q) last_seen_txid seek_height (q_headers q) limit 0 {}
            (last_seen_txid = None) raw_iter) (\<lambda>(items, hit_scan_limit).
          if hit_scan_limit \<and> length items < limit then Inl TooBigHistory
          else rmap (\<lambda>txs. zip txs (map (\<lambda>(_, header). block_id_from header) items))
            (lookup_txns B L q (map (\<lambda>(txid, header). (txid, he_hash header)) items))))
      in case last_seen_txid of
        None \<Rightarrow> finish None (history_iter_scan_reverse q code hash)
      | Some txid \<Rightarrow>
          rbind (tx_confirming_block_with_headers q txid (q_headers q)) (\<lambda>b. case b of
            None \<Rightarrow> Inr []
          | Some blockid \<Rightarrow>
              finish (Some (bi_height blockid)) (history_iter_scan_reverse_from q code hash (bi_height blockid))))"

definition history ::
  "bitcoin_lib \<Rightarrow> light_rpc \<Rightarrow> 'db chain_query \<Rightarrow> fullhash \<Rightarrow> txid option \<Rightarrow> nat \<Rightarrow> (transaction \<times> block_id) list res" where
  "history B L q scripthash last_seen_txid limit = history_code B L q 0x48 scripthash last_seen_txid limit"

fun history_txids_loop ::
  "header_list \<Rightarrow> nat \<Rightarrow> (txid \<times> nat) set \<Rightarrow> db_row res list \<Rightarrow> (txid \<times> block_id) list res" where
  "history_txids_loop hl 0 seen rows = Inr []"
| "history_txids_loop hl (Suc limit) seen [] = Inr []"
| "history_txids_loop hl (Suc limit) seen (row # rows) =
     rbind (rbind row history_from_row) (\<lambda>k.
       let (txid, height) = row_txid_height k in
       if (txid, height) \<in> seen then history_txids_loop hl (Suc limit) seen rows
       else rbind (header_by_height hl height) (\<lambda>ho. case ho of
         None \<Rightarrow> history_txids_loop hl (Suc limit) (insert (txid, height) seen) rows
       | Some header \<Rightarrow> rmap (Cons (txid, block_id_from header))
           (history_txids_loop hl limit (insert (txid, height) seen) rows)))"

definition history_txids_code :: "'db chain_query \<Rightarrow> u8 \<Rightarrow> fullhash \<Rightarrow> nat \<Rightarrow> (txid \<times> block_id) list res" where
  "history_txids_code q code hash limit = history_txids_loop (q_headers q) limit {} (history_iter_scan q code hash 0)"

definition history_txids :: "'db chain_query \<Rightarrow> fullhash \<Rightarrow> nat \<Rightarrow> (txid \<times> block_id) list res" where
  "history_txids q scripthash limit = history_txids_code q 0x48 scripthash limit"

section \<open>Cache rows\<close>

definition stats_cache_key :: "fullhash \<Rightarrow> bytes" where
  "stats_cache_key scripthash = 0x41 # hash_bytes scripthash"

definition utxo_cache_key :: "fullhash \<Rightarrow> bytes" where
  "utxo_cache_key scripthash = 0x55 # hash_bytes scripthash"

definition put_stats :: "script_stats \<Rightarrow> bytes" where
  "put_stats s = u64_le (ss_tx_count s) @ u64_le (funded_txo_count s) @ u64_le (spent_txo_count s) @
     u64_le (funded_txo_sum s) @ u64_le (spent_txo_sum s)"

definition get_stats :: "bytes \<Rightarrow> (script_stats \<times> bytes) option" where
  "get_stats bs =
     bind_dec (get_u64 Little bs) (\<lambda>c r. bind_dec (get_u64 Little r) (\<lambda>fc r. bind_dec (get_u64 Little r) (\<lambda>sc r.
     bind_dec (get_u64 Little r) (\<lambda>fs r. bind_dec (get_u64 Little r) (\<lambda>s r.
       Some (\<lparr>ss_tx_count = c, funded_txo_count = fc, spent_txo_count = sc, funded_txo_sum = fs, spent_txo_sum = s\<rparr>, r))))))"

definition stats_cache_row :: "bitcoin_lib \<Rightarrow> fullhash \<Rightarrow> script_stats \<Rightarrow> blockhash \<Rightarrow> db_row" where
  "stats_cache_row B scripthash stats blockhash =
     \<lparr>row_key = stats_cache_key scripthash, row_value = put_stats stats @ serde_hash B blockhash\<rparr>"

definition get_stats_cache :: "bitcoin_lib \<Rightarrow> bytes \<Rightarrow> ((script_stats \<times> blockhash) \<times> bytes) option" where
  "get_stats_cache B bs = bind_dec (get_stats bs) (\<lambda>s r. bind_dec (deserde_hash B r) (\<lambda>h r'. Some ((s, h), r')))"

type_synonym cached_utxo_map = "((txid \<times> u32) \<times> (u32 \<times> u64)) list"

definition make_utxo_cache :: "utxo_map \<Rightarrow> cached_utxo_map" where
  "make_utxo_cache utxos =
     map (\<lambda>(p, (blockid, value)). ((op_txid p, op_vout p), (of_nat (bi_height blockid), value))) utxos"

definition put_cached_utxo :: "bitcoin_lib \<Rightarrow> (txid \<times> u32) \<times> (u32 \<times> u64) \<Rightarrow> bytes" where
  "put_cached_utxo B = (\<lambda>((txid, vout), (height, value)). serde_hash B txid @ u32_le vout @ u32_le height @ u64_le value)"

definition get_cached_utxo :: "bitcoin_lib \<Rightarrow> bytes \<Rightarrow> (((txid \<times> u32) \<times> (u32 \<times> u64)) \<times> bytes) option" where
  "get_cached_utxo B bs =
     bind_dec (deserde_hash B bs) (\<lambda>t r. bind_dec (get_u32 Little r) (\<lambda>v r. bind_dec (get_u32 Little r) (\<lambda>h r.
     bind_dec (get_u64 Little r) (\<lambda>x r. Some (((t, v), (h, x)), r)))))"

definition utxo_cache_row :: "bitcoin_lib \<Rightarrow> fullhash \<Rightarrow> utxo_map \<Rightarrow> blockhash \<Rightarrow> db_row" where
  "utxo_cache_row B scripthash utxos blockhash =
     \<lparr>row_key = utxo_cache_key scripthash,
      row_value = put_seq Little (put_cached_utxo B) (make_utxo_cache utxos) @ serde_hash B blockhash\<rparr>"

text \<open>Reading a \<open>HashMap\<close> inserts the entries one by one.\<close>

definition get_utxo_cache :: "bitcoin_lib \<Rightarrow> bytes \<Rightarrow> ((cached_utxo_map \<times> blockhash) \<times> bytes) option" where
  "get_utxo_cache B bs =
     bind_dec (get_seq Little (get_cached_utxo B) bs) (\<lambda>es r.
     bind_dec (deserde_hash B r) (\<lambda>h r'. Some ((fold (\<lambda>(k, v). AList.update k v) es [], h), r')))"

definition utxo_count :: "bytes \<Rightarrow> nat" where
  "utxo_count value = (if length value < 8 then 0 else unat (of_nat (of_le (take 8 value)) :: u64))"

definition from_utxo_cache :: "cached_utxo_map \<Rightarrow> 'db chain_query \<Rightarrow> utxo_map res" where
  "from_utxo_cache utxos_cache q =
     collect (map (\<lambda>((txid, vout), (height, value)).
         rmap (\<lambda>blockid. (\<lparr>op_txid = txid, op_vout = vout\<rparr>, (blockid, value)))
           (rbind (blockid_by_height q (unat height))
             (expect ''missing blockheader for valid utxo cache entry''))) utxos_cache)"

section \<open>Unspent outputs of a script\<close>

definition apply_history :: "tx_history_key \<Rightarrow> block_id \<Rightarrow> utxo_map \<Rightarrow> utxo_map" where
  "apply_history k blockid utxos =
     (let p = info_funded_outpoint (hk_txinfo k) in
      case hk_txinfo k of
        Funding info \<Rightarrow> AList.update p (blockid, fi_value info) utxos
      | Spending _ \<Rightarrow> AList.delete p utxos)"

fun utxo_delta_loop ::
  "nat \<Rightarrow> nat \<Rightarrow> header_list \<Rightarrow> db_row res list \<Rightarrow> utxo_map \<Rightarrow> nat \<Rightarrow> blockhash option \<Rightarrow> blockhash option \<Rightarrow>
     (utxo_map \<times> blockhash option \<times> nat \<times> utxo_scan_stop option) res" where
  "utxo_delta_loop scan_limit ckpt_limit hl [] utxos processed lastblock safe =
     Inr (utxos, lastblock, processed, None)"
| "utxo_delta_loop scan_limit ckpt_limit hl (row # rows) utxos processed lastblock safe =
     rbind (rbind row history_from_row) (\<lambda>k.
     rbind (header_by_height hl (unat (hk_confirmed_height k))) (\<lambda>ho. case ho of
       None \<Rightarrow> utxo_delta_loop scan_limit ckpt_limit hl rows utxos processed lastblock safe
     | Some header \<Rightarrow>
         let blockid = block_id_from header;
             new_block = (case lastblock of Some h \<Rightarrow> h \<noteq> bi_hash blockid | None \<Rightarrow> False);
             safe' = (if new_block then lastblock else safe)
         in
         if new_block \<and> processed \<ge> scan_limit then Inr (utxos, safe', processed, Some ScanLimit)
         else
           let utxos' = apply_history k blockid utxos in
           if length utxos' > ckpt_limit then Inr (utxos', None, processed + 1, Some CheckpointLimit)
           else utxo_delta_loop scan_limit ckpt_limit hl rows utxos' (processed + 1) (Some (bi_hash blockid)) safe'))"

definition utxo_delta ::
  "'db chain_query \<Rightarrow> fullhash \<Rightarrow> utxo_map \<Rightarrow> nat \<Rightarrow> (utxo_map \<times> blockhash option \<times> nat \<times> utxo_scan_stop option) res" where
  "utxo_delta q scripthash init_utxos start_height =
     utxo_delta_loop (history_scan_limit q) (utxos_checkpoint_limit q) (q_headers q)
       (history_iter_scan q 0x48 scripthash start_height) init_utxos 0 None None"

definition utxo_cache_lookup :: "bitcoin_lib \<Rightarrow> 'db chain_query \<Rightarrow> bytes option \<Rightarrow> (utxo_map \<times> nat) option res" where
  "utxo_cache_lookup B q cached_bytes =
     (case cached_bytes of
        None \<Rightarrow> Inr None
      | Some c \<Rightarrow>
          rbind (expect ''called `Result::unwrap()` on an `Err` value'' (deserialize (get_utxo_cache B) c))
            (\<lambda>(utxos_cache, blockhash).
              obind (height_by_hash q blockhash) (\<lambda>height.
                rmap (\<lambda>utxos. Some (utxos, height)) (from_utxo_cache utxos_cache q))))"

abbreviation with_cache_db :: "'db chain_query \<Rightarrow> 'db DB \<Rightarrow> 'db chain_query" where
  "with_cache_db q d \<equiv> q\<lparr>cq_store := (cq_store q)\<lparr>cache_db := d\<rparr>\<rparr>"

text \<open>The result and the chain query with the cache as the call leaves it.\<close>

definition cq_utxo :: "bitcoin_lib \<Rightarrow> 'db chain_query \<Rightarrow> fullhash \<Rightarrow> nat \<Rightarrow> 'db chain_query \<times> utxo list res" where
  "cq_utxo B q scripthash limit =
     (case rbind (db_get (cache_db (cq_store q)) (utxo_cache_key scripthash)) (\<lambda>cached_bytes.
           if (case cached_bytes of Some b \<Rightarrow> utxo_count b > utxos_checkpoint_limit q | None \<Rightarrow> False)
           then Inl TooBigHistory
           else rbind (utxo_cache_lookup B q cached_bytes) (\<lambda>cache.
             rbind (case cache of
                 None \<Rightarrow> utxo_delta q scripthash [] 0
               | Some (oldutxos, blockheight) \<Rightarrow> utxo_delta q scripthash oldutxos (blockheight + 1)) (\<lambda>(newutxos, lastblock, processed, stop).
               if stop = Some CheckpointLimit then Inl TooBigHistory
               else Inr (newutxos, lastblock, processed, stop, cache \<noteq> None)))) of
        Inl e \<Rightarrow> (q, Inl e)
      | Inr (newutxos, lastblock, processed, stop, had_cache) \<Rightarrow>
          let hit_scan_limit = (stop = Some ScanLimit) in
          (case (case lastblock of
                   Some h \<Rightarrow>
                     if had_cache \<or> hit_scan_limit \<or> processed > MIN_HISTORY_ITEMS_TO_CACHE
                     then write_rows (cache_db (cq_store q)) [utxo_cache_row B scripthash newutxos h] FlushEnable
                     else Inr (cache_db (cq_store q))
                 | None \<Rightarrow> Inr (cache_db (cq_store q))) of
             Inl e \<Rightarrow> (q, Inl e)
           | Inr d \<Rightarrow>
               (with_cache_db q d,
                if hit_scan_limit then Inl TooBigHistory
                else if length newutxos > limit then Inl TooManyUtxos
                else Inr (map (\<lambda>(p, (blockid, value)).
                  \<lparr>ut_txid = op_txid p, ut_vout = op_vout p, ut_confirmed = Some blockid, ut_value = value\<rparr>) newutxos))))"

section \<open>Statistics of a script\<close>

definition count_history :: "tx_history_key \<Rightarrow> script_stats \<Rightarrow> script_stats" where
  "count_history k s =
     (case hk_txinfo k of
        Funding info \<Rightarrow> s\<lparr>funded_txo_count := funded_txo_count s + 1, funded_txo_sum := funded_txo_sum s + fi_value info\<rparr>
      | Spending info \<Rightarrow> s\<lparr>spent_txo_count := spent_txo_count s + 1, spent_txo_sum := spent_txo_sum s + si_value info\<rparr>)"

fun stats_delta_loop ::
  "nat \<Rightarrow> header_list \<Rightarrow> db_row res list \<Rightarrow> script_stats \<Rightarrow> txid set \<Rightarrow> nat \<Rightarrow> blockhash option \<Rightarrow> blockhash option \<Rightarrow>
     (script_stats \<times> blockhash option \<times> bool) res" where
  "stats_delta_loop scan_limit hl [] stats seen processed lastblock safe = Inr (stats, lastblock, False)"
| "stats_delta_loop scan_limit hl (row # rows) stats seen processed lastblock safe =
     rbind (rbind row history_from_row) (\<lambda>k.
     rbind (header_by_height hl (unat (hk_confirmed_height k))) (\<lambda>ho. case ho of
       None \<Rightarrow> stats_delta_loop scan_limit hl rows stats seen processed lastblock safe
     | Some header \<Rightarrow>
         let blockid = block_id_from header;
             new_block = (lastblock \<noteq> Some (bi_hash blockid));
             safe' = (if new_block then lastblock else safe);
             seen' = (if new_block then {} else seen);
             txid = info_txid (hk_txinfo k)
         in
         if new_block \<and> processed \<ge> scan_limit then Inr (stats, safe', True)
         else
           stats_delta_loop scan_limit hl rows
             (count_history k (if txid \<in> seen' then stats else stats\<lparr>ss_tx_count := ss_tx_count stats + 1\<rparr>))
             (insert txid seen') (processed + 1) (Some (bi_hash blockid)) safe'))"

definition stats_delta ::
  "'db chain_query \<Rightarrow> fullhash \<Rightarrow> script_stats \<Rightarrow> nat \<Rightarrow> (script_stats \<times> blockhash option \<times> bool) res" where
  "stats_delta q scripthash init_stats start_height =
     stats_delta_loop (history_scan_limit q) (q_headers q) (history_iter_scan q 0x48 scripthash start_height)
       init_stats {} 0 None None"

definition stats_cache_lookup :: "bitcoin_lib \<Rightarrow> 'db chain_query \<Rightarrow> bytes option \<Rightarrow> (script_stats \<times> nat) option res" where
  "stats_cache_lookup B q cached_bytes =
     (case cached_bytes of
        None \<Rightarrow> Inr None
      | Some c \<Rightarrow>
          rbind (expect ''called `Result::unwrap()` on an `Err` value'' (deserialize (get_stats_cache B) c))
            (\<lambda>(stats, blockhash). rmap (map_option (\<lambda>height. (stats, height))) (height_by_hash q blockhash)))"

definition cq_stats :: "bitcoin_lib \<Rightarrow> 'db chain_query \<Rightarrow> fullhash \<Rightarrow> 'db chain_query \<times> script_stats res" where
  "cq_stats B q scripthash =
     (case rbind (db_get (cache_db (cq_store q)) (stats_cache_key scripthash)) (\<lambda>cached_bytes.
           rbind (stats_cache_lookup B q cached_bytes) (\<lambda>cache. case cache of
             None \<Rightarrow> stats_delta q scripthash stats_default 0
           | Some (oldstats, blockheight) \<Rightarrow> stats_delta q scripthash oldstats (blockheight + 1))) of
        Inl e \<Rightarrow> (q, Inl e)
      | Inr (newstats, lastblock, hit_scan_limit) \<Rightarrow>
          (case (case lastblock of
                   Some h \<Rightarrow>
                     if hit_scan_limit \<or>
                        unat (funded_txo_count newstats + spent_txo_count newstats) > MIN_HISTORY_ITEMS_TO_CACHE
                     then write_rows (cache_db (cq_store q)) [stats_cache_row B scripthash newstats h] FlushEnable
                     else Inr (cache_db (cq_store q))
                 | None \<Rightarrow> Inr (cache_db (cq_store q))) of
             Inl e \<Rightarrow> (q, Inl e)
           | Inr d \<Rightarrow> (with_cache_db q d, if hit_scan_limit then Inl TooBigHistory else Inr newstats)))"

section \<open>Address search\<close>

text \<open>\<open>str::from_utf8\<close>: well-formed UTF-8 of the Unicode standard.\<close>

fun utf8_ok :: "nat list \<Rightarrow> bool" where
  "utf8_ok [] = True"
| "utf8_ok (a # bs) =
     (if a < 0x80 then utf8_ok bs
      else if 0xC2 \<le> a \<and> a \<le> 0xDF then
        (case bs of b # r \<Rightarrow> 0x80 \<le> b \<and> b \<le> 0xBF \<and> utf8_ok r | _ \<Rightarrow> False)
      else if 0xE0 \<le> a \<and> a \<le> 0xEF then
        (case bs of b # c # r \<Rightarrow>
           (if a = 0xE0 then 0xA0 else 0x80) \<le> b \<and> b \<le> (if a = 0xED then 0x9F else 0xBF) \<and>
           0x80 \<le> c \<and> c \<le> 0xBF \<and> utf8_ok r
         | _ \<Rightarrow> False)
      else if 0xF0 \<le> a \<and> a \<le> 0xF4 then
        (case bs of b # c # d # r \<Rightarrow>
           (if a = 0xF0 then 0x90 else 0x80) \<le> b \<and> b \<le> (if a = 0xF4 then 0x8F else 0xBF) \<and>
           0x80 \<le> c \<and> c \<le> 0xBF \<and> 0x80 \<le> d \<and> d \<le> 0xBF \<and> utf8_ok r
         | _ \<Rightarrow> False)
      else False)"

definition cq_address_search :: "'db chain_query \<Rightarrow> bytes \<Rightarrow> nat \<Rightarrow> bytes list res" where
  "cq_address_search q pre limit =
     collect (map (\<lambda>r. rbind r (\<lambda>row.
         let a = tl (row_key row) in
         if utf8_ok (map unat a) then Inr a else Inl (Panic ''called `Result::unwrap()` on an `Err` value'')))
       (take limit (iter_scan (txstore_db (cq_store q)) (addr_search_filter pre))))"

end
