(* ===== verification/History.thy ===== *)
theory History
  imports Query Block
begin

text \<open>
  The history of a script as the sequence of its decoded rows, and what the queries compute from
  it: the order of the rows, the unspent outputs and the statistics, with and without a cache.
\<close>

section \<open>The rows of a script\<close>

abbreviation hk_h :: "tx_history_key \<Rightarrow> nat" where
  "hk_h k \<equiv> unat (hk_confirmed_height k)"

definition history_wf :: "'db DB \<Rightarrow> bool" where
  "history_wf d \<longleftrightarrow> (\<forall>k \<in> dom (db_view d). prefix [0x48] k \<longrightarrow> (\<exists>key. k = put_history_key key))"

definition key_of :: "bytes \<Rightarrow> tx_history_key" where
  "key_of bs = the (deserialize get_history_key bs)"

lemma key_of_put [simp]: "key_of (put_history_key k) = k"
  by (simp add: key_of_def history_codec.deserialize_whole)

definition script_history :: "'db DB \<Rightarrow> fullhash \<Rightarrow> tx_history_key list" where
  "script_history d sh = map (key_of \<circ> row_key) (rows_of (db_view d) (prefix (history_filter 0x48 sh)))"

lemma rows_of_filter:
  "finite (dom m) \<Longrightarrow> filter (\<lambda>r. Q (row_key r)) (rows_of m P) = rows_of m (\<lambda>k. P k \<and> Q k)"
  using filter_listing [of m Q P] by (simp add: rows_of_def filter_map comp_def to_row_def)

lemma rows_of_key:
  "finite (dom m) \<Longrightarrow> r \<in> set (rows_of m P) \<Longrightarrow> row_key r \<in> dom m \<and> P (row_key r)"
  by (auto simp: rows_of_def set_listing to_row_def)

lemma rows_of_sorted: "sorted_wrt (\<lambda>r r'. row_key r < row_key r') (rows_of m P)"
  using listing_sorted [of m P] by (simp add: rows_of_def sorted_wrt_map to_row_def)

lemma script_row_key:
  assumes "db_ok d" and "history_wf d" and "r \<in> set (rows_of (db_view d) (prefix (history_filter 0x48 sh)))"
  shows "\<exists>k. row_key r = put_history_key k \<and> hk_code k = 0x48 \<and> hk_hash k = sh"
proof -
  from rows_of_key [OF db_reads(1) [OF assms(1)] assms(3)]
  have r: "row_key r \<in> dom (db_view d)" "prefix (history_filter 0x48 sh) (row_key r)" by simp_all
  then have "prefix [0x48] (row_key r)" by (auto simp: history_filter_def prefix_def)
  with r(1) assms(2) obtain k where k: "row_key r = put_history_key k" unfolding history_wf_def by blast
  with r(2) show ?thesis by (intro exI [of _ k]) (simp add: history_filter_prefix)
qed

lemma history_from_row_key: "row_key r = put_history_key k \<Longrightarrow> history_from_row r = Inr k"
  by (simp add: history_from_row_def history_codec.deserialize_whole)

lemma script_rows_parse:
  assumes "db_ok d" and "history_wf d" and "set rs \<subseteq> set (rows_of (db_view d) (prefix (history_filter 0x48 sh)))"
  shows "map history_from_row rs = map (\<lambda>r. Inr (key_of (row_key r))) rs"
proof -
  have "history_from_row r = Inr (key_of (row_key r))" if "r \<in> set rs" for r
    using script_row_key [OF assms(1,2)] that assms(3) history_from_row_key by fastforce
  then show ?thesis by simp
qed

lemma script_history_mem:
  assumes "db_ok d" and "history_wf d"
  shows "k \<in> set (script_history d sh) \<longleftrightarrow> put_history_key k \<in> dom (db_view d) \<and> hk_code k = 0x48 \<and> hk_hash k = sh"
proof
  assume "k \<in> set (script_history d sh)"
  then obtain r where r: "r \<in> set (rows_of (db_view d) (prefix (history_filter 0x48 sh)))" "k = key_of (row_key r)"
    by (auto simp: script_history_def)
  from script_row_key [OF assms r(1)] r(2) rows_of_key [OF db_reads(1) [OF assms(1)] r(1)]
  show "put_history_key k \<in> dom (db_view d) \<and> hk_code k = 0x48 \<and> hk_hash k = sh" by auto
next
  assume k: "put_history_key k \<in> dom (db_view d) \<and> hk_code k = 0x48 \<and> hk_hash k = sh"
  then obtain v where v: "db_view d (put_history_key k) = Some v" by blast
  have "prefix (history_filter 0x48 sh) (put_history_key k)" using k by simp
  with v have "(put_history_key k, v) \<in> set (listing (db_view d) (prefix (history_filter 0x48 sh)))"
    by (simp add: set_listing [OF db_reads(1) [OF assms(1)]])
  then have "to_row (put_history_key k, v) \<in> set (rows_of (db_view d) (prefix (history_filter 0x48 sh)))"
    by (simp add: rows_of_def)
  then show "k \<in> set (script_history d sh)" by (force simp: script_history_def to_row_def)
qed

lemma script_history_sorted:
  assumes "db_ok d" and "history_wf d"
  shows "sorted_wrt (\<lambda>k k'. put_history_key k < put_history_key k') (script_history d sh)"
    and "sorted (map hk_h (script_history d sh))"
proof -
  let ?R = "rows_of (db_view d) (prefix (history_filter 0x48 sh))"
  have *: "put_history_key (key_of (row_key r)) = row_key r" if "r \<in> set ?R" for r
    using script_row_key [OF assms that] by auto
  show s: "sorted_wrt (\<lambda>k k'. put_history_key k < put_history_key k') (script_history d sh)"
    unfolding script_history_def sorted_wrt_map
    by (rule sorted_wrt_mono_rel [OF _ rows_of_sorted]) (simp add: *)
  have "hk_h k \<le> hk_h k'" if "k \<in> set (script_history d sh)" "k' \<in> set (script_history d sh)"
      "put_history_key k < put_history_key k'" for k k'
  proof (rule ccontr)
    assume "\<not> ?thesis"
    then have "hk_confirmed_height k' < hk_confirmed_height k" by (simp add: word_less_nat_alt)
    then have "put_history_key k' < put_history_key k"
      using that(1,2) script_history_mem [OF assms] by (intro history_key_bounds(3)) auto
    with that(3) show False by simp
  qed
  then show "sorted (map hk_h (script_history d sh))"
    unfolding sorted_map by (rule sorted_wrt_mono_rel [OF _ s])
qed

lemma history_scan_parse:
  assumes "db_ok (history_db (cq_store q))" and "history_wf (history_db (cq_store q))" and "n < 2 ^ 32"
  shows "map (\<lambda>r. rbind r history_from_row) (history_iter_scan q 0x48 sh n) =
    map Inr (filter (\<lambda>k. n \<le> hk_h k) (script_history (history_db (cq_store q)) sh))"
proof -
  let ?d = "history_db (cq_store q)" and ?pre = "history_filter 0x48 sh"
  let ?R = "rows_of (db_view ?d) (prefix ?pre)"
  have "prefix ?pre (prefix_height 0x48 sh (of_nat n))" "PREFIX_LEN \<le> length ?pre"
    by (simp_all add: history_filter_def prefix_height_def PREFIX_LEN_def)
  then have scan: "history_iter_scan q 0x48 sh n =
      map Inr (filter (\<lambda>r. prefix_height 0x48 sh (of_nat n) \<le> row_key r) ?R)"
    unfolding history_iter_scan_def
    by (subst iter_scan_from_view [OF assms(1)])
      (simp_all add: rows_of_filter [OF db_reads(1) [OF assms(1)]] conj_commute)
  have ge: "prefix_height 0x48 sh (of_nat n) \<le> row_key r \<longleftrightarrow> n \<le> hk_h (key_of (row_key r))" if "r \<in> set ?R" for r
  proof -
    from script_row_key [OF assms(1,2) that] obtain k where k: "row_key r = put_history_key k" "hk_code k = 0x48" "hk_hash k = sh"
      by blast
    show ?thesis unfolding k(1) history_key_bounds(1) [OF k(2,3)]
      using assms(3) by (simp add: word_le_nat_alt unat_of_nat_u32)
  qed
  let ?F = "filter (\<lambda>r. prefix_height 0x48 sh (of_nat n) \<le> row_key r) ?R"
  have "?F = filter (\<lambda>r. n \<le> hk_h (key_of (row_key r))) ?R" using ge by (intro filter_cong) simp_all
  then have keys: "map (\<lambda>r. key_of (row_key r)) ?F = filter (\<lambda>k. n \<le> hk_h k) (script_history ?d sh)"
    by (simp add: script_history_def filter_map comp_def)
  have "map history_from_row ?F = map (\<lambda>r. Inr (key_of (row_key r))) ?F"
    by (rule script_rows_parse [OF assms(1,2)]) auto
  then show ?thesis unfolding scan keys [symmetric] by (simp add: comp_def)
qed

section \<open>Replaying a history\<close>

text \<open>The header of the block a row belongs to, if the chain reaches that height.\<close>

definition confirmed :: "header_list \<Rightarrow> tx_history_key \<Rightarrow> header_entry option" where
  "confirmed hl k = (if hk_h k < length (headers hl) then Some (headers hl ! hk_h k) else None)"

definition replay1 :: "header_list \<Rightarrow> tx_history_key \<Rightarrow> utxo_map \<Rightarrow> utxo_map" where
  "replay1 hl k u = (case confirmed hl k of None \<Rightarrow> u | Some e \<Rightarrow> apply_history k (block_id_from e) u)"

definition last_conf1 :: "header_list \<Rightarrow> tx_history_key \<Rightarrow> blockhash option \<Rightarrow> blockhash option" where
  "last_conf1 hl k b = (case confirmed hl k of None \<Rightarrow> b | Some e \<Rightarrow> Some (he_hash e))"

abbreviation replay :: "header_list \<Rightarrow> tx_history_key list \<Rightarrow> utxo_map \<Rightarrow> utxo_map" where
  "replay hl ks u \<equiv> fold (replay1 hl) ks u"

abbreviation last_conf :: "header_list \<Rightarrow> tx_history_key list \<Rightarrow> blockhash option \<Rightarrow> blockhash option" where
  "last_conf hl ks b \<equiv> fold (last_conf1 hl) ks b"

lemma header_by_height_confirmed: "hl_inv hl \<Longrightarrow> header_by_height hl (hk_h k) = Inr (confirmed hl k)"
  by (simp add: header_by_height_spec confirmed_def)

lemma map_Inr_ConsE:
  assumes "map f rows = map Inr (k # ks)"
  obtains r rs where "rows = r # rs" "f r = Inr k" "map f rs = map Inr ks"
  using assms by (cases rows) auto

text \<open>Where a scan of unspent outputs ends: after all the rows, or between two blocks.\<close>

definition scan_end :: "header_list \<Rightarrow> tx_history_key list \<Rightarrow> blockhash option \<Rightarrow> bool \<Rightarrow> nat \<Rightarrow> bool" where
  "scan_end hl ks b all m \<longleftrightarrow> m \<le> length ks \<and> (all \<longrightarrow> m = length ks) \<and>
     (\<not> all \<longrightarrow> m < length ks \<and> (\<exists>e. confirmed hl (ks ! m) = Some e \<and> last_conf hl (take m ks) b \<noteq> Some (he_hash e)))"

lemma scan_end_Suc:
  "scan_end hl ks (last_conf1 hl k b) all m \<Longrightarrow> scan_end hl (k # ks) b all (Suc m)"
  by (simp add: scan_end_def)

lemma utxo_delta_loop_spec:
  assumes "hl_inv hl"
  shows "map (\<lambda>r. rbind r history_from_row) rows = map Inr ks \<Longrightarrow>
    utxo_delta_loop sl cl hl rows u n b safe = Inr (u', b', n', stop) \<Longrightarrow> stop \<noteq> Some CheckpointLimit \<Longrightarrow>
    \<exists>m. u' = replay hl (take m ks) u \<and> b' = last_conf hl (take m ks) b \<and> scan_end hl ks b (stop = None) m"
proof (induction ks arbitrary: rows u n b safe)
  case Nil
  then show ?case by (auto simp: scan_end_def)
next
  case (Cons k ks)
  from Cons.prems(1) obtain r rs where rows: "rows = r # rs" "rbind r history_from_row = Inr k"
    "map (\<lambda>r. rbind r history_from_row) rs = map Inr ks" by (rule map_Inr_ConsE)
  note loop = Cons.prems(2) [unfolded rows(1) utxo_delta_loop.simps rows(2) rbind_simps
      header_by_height_confirmed [OF assms] Let_def]
  show ?case
  proof (cases "confirmed hl k")
    case None
    with loop have "utxo_delta_loop sl cl hl rs u n b safe = Inr (u', b', n', stop)" by simp
    from Cons.IH [OF rows(3) this Cons.prems(3)] obtain m where
      m: "u' = replay hl (take m ks) u" "b' = last_conf hl (take m ks) b" "scan_end hl ks b (stop = None) m" by blast
    from None have "replay1 hl k u = u" "last_conf1 hl k b = b" by (simp_all add: replay1_def last_conf1_def)
    with m show ?thesis by (intro exI [of _ "Suc m"]) (simp add: scan_end_Suc)
  next
    case (Some e)
    let ?new = "case b of Some h \<Rightarrow> h \<noteq> bi_hash (block_id_from e) | None \<Rightarrow> False"
    have step: "replay1 hl k u = apply_history k (block_id_from e) u" "last_conf1 hl k b = Some (bi_hash (block_id_from e))"
      using Some by (simp_all add: replay1_def last_conf1_def block_id_from_def)
    show ?thesis
    proof (cases "?new \<and> sl \<le> n")
      case True
      with loop Some have "u' = u" "b' = b" "stop = Some ScanLimit" by simp_all
      moreover have "b \<noteq> Some (he_hash e)" using True by (auto simp: block_id_from_def)
      ultimately show ?thesis using Some by (intro exI [of _ 0]) (simp add: scan_end_def)
    next
      case False
      with loop Some Cons.prems(3) have "utxo_delta_loop sl cl hl rs (replay1 hl k u) (n + 1) (last_conf1 hl k b)
          (if ?new then b else safe) = Inr (u', b', n', stop)"
        unfolding step by (auto simp only: option.case if_False split: if_splits)
      from Cons.IH [OF rows(3) this Cons.prems(3)] obtain m where
        "u' = replay hl (take m ks) (replay1 hl k u)" "b' = last_conf hl (take m ks) (last_conf1 hl k b)"
        "scan_end hl ks (last_conf1 hl k b) (stop = None) m" by blast
      then show ?thesis by (intro exI [of _ "Suc m"]) (simp add: scan_end_Suc)
    qed
  qed
qed

lemma confirmed_None: "confirmed hl k = None \<longleftrightarrow> length (headers hl) \<le> hk_h k"
  by (simp add: confirmed_def not_less)

definition confirmed_rows :: "header_list \<Rightarrow> tx_history_key list \<Rightarrow> tx_history_key list" where
  "confirmed_rows hl ks = filter (\<lambda>k. confirmed hl k \<noteq> None) ks"

lemma replay_confirmed: "replay hl (confirmed_rows hl ks) u = replay hl ks u"
  by (induction ks arbitrary: u) (auto simp: replay1_def confirmed_rows_def)

lemma last_conf_Some:
  assumes "sorted (map hk_h xs)" and "last_conf hl xs None = Some h"
  shows "\<exists>k \<in> set xs. hk_h k < length (headers hl) \<and> h = he_hash (headers hl ! hk_h k) \<and>
    (\<forall>k' \<in> set xs. hk_h k' < length (headers hl) \<longrightarrow> hk_h k' \<le> hk_h k)"
  using assms
proof (induction xs rule: rev_induct)
  case (snoc x xs)
  have le: "\<forall>k' \<in> set xs. hk_h k' \<le> hk_h x" and s: "sorted (map hk_h xs)"
    using snoc.prems(1) by (simp_all add: sorted_append)
  show ?case
  proof (cases "hk_h x < length (headers hl)")
    case True
    then have "h = he_hash (headers hl ! hk_h x)"
      using snoc.prems(2) by (simp add: last_conf1_def confirmed_def)
    with True le show ?thesis by (intro bexI [of _ x]) auto
  next
    case False
    then have "last_conf1 hl x b = b" for b by (simp add: last_conf1_def confirmed_def)
    then have "last_conf hl xs None = Some h" using snoc.prems(2) by simp
    from snoc.IH [OF s this] False show ?thesis by auto
  qed
qed simp

lemma last_conf_None: "last_conf hl xs None = None \<Longrightarrow> \<forall>k \<in> set xs. length (headers hl) \<le> hk_h k"
  by (induction xs rule: rev_induct) (auto simp: last_conf1_def confirmed_def split: if_splits)

lemma scan_end_height:
  assumes "hl_inv hl" and s: "sorted (map hk_h ks)" and e: "scan_end hl ks None all m"
    and h: "last_conf hl (take m ks) None = Some h"
  shows "\<exists>i. i < length (headers hl) \<and> he_hash (headers hl ! i) = h \<and> i \<in> hk_h ` set ks \<and>
    confirmed_rows hl (take m ks) = filter (\<lambda>k. hk_h k \<le> i) ks"
proof -
  have "sorted (map hk_h (take m ks))" using s by (simp add: take_map [symmetric] sorted_wrt_take)
  from last_conf_Some [OF this h] obtain k where k: "k \<in> set (take m ks)" "hk_h k < length (headers hl)"
    "h = he_hash (headers hl ! hk_h k)" and max: "\<forall>k' \<in> set (take m ks). hk_h k' < length (headers hl) \<longrightarrow> hk_h k' \<le> hk_h k"
    by blast
  let ?i = "hk_h k"
  have "confirmed_rows hl (take m ks) = filter (\<lambda>k. hk_h k \<le> ?i) (take m ks)"
    unfolding confirmed_rows_def using max k(2) by (intro filter_cong) (auto simp: confirmed_None not_le)
  moreover have "filter (\<lambda>k. hk_h k \<le> ?i) (drop m ks) = []"
  proof (cases all)
    case True
    with e show ?thesis by (simp add: scan_end_def)
  next
    case False
    with e obtain x where x: "m < length ks" "confirmed hl (ks ! m) = Some x" "he_hash x \<noteq> h"
      using h by (auto simp: scan_end_def)
    have x': "x = headers hl ! hk_h (ks ! m)" using x(2) by (simp add: confirmed_def split: if_splits)
    have ks: "ks = take m ks @ ks ! m # drop (Suc m) ks" using x(1) by (simp add: id_take_nth_drop)
    then have "sorted (map hk_h (take m ks @ ks ! m # drop (Suc m) ks))" using s by simp
    then have le: "?i \<le> hk_h (ks ! m)" and ge: "\<forall>k' \<in> set (drop (Suc m) ks). hk_h (ks ! m) \<le> hk_h k'"
      using k(1) by (auto simp: sorted_append)
    have "hk_h (ks ! m) \<noteq> ?i" using x(3) x' k(3) by auto
    with le ge have "\<forall>k' \<in> set (ks ! m # drop (Suc m) ks). \<not> hk_h k' \<le> ?i" by auto
    moreover have "drop m ks = ks ! m # drop (Suc m) ks" using x(1) by (simp add: Cons_nth_drop_Suc)
    ultimately show ?thesis by (simp add: filter_empty_conv)
  qed
  ultimately have "confirmed_rows hl (take m ks) = filter (\<lambda>k. hk_h k \<le> ?i) ks"
    by (metis append_Nil2 append_take_drop_id filter_append)
  moreover have "?i \<in> hk_h ` set ks" using k(1) by (auto dest: in_set_takeD)
  ultimately show ?thesis using k by (intro exI [of _ ?i]) simp
qed

lemma sorted_filter_less:
  assumes "sorted (map f ks)"
  shows "ks = filter (\<lambda>k. f k < (n :: nat)) ks @ filter (\<lambda>k. n \<le> f k) ks"
  using assms
proof (induction ks)
  case (Cons k ks)
  show ?case
  proof (cases "f k < n")
    case False
    then have "filter (\<lambda>k. f k < n) ks = []" using Cons.prems by (auto simp: filter_empty_conv)
    with False Cons show ?thesis by auto
  qed (use Cons in auto)
qed simp

lemma sorted_filter_split:
  assumes "sorted (map f ks)" and "n \<le> Suc j"
  shows "filter (\<lambda>k. f k \<le> j) ks = filter (\<lambda>k. f k < n) ks @ filter (\<lambda>k. f k \<le> j) (filter (\<lambda>k. n \<le> f k) ks)"
proof -
  have "filter (\<lambda>k. f k \<le> j) (filter (\<lambda>k. f k < n) ks) = filter (\<lambda>k. f k < n) ks"
    using assms(2) by (auto intro!: filter_cong)
  then show ?thesis
    using arg_cong [OF sorted_filter_less [OF assms(1), of n], of "filter (\<lambda>k. f k \<le> j)"] by (simp only: filter_append)
qed

lemma utxo_delta_loop_total:
  assumes "hl_inv hl"
  shows "map (\<lambda>r. rbind r history_from_row) rows = map Inr ks \<Longrightarrow> length u \<le> cl \<Longrightarrow>
    \<exists>u' b' n' stop. utxo_delta_loop sl cl hl rows u n b safe = Inr (u', b', n', stop) \<and>
      (stop \<noteq> Some CheckpointLimit \<longrightarrow> length u' \<le> cl)"
proof (induction ks arbitrary: rows u n b safe)
  case (Cons k ks)
  from Cons.prems(1) obtain r rs where rows: "rows = r # rs" "rbind r history_from_row = Inr k"
    "map (\<lambda>r. rbind r history_from_row) rs = map Inr ks" by (rule map_Inr_ConsE)
  note loop = utxo_delta_loop.simps(2) [of sl cl hl r rs u n b safe, unfolded rows(2) rbind_simps
      header_by_height_confirmed [OF assms] Let_def]
  show ?case
  proof (cases "confirmed hl k")
    case None
    with loop Cons.IH [OF rows(3) Cons.prems(2)] show ?thesis by (simp add: rows(1))
  next
    case (Some e)
    let ?new = "case b of Some h \<Rightarrow> h \<noteq> bi_hash (block_id_from e) | None \<Rightarrow> False"
    let ?u = "apply_history k (block_id_from e) u"
    consider "?new \<and> sl \<le> n" | "\<not> (?new \<and> sl \<le> n)" "cl < length ?u" | "\<not> (?new \<and> sl \<le> n)" "length ?u \<le> cl"
      by linarith
    then show ?thesis
    proof cases
      case 3
      from loop Some 3 have "utxo_delta_loop sl cl hl rows u n b safe =
          utxo_delta_loop sl cl hl rs ?u (n + 1) (Some (bi_hash (block_id_from e))) (if ?new then b else safe)"
        by (simp only: rows(1) option.case if_False not_less if_not_P simp_thms)
      with Cons.IH [OF rows(3) 3(2)] show ?thesis by simp
    qed (use loop Some Cons.prems(2) in \<open>simp_all add: rows(1)\<close>)
  qed
qed simp

section \<open>The cache of unspent outputs\<close>

lemma update_append: "k \<notin> fst ` set acc \<Longrightarrow> AList.update k v acc = acc @ [(k, v)]"
  by (induction acc) auto

lemma fold_update_distinct:
  "distinct (map fst (acc @ es)) \<Longrightarrow> fold (\<lambda>(k, v). AList.update k v) es acc = acc @ es"
proof (induction es arbitrary: acc)
  case (Cons x es)
  obtain k v where x: "x = (k, v)" by (cases x)
  with Cons.prems have "AList.update k v acc = acc @ [x]" by (auto simp: update_append)
  with Cons show ?case by (simp add: x)
qed simp

lemma cached_utxo_codec:
  assumes "bitcoin_laws B"
  shows "codec (put_cached_utxo B) (get_cached_utxo B)"
proof
  fix x :: "(txid \<times> u32) \<times> (u32 \<times> u64)" and r
  obtain t v h a where x: "x = ((t, v), (h, a))" by (metis surj_pair)
  show "get_cached_utxo B (put_cached_utxo B x @ r) = Some (x, r)"
    by (simp add: x put_cached_utxo_def get_cached_utxo_def bitcoin_lawsD(5) [OF assms])
qed

lemma get_utxo_cache_row:
  assumes "bitcoin_laws B" and "length u < 2 ^ 64"
  shows "deserialize (get_utxo_cache B) (row_value (utxo_cache_row B sh u h)) =
      Some (fold (\<lambda>(k, v). AList.update k v) (make_utxo_cache u) [], h)"
    and "utxo_count (row_value (utxo_cache_row B sh u h)) = length u"
proof -
  have len: "length (make_utxo_cache u) < 2 ^ 64" using assms(2) by (simp add: make_utxo_cache_def)
  show "deserialize (get_utxo_cache B) (row_value (utxo_cache_row B sh u h)) =
      Some (fold (\<lambda>(k, v). AList.update k v) (make_utxo_cache u) [], h)"
    using bitcoin_lawsD(5) [OF assms(1), of h "[]"]
    by (simp add: deserialize_def get_utxo_cache_def utxo_cache_row_def
        get_seq_put [OF cached_utxo_codec [OF assms(1)] len])
  show "utxo_count (row_value (utxo_cache_row B sh u h)) = length u"
    using assms(2) by (simp add: utxo_count_def utxo_cache_row_def put_seq_def make_utxo_cache_def put_u64_def unat_of_nat)
qed

lemma distinct_replay: "distinct (map fst u) \<Longrightarrow> distinct (map fst (replay hl ks u))"
proof (induction ks arbitrary: u)
  case (Cons k ks)
  have "distinct (map fst (replay1 hl k u))"
    using Cons.prems by (auto simp: replay1_def apply_history_def Let_def distinct_update distinct_delete
        split: option.split tx_history_info.split)
  then show ?case by (simp add: Cons.IH)
qed simp

lemma replay_block_ids:
  assumes "\<forall>x \<in> set u. \<exists>i < length (headers hl). fst (snd x) = block_id_from (headers hl ! i)"
  shows "\<forall>x \<in> set (replay hl ks u). \<exists>i < length (headers hl). fst (snd x) = block_id_from (headers hl ! i)"
  using assms
proof (induction ks arbitrary: u)
  case (Cons k ks)
  have upd: "x \<in> set (AList.update p y u) \<Longrightarrow> x = (p, y) \<or> x \<in> set u" for x p and y :: "block_id \<times> u64"
    by (induction u) (auto split: if_splits)
  have del: "x \<in> set (AList.delete p u) \<Longrightarrow> x \<in> set u" for x p
    by (simp add: AList.delete_eq)
  have "\<forall>x \<in> set (replay1 hl k u). \<exists>i < length (headers hl). fst (snd x) = block_id_from (headers hl ! i)"
    using Cons.prems by (auto simp: replay1_def apply_history_def Let_def confirmed_def
        split: option.split tx_history_info.split if_splits dest!: upd del)
  then show ?case by (simp add: Cons.IH)
qed simp


text \<open>What the queries rely on: working databases, parsable history rows, heights below \<open>2\<^sup>32\<close>.\<close>

definition query_ok :: "'db chain_query \<Rightarrow> bool" where
  "query_ok q \<longleftrightarrow> db_ok (txstore_db (cq_store q)) \<and> db_ok (history_db (cq_store q)) \<and> db_ok (cache_db (cq_store q)) \<and>
     history_wf (history_db (cq_store q)) \<and> hl_inv (q_headers q) \<and> length (headers (q_headers q)) < 2 ^ 32 \<and>
     utxos_checkpoint_limit q < 2 ^ 64"

lemma query_okD:
  assumes "query_ok q"
  shows "db_ok (txstore_db (cq_store q))" "db_ok (history_db (cq_store q))" "db_ok (cache_db (cq_store q))"
    "history_wf (history_db (cq_store q))" "hl_inv (q_headers q)" "length (headers (q_headers q)) < 2 ^ 32"
    "utxos_checkpoint_limit q < 2 ^ 64"
  using assms by (simp_all add: query_ok_def)

abbreviation q_history :: "'db chain_query \<Rightarrow> fullhash \<Rightarrow> tx_history_key list" where
  "q_history q sh \<equiv> script_history (history_db (cq_store q)) sh"

abbreviation utxos_at :: "'db chain_query \<Rightarrow> fullhash \<Rightarrow> nat \<Rightarrow> utxo_map" where
  "utxos_at q sh i \<equiv> replay (q_headers q) (filter (\<lambda>k. hk_h k \<le> i) (q_history q sh)) []"

text \<open>A cached set, if its block is still in the chain, is the set as of that block.\<close>

definition utxo_cache_valid :: "bitcoin_lib \<Rightarrow> 'db chain_query \<Rightarrow> fullhash \<Rightarrow> bool" where
  "utxo_cache_valid B q sh \<longleftrightarrow>
     (\<forall>raw. db_view (cache_db (cq_store q)) (utxo_cache_key sh) = Some raw \<longrightarrow>
       (\<exists>u h. raw = row_value (utxo_cache_row B sh u h) \<and> length u < 2 ^ 64 \<and>
          (\<forall>i < length (headers (q_headers q)). he_hash (headers (q_headers q) ! i) = h \<longrightarrow> u = utxos_at q sh i)))"

lemma from_utxo_cache_make:
  assumes "query_ok q" and "\<forall>x \<in> set u. \<exists>i < length (headers (q_headers q)). fst (snd x) = block_id_from (headers (q_headers q) ! i)"
  shows "from_utxo_cache (make_utxo_cache u) q = Inr u"
  using assms(2)
proof (induction u)
  case (Cons x u)
  note hl = query_okD(5,6) [OF assms(1)]
  obtain p b v where x: "x = (p, (b, v))" by (metis surj_pair)
  with Cons.prems obtain i where i: "i < length (headers (q_headers q))" "b = block_id_from (headers (q_headers q) ! i)" by auto
  have "bi_height b = i"
    using linked_nth_height [of 0 DEFAULT_BLOCKHASH "headers (q_headers q)" i] hl(1) i by (simp add: hl_inv_def block_id_from_def)
  then have "unat (of_nat (bi_height b) :: u32) = i" using i(1) hl(2) by (simp add: unat_of_nat_u32)
  then have "blockid_by_height q (unat (of_nat (bi_height b) :: u32)) = Inr (Some b)"
    using i by (simp add: blockid_by_height_def header_by_height_spec [OF hl(1)])
  moreover have "from_utxo_cache (make_utxo_cache u) q = Inr u" using Cons by simp
  ultimately show ?case by (simp add: x make_utxo_cache_def from_utxo_cache_def)
qed (simp add: make_utxo_cache_def from_utxo_cache_def)

lemma utxo_cache_lookup_valid:
  assumes "query_ok q" and "bitcoin_laws B" and "length u < 2 ^ 64"
    and "\<forall>i < length (headers (q_headers q)). he_hash (headers (q_headers q) ! i) = h \<longrightarrow> u = utxos_at q sh i"
  shows "utxo_cache_lookup B q (Some (row_value (utxo_cache_row B sh u h))) = Inr None \<or>
    (\<exists>i < length (headers (q_headers q)). u = utxos_at q sh i \<and>
       utxo_cache_lookup B q (Some (row_value (utxo_cache_row B sh u h))) = Inr (Some (u, i)))"
proof -
  note hl = query_okD(5) [OF assms(1)]
  have look: "utxo_cache_lookup B q (Some (row_value (utxo_cache_row B sh u h))) =
      obind (height_by_hash q h) (\<lambda>height.
        rmap (\<lambda>utxos. Some (utxos, height)) (from_utxo_cache (fold (\<lambda>(k, v). AList.update k v) (make_utxo_cache u) []) q))"
    by (simp add: utxo_cache_lookup_def get_utxo_cache_row(1) [OF assms(2,3)])
  show ?thesis
  proof (rule header_by_blockhash_cases [OF hl, of h], goal_cases found absent)
    case (found i)
    then have u: "u = utxos_at q sh i" using assms(4) by blast
    have dist: "distinct (map fst u)" unfolding u by (rule distinct_replay) simp
    have inj: "inj (\<lambda>p :: outpoint. (op_txid p, op_vout p))" by (rule injI) simp
    have keys: "map fst (make_utxo_cache u) = map (\<lambda>p. (op_txid p, op_vout p)) (map fst u)"
      by (simp add: make_utxo_cache_def case_prod_beta)
    have "distinct (map fst ([] @ make_utxo_cache u))"
      unfolding append_Nil keys by (subst distinct_map) (use dist inj_on_subset [OF inj] in blast)
    from fold_update_distinct [OF this] have upd: "fold (\<lambda>(k, v). AList.update k v) (make_utxo_cache u) [] = make_utxo_cache u" by simp
    have "from_utxo_cache (make_utxo_cache u) q = Inr u"
      by (rule from_utxo_cache_make [OF assms(1)]) (unfold u, rule replay_block_ids, simp)
    then have "utxo_cache_lookup B q (Some (row_value (utxo_cache_row B sh u h))) = Inr (Some (u, i))"
      using found by (simp add: look upd height_by_hash_def obind_def)
    with found u show ?thesis by blast
  next
    case absent
    then show ?thesis by (simp add: look height_by_hash_def obind_def)
  qed
qed


lemma utxo_delta_spec:
  assumes "query_ok q" and "length u \<le> utxos_checkpoint_limit q" and "start \<le> length (headers (q_headers q))"
    and u: "u = replay (q_headers q) (filter (\<lambda>k. hk_h k < start) (q_history q sh)) []"
  obtains u' b n stop where "utxo_delta q sh u start = Inr (u', b, n, stop)"
    "stop \<noteq> Some CheckpointLimit \<longrightarrow> length u' \<le> utxos_checkpoint_limit q"
    "stop = None \<longrightarrow> u' = replay (q_headers q) (q_history q sh) []"
    "\<forall>h. stop \<noteq> Some CheckpointLimit \<longrightarrow> b = Some h \<longrightarrow>
       (\<exists>j < length (headers (q_headers q)). he_hash (headers (q_headers q) ! j) = h \<and> u' = utxos_at q sh j)"
proof -
  let ?hl = "q_headers q" and ?ks = "q_history q sh"
  let ?rest = "filter (\<lambda>k. start \<le> hk_h k) ?ks"
  note ok = query_okD [OF assms(1)]
  have sorted: "sorted (map hk_h ?ks)" by (rule script_history_sorted(2) [OF ok(2,4)])
  have parse: "map (\<lambda>r. rbind r history_from_row) (history_iter_scan q 0x48 sh start) = map Inr ?rest"
    by (rule history_scan_parse [OF ok(2,4)]) (use assms(3) ok(6) in simp)
  from utxo_delta_loop_total [OF ok(5) parse assms(2), of "history_scan_limit q" 0 None None]
  obtain u' b n stop where r: "utxo_delta q sh u start = Inr (u', b, n, stop)"
    and len: "stop \<noteq> Some CheckpointLimit \<longrightarrow> length u' \<le> utxos_checkpoint_limit q"
    unfolding utxo_delta_def by blast
  note spec = utxo_delta_loop_spec [OF ok(5) parse r [unfolded utxo_delta_def]]
  have all: "u' = replay ?hl ?ks []" if "stop = None"
  proof -
    from spec that obtain m where "u' = replay ?hl (take m ?rest) u" "m = length ?rest" by (auto simp: scan_end_def)
    then have "u' = replay ?hl (filter (\<lambda>k. hk_h k < start) ?ks @ ?rest) []" by (simp add: u)
    then show ?thesis by (simp only: sorted_filter_less [OF sorted, symmetric])
  qed
  have at: "\<exists>j < length (headers ?hl). he_hash (headers ?hl ! j) = h \<and> u' = utxos_at q sh j"
    if stop: "stop \<noteq> Some CheckpointLimit" and b: "b = Some h" for h
  proof -
    from spec [OF stop] obtain m where m: "u' = replay ?hl (take m ?rest) u" "b = last_conf ?hl (take m ?rest) None"
      "scan_end ?hl ?rest None (stop = None) m" by blast
    have "sorted (map hk_h ?rest)" by (rule sorted_filter [OF sorted])
    from scan_end_height [OF ok(5) this m(3)] m(2) b obtain j where j: "j < length (headers ?hl)" "he_hash (headers ?hl ! j) = h"
      "j \<in> hk_h ` set ?rest" "confirmed_rows ?hl (take m ?rest) = filter (\<lambda>k. hk_h k \<le> j) ?rest" by metis
    have rep: "replay ?hl (take m ?rest) u = replay ?hl (filter (\<lambda>k. hk_h k \<le> j) ?rest) u" for u
      using replay_confirmed [of ?hl "take m ?rest" u] by (simp add: j(4))
    from j(3) have "start \<le> Suc j" by auto
    from sorted_filter_split [OF sorted this] have "u' = utxos_at q sh j" unfolding m(1) rep u by simp
    with j show ?thesis by blast
  qed
  show thesis by (rule that [OF r len]) (use all at in blast)+
qed


text \<open>Everything \<open>utxo\<close> does before it writes the cache.\<close>

definition utxo_scan ::
  "bitcoin_lib \<Rightarrow> 'db chain_query \<Rightarrow> fullhash \<Rightarrow> (utxo_map \<times> blockhash option \<times> nat \<times> utxo_scan_stop option \<times> bool) res" where
  "utxo_scan B q sh =
     rbind (db_get (cache_db (cq_store q)) (utxo_cache_key sh)) (\<lambda>cached_bytes.
       if (case cached_bytes of Some b \<Rightarrow> utxo_count b > utxos_checkpoint_limit q | None \<Rightarrow> False)
       then Inl TooBigHistory
       else rbind (utxo_cache_lookup B q cached_bytes) (\<lambda>cache.
         rbind (case cache of
             None \<Rightarrow> utxo_delta q sh [] 0
           | Some (oldutxos, blockheight) \<Rightarrow> utxo_delta q sh oldutxos (blockheight + 1)) (\<lambda>(newutxos, lastblock, processed, stop).
           if stop = Some CheckpointLimit then Inl TooBigHistory
           else Inr (newutxos, lastblock, processed, stop, cache \<noteq> None))))"

definition utxo_good :: "'db chain_query \<Rightarrow> fullhash \<Rightarrow> utxo_map \<Rightarrow> blockhash option \<Rightarrow> utxo_scan_stop option \<Rightarrow> bool" where
  "utxo_good q sh u b stop \<longleftrightarrow> length u \<le> utxos_checkpoint_limit q \<and>
     (stop = None \<longrightarrow> u = replay (q_headers q) (q_history q sh) []) \<and>
     (\<forall>h. b = Some h \<longrightarrow> (\<exists>j < length (headers (q_headers q)). he_hash (headers (q_headers q) ! j) = h \<and> u = utxos_at q sh j))"

lemma utxo_scan_delta:
  assumes "query_ok q" and "length u \<le> utxos_checkpoint_limit q" and "start \<le> length (headers (q_headers q))"
    and "u = replay (q_headers q) (filter (\<lambda>k. hk_h k < start) (q_history q sh)) []"
  shows "case utxo_delta q sh u start of
       Inl _ \<Rightarrow> False
     | Inr (u', b, n, stop) \<Rightarrow> stop = Some CheckpointLimit \<or> stop \<noteq> Some CheckpointLimit \<and> utxo_good q sh u' b stop"
  by (rule utxo_delta_spec [OF assms]) (auto simp: utxo_good_def)

lemma utxo_scan_spec:
  assumes "query_ok q" and "bitcoin_laws B" and "utxo_cache_valid B q sh"
  shows "utxo_scan B q sh = Inl TooBigHistory \<or>
    (\<exists>u b n stop had. utxo_scan B q sh = Inr (u, b, n, stop, had) \<and> stop \<noteq> Some CheckpointLimit \<and> utxo_good q sh u b stop)"
proof -
  note ok = query_okD [OF assms(1)]
  have fresh: "(case utxo_delta q sh [] 0 of
       Inl _ \<Rightarrow> False
     | Inr (u', b, n, stop) \<Rightarrow> stop = Some CheckpointLimit \<or> stop \<noteq> Some CheckpointLimit \<and> utxo_good q sh u' b stop)"
    by (rule utxo_scan_delta [OF assms(1)]) simp_all
  show ?thesis
  proof (cases "db_view (cache_db (cq_store q)) (utxo_cache_key sh)")
    case None
    with fresh show ?thesis
      by (auto simp: utxo_scan_def db_reads [OF ok(3)] utxo_cache_lookup_def split: sum.splits)
  next
    case (Some raw)
    with assms(3) obtain u h where u: "raw = row_value (utxo_cache_row B sh u h)" "length u < 2 ^ 64"
      "\<forall>i < length (headers (q_headers q)). he_hash (headers (q_headers q) ! i) = h \<longrightarrow> u = utxos_at q sh i"
      unfolding utxo_cache_valid_def by blast
    have cnt: "utxo_count raw = length u" unfolding u(1) by (rule get_utxo_cache_row(2) [OF assms(2) u(2)])
    show ?thesis
    proof (cases "length u > utxos_checkpoint_limit q")
      case True
      with Some cnt show ?thesis by (simp add: utxo_scan_def db_reads [OF ok(3)])
    next
      case False
      from utxo_cache_lookup_valid [OF assms(1,2) u(2,3)] show ?thesis
      proof
        assume "utxo_cache_lookup B q (Some (row_value (utxo_cache_row B sh u h))) = Inr None"
        with Some cnt False fresh show ?thesis
          by (auto simp: utxo_scan_def db_reads [OF ok(3)] u(1) [symmetric] split: sum.splits)
      next
        assume "\<exists>i < length (headers (q_headers q)). u = utxos_at q sh i \<and>
          utxo_cache_lookup B q (Some (row_value (utxo_cache_row B sh u h))) = Inr (Some (u, i))"
        then obtain i where i: "i < length (headers (q_headers q))" "u = utxos_at q sh i"
          "utxo_cache_lookup B q (Some raw) = Inr (Some (u, i))" by (auto simp: u(1))
        have "(case utxo_delta q sh u (i + 1) of
            Inl _ \<Rightarrow> False
          | Inr (u', b, n, stop) \<Rightarrow> stop = Some CheckpointLimit \<or> stop \<noteq> Some CheckpointLimit \<and> utxo_good q sh u' b stop)"
          by (rule utxo_scan_delta [OF assms(1)]) (use i False in \<open>simp_all add: less_Suc_eq_le\<close>)
        with Some cnt False i(3) show ?thesis
          by (auto simp: utxo_scan_def db_reads [OF ok(3)] split: sum.splits)
      qed
    qed
  qed
qed


definition to_utxo :: "outpoint \<times> (block_id \<times> u64) \<Rightarrow> utxo" where
  "to_utxo = (\<lambda>(p, (blockid, value)).
     \<lparr>ut_txid = op_txid p, ut_vout = op_vout p, ut_confirmed = Some blockid, ut_value = value\<rparr>)"

lemma cq_utxo_scan:
  "cq_utxo B q sh limit =
     (case utxo_scan B q sh of
        Inl e \<Rightarrow> (q, Inl e)
      | Inr (newutxos, lastblock, processed, stop, had_cache) \<Rightarrow>
          (case (case lastblock of
                   Some h \<Rightarrow>
                     if had_cache \<or> stop = Some ScanLimit \<or> processed > MIN_HISTORY_ITEMS_TO_CACHE
                     then write_rows (cache_db (cq_store q)) [utxo_cache_row B sh newutxos h] FlushEnable
                     else Inr (cache_db (cq_store q))
                 | None \<Rightarrow> Inr (cache_db (cq_store q))) of
             Inl e \<Rightarrow> (q, Inl e)
           | Inr d \<Rightarrow>
               (with_cache_db q d,
                if stop = Some ScanLimit then Inl TooBigHistory
                else if length newutxos > limit then Inl TooManyUtxos
                else Inr (map to_utxo newutxos))))"
  by (simp only: cq_utxo_def utxo_scan_def Let_def to_utxo_def)

lemma utxo_cache_write:
  assumes "query_ok q" and "utxo_good q sh u (Some h) stop"
  obtains d where "write_rows (cache_db (cq_store q)) [utxo_cache_row B sh u h] FlushEnable = Inr d"
    "query_ok (with_cache_db q d)" "utxo_cache_valid B (with_cache_db q d) sh"
    "\<forall>k. k \<noteq> utxo_cache_key sh \<longrightarrow> db_view d k = db_view (cache_db (cq_store q)) k"
proof -
  note ok = query_okD [OF assms(1)]
  let ?row = "utxo_cache_row B sh u h"
  have "consistent [?row]" by (simp add: consistent_def)
  from db.write_view [OF ok(3) this, of FlushEnable] obtain d where
    d: "write_rows (cache_db (cq_store q)) [?row] FlushEnable = Inr d" "db_ok d"
      "db_view d = db_view (cache_db (cq_store q)) ++ rows_map [?row]" by blast
  have row: "db_view d (utxo_cache_key sh) = Some (row_value ?row)"
    "\<forall>k. k \<noteq> utxo_cache_key sh \<longrightarrow> db_view d k = db_view (cache_db (cq_store q)) k"
    unfolding d(3) by (simp_all add: rows_map_def utxo_cache_row_def map_add_def)
  have ok': "query_ok (with_cache_db q d)" using assms(1) d(2) by (simp add: query_ok_def)
  have "length u < 2 ^ 64" using assms(2) ok(7) by (simp add: utxo_good_def)
  moreover have "u = utxos_at q sh i" if "i < length (headers (q_headers q))" "he_hash (headers (q_headers q) ! i) = h" for i
  proof -
    from assms(2) obtain j where j: "j < length (headers (q_headers q))" "he_hash (headers (q_headers q) ! j) = h" "u = utxos_at q sh j"
      by (auto simp: utxo_good_def)
    with that ok(5) have "i = j"
      by (simp add: hl_inv_def) (metis length_map nth_eq_iff_index_eq nth_map)
    with j(3) show ?thesis by simp
  qed
  ultimately have "utxo_cache_valid B (with_cache_db q d) sh"
    using row(1) unfolding utxo_cache_valid_def by auto
  with d ok' row(2) show thesis using that by blast
qed

lemma utxo_cache_key_eq [simp]: "utxo_cache_key sh = utxo_cache_key sh' \<longleftrightarrow> sh = sh'"
  by (simp add: utxo_cache_key_def)

lemma cq_utxo_transparent:
  assumes "query_ok q" and "bitcoin_laws B" and "\<forall>s. utxo_cache_valid B q s"
  shows "case cq_utxo B q sh limit of (q', r) \<Rightarrow>
    query_ok q' \<and> (\<forall>s. utxo_cache_valid B q' s) \<and> q' = with_cache_db q (cache_db (cq_store q')) \<and>
    (case r of
       Inr us \<Rightarrow> us = map to_utxo (replay (q_headers q) (q_history q sh) []) \<and> length us \<le> limit
     | Inl e \<Rightarrow> e = TooBigHistory \<or> e = TooManyUtxos)"
proof -
  have same: "q = with_cache_db q (cache_db (cq_store q))" by simp
  consider "utxo_scan B q sh = Inl TooBigHistory"
    | u b n stop had where "utxo_scan B q sh = Inr (u, b, n, stop, had)" "stop \<noteq> Some CheckpointLimit" "utxo_good q sh u b stop"
    using utxo_scan_spec [OF assms(1,2)] assms(3) by blast
  then show ?thesis
  proof cases
    case 1
    with assms same show ?thesis by (simp add: cq_utxo_scan)
  next
    case (2 u b n stop had)
    have res: "case (if stop = Some ScanLimit then Inl TooBigHistory else if length u > limit then Inl TooManyUtxos
        else Inr (map to_utxo u)) of
        Inr us \<Rightarrow> us = map to_utxo (replay (q_headers q) (q_history q sh) []) \<and> length us \<le> limit
      | Inl e \<Rightarrow> e = TooBigHistory \<or> e = TooManyUtxos"
      using 2(2,3) by (cases stop) (auto simp: utxo_good_def intro: utxo_scan_stop.exhaust)
    show ?thesis
    proof (cases "b = None \<or> \<not> (had \<or> stop = Some ScanLimit \<or> n > MIN_HISTORY_ITEMS_TO_CACHE)")
      case True
      then have "cq_utxo B q sh limit = (q, if stop = Some ScanLimit then Inl TooBigHistory
          else if length u > limit then Inl TooManyUtxos else Inr (map to_utxo u))"
        using 2(1) by (cases b) (auto simp: cq_utxo_scan)
      with res assms same show ?thesis by simp
    next
      case False
      then obtain h where h: "b = Some h" by (cases b) auto
      from utxo_cache_write [OF assms(1) 2(3) [unfolded h], of B] obtain d where
        d: "write_rows (cache_db (cq_store q)) [utxo_cache_row B sh u h] FlushEnable = Inr d"
          "query_ok (with_cache_db q d)" "utxo_cache_valid B (with_cache_db q d) sh"
          "\<forall>k. k \<noteq> utxo_cache_key sh \<longrightarrow> db_view d k = db_view (cache_db (cq_store q)) k" by blast
      have "\<forall>s. utxo_cache_valid B (with_cache_db q d) s"
      proof
        fix s
        show "utxo_cache_valid B (with_cache_db q d) s"
          using d(3,4) assms(3) by (cases "s = sh") (auto simp: utxo_cache_valid_def)
      qed
      moreover have "cq_utxo B q sh limit = (with_cache_db q d, if stop = Some ScanLimit then Inl TooBigHistory
          else if length u > limit then Inl TooManyUtxos else Inr (map to_utxo u))"
        using 2(1) False d(1) by (auto simp: cq_utxo_scan h)
      ultimately show ?thesis using res d(2) by simp
    qed
  qed
qed

text \<open>
  Claim C8. The unspent outputs that \<open>utxo\<close> returns are those of replaying the whole history of
  the script, whether or not a cached set was used, and at most \<open>limit\<close> of them; the only errors
  are the two limits. Every cached set stays valid, also when a call ends with an error.
\<close>

theorem utxo_cache_transparent:
  assumes "query_ok q" and "bitcoin_laws B" and "\<forall>s. utxo_cache_valid B q s"
  shows "case cq_utxo B q sh limit of (q', r) \<Rightarrow>
    query_ok q' \<and> (\<forall>s. utxo_cache_valid B q' s) \<and> q' = with_cache_db q (cache_db (cq_store q')) \<and>
    (case r of
       Inr us \<Rightarrow> us = map to_utxo (replay (q_headers q) (q_history q sh) []) \<and> length us \<le> limit
     | Inl e \<Rightarrow> e = TooBigHistory \<or> e = TooManyUtxos)"
  using assms by (rule cq_utxo_transparent)

section \<open>Unspent outputs\<close>

definition effect :: "header_list \<Rightarrow> tx_history_key \<Rightarrow> (block_id \<times> u64) option" where
  "effect hl k = (case hk_txinfo k of Funding f \<Rightarrow> Some (block_id_from (the (confirmed hl k)), fi_value f) | Spending _ \<Rightarrow> None)"

definition touches :: "header_list \<Rightarrow> outpoint \<Rightarrow> tx_history_key \<Rightarrow> bool" where
  "touches hl p k \<longleftrightarrow> confirmed hl k \<noteq> None \<and> info_funded_outpoint (hk_txinfo k) = p"

lemma map_of_replay1:
  "map_of (replay1 hl k u) p = (if touches hl p k then effect hl k else map_of u p)"
  by (auto simp: replay1_def apply_history_def Let_def touches_def effect_def update_conv' delete_conv'
      split: option.split tx_history_info.split)

text \<open>Only the last row about an output counts.\<close>

lemma map_of_replay:
  "map_of (replay hl ks u) p =
     (if filter (touches hl p) ks = [] then map_of u p else effect hl (last (filter (touches hl p) ks)))"
  by (induction ks rule: rev_induct) (simp_all add: map_of_replay1)

lemma sorted_wrt_last:
  "sorted_wrt R xs \<Longrightarrow> x \<in> set xs \<Longrightarrow> x = last xs \<or> R x (last xs)"
  by (induction xs rule: rev_induct) (auto simp: sorted_wrt_append)

lemma funding_before_spending:
  assumes "hk_txinfo f = Funding x" and "hk_txinfo s = Spending y" and "hk_code f = hk_code s" and "hk_hash f = hk_hash s"
    and "hk_h f \<le> hk_h s"
  shows "put_history_key f < put_history_key s"
proof (cases "hk_h f = hk_h s")
  case True
  then have "hk_confirmed_height f = hk_confirmed_height s" by (rule word_unat_eq_iff [THEN iffD2])
  moreover have "put_txinfo (hk_txinfo f) < put_txinfo (hk_txinfo s)"
    by (simp add: assms put_txinfo_def) (subst lex_append_less, simp_all add: u32_be_less_iff)
  ultimately show ?thesis using assms(3,4) by (simp add: put_history_key_def lex_append_same)
next
  case False
  then have "hk_confirmed_height f < hk_confirmed_height s" using assms(5) by (simp add: word_less_nat_alt)
  with assms(3,4) show ?thesis by (intro history_key_bounds(3)) simp_all
qed


text \<open>
  Claim C20. Replaying a history yields the unspent outputs: when an output is funded once and spent
  only at or after the height of its funding, the result holds it, with the value and block of its
  funding row, exactly if no confirmed row spends it. Within a block funding rows come first, so
  an output spent in its own block is gone.
\<close>

theorem replay_unspent:
  assumes "query_ok q"
    and once: "\<forall>k \<in> set (q_history q sh). \<forall>k' \<in> set (q_history q sh). \<forall>f f'. hk_txinfo k = Funding f \<longrightarrow> hk_txinfo k' = Funding f' \<longrightarrow>
      info_funded_outpoint (hk_txinfo k) = info_funded_outpoint (hk_txinfo k') \<longrightarrow> k = k'"
    and later: "\<forall>k \<in> set (q_history q sh). \<forall>k' \<in> set (q_history q sh). \<forall>f s. hk_txinfo k = Funding f \<longrightarrow> hk_txinfo k' = Spending s \<longrightarrow>
      info_funded_outpoint (hk_txinfo k) = info_funded_outpoint (hk_txinfo k') \<longrightarrow> hk_h k \<le> hk_h k'"
  shows "map_of (replay (q_headers q) (q_history q sh) []) p = Some (bid, v) \<longleftrightarrow>
    (\<exists>k \<in> set (q_history q sh). \<exists>f e. hk_txinfo k = Funding f \<and> p = \<lparr>op_txid = fi_txid f, op_vout = fi_vout f\<rparr> \<and>
       fi_value f = v \<and> confirmed (q_headers q) k = Some e \<and> bid = block_id_from e) \<and>
    (\<nexists>k. k \<in> set (q_history q sh) \<and> confirmed (q_headers q) k \<noteq> None \<and>
       (\<exists>s. hk_txinfo k = Spending s \<and> p = \<lparr>op_txid = si_prev_txid s, op_vout = si_prev_vout s\<rparr>))"
  (is "?L \<longleftrightarrow> ?funded \<and> \<not> ?spent")
proof -
  let ?hl = "q_headers q" and ?ks = "q_history q sh"
  let ?xs = "filter (touches ?hl p) ?ks"
  note ok = query_okD [OF assms(1)]
  have sorted: "sorted_wrt (\<lambda>k k'. put_history_key k < put_history_key k') ?xs"
    by (rule sorted_wrt_filter [OF script_history_sorted(1) [OF ok(2,4)]])
  have code: "hk_code k = 0x48" "hk_hash k = sh" if "k \<in> set ?ks" for k
    using that script_history_mem [OF ok(2,4)] by blast+
  have last_spent: "effect ?hl (last ?xs) = None \<and> ?xs \<noteq> []" if spent: ?spent
  proof -
    from spent obtain k s where k: "k \<in> set ?xs" "hk_txinfo k = Spending s"
      by (auto simp: touches_def info_funded_outpoint_def)
    then have ne: "?xs \<noteq> []" by (metis empty_iff list.set(1))
    have mem: "last ?xs \<in> set ?xs" using ne by (rule last_in_set)
    show ?thesis
    proof (cases "hk_txinfo (last ?xs)")
      case (Funding f)
      with k mem later have "hk_h (last ?xs) \<le> hk_h k" by (auto simp: touches_def)
      with Funding k mem code have "put_history_key (last ?xs) < put_history_key k"
        by (intro funding_before_spending) auto
      with sorted_wrt_last [OF sorted k(1)] show ?thesis by auto
    qed (use ne in \<open>simp add: effect_def\<close>)
  qed
  show ?thesis
  proof (cases ?spent)
    case True
    with last_spent show ?thesis by (simp add: map_of_replay)
  next
    case False
    have funding: "\<exists>f. hk_txinfo k = Funding f" if "k \<in> set ?xs" for k
      using that False by (cases "hk_txinfo k") (auto simp: touches_def info_funded_outpoint_def)
    have "?L \<longleftrightarrow> ?funded"
    proof
      assume L: ?L
      then have ne: "?xs \<noteq> []" and eff: "effect ?hl (last ?xs) = Some (bid, v)" by (auto simp: map_of_replay split: if_splits)
      from last_in_set [OF ne] funding obtain f where f: "hk_txinfo (last ?xs) = Funding f" "last ?xs \<in> set ?xs" by blast
      with eff show ?funded
        by (intro bexI [of _ "last ?xs"] exI [of _ f])
          (auto simp: effect_def touches_def info_funded_outpoint_def)
    next
      assume ?funded
      then obtain k f e where k: "k \<in> set ?xs" "hk_txinfo k = Funding f" "fi_value f = v" "confirmed ?hl k = Some e" "bid = block_id_from e"
        by (auto simp: touches_def info_funded_outpoint_def)
      then have ne: "?xs \<noteq> []" by (metis empty_iff list.set(1))
      from last_in_set [OF ne] funding obtain f' where f': "hk_txinfo (last ?xs) = Funding f'" "last ?xs \<in> set ?xs" by blast
      with k(1,2) once have "last ?xs = k" by (auto simp: touches_def)
      with k ne show ?L by (simp add: map_of_replay effect_def)
    qed
    with False show ?thesis by blast
  qed
qed

subsection \<open>A concrete history\<close>

text \<open>Output 0 of transaction 1 is funded at height 0 and spent at height 1 by transaction 2, which funds its own output 0.\<close>

definition example_keys :: "tx_history_key list" where
  "example_keys =
     [\<lparr>hk_code = 0x48, hk_hash = 7, hk_confirmed_height = 0, hk_txinfo = Funding \<lparr>fi_txid = 1, fi_vout = 0, fi_value = 50\<rparr>\<rparr>,
      \<lparr>hk_code = 0x48, hk_hash = 7, hk_confirmed_height = 1, hk_txinfo = Funding \<lparr>fi_txid = 2, fi_vout = 0, fi_value = 49\<rparr>\<rparr>,
      \<lparr>hk_code = 0x48, hk_hash = 7, hk_confirmed_height = 1,
       hk_txinfo = Spending \<lparr>si_txid = 2, si_vin = 0, si_prev_txid = 1, si_prev_vout = 0, si_value = 50\<rparr>\<rparr>]"

definition example_query :: "(bytes \<times> bytes) list chain_query" where
  "example_query =
     \<lparr>cq_store = \<lparr>txstore_db = list_db [], history_db = list_db (map (\<lambda>k. (put_history_key k, [])) example_keys),
        cache_db = list_db [], added_blockhashes = {}, indexed_blockhashes = {}, indexed_headers = example_hl\<rparr>,
      cq_light_mode = False, cq_network = Regtest, history_scan_limit = 100, utxos_checkpoint_limit = 1000\<rparr>"

lemma example_query_db: "dom (db_view (history_db (cq_store example_query))) = put_history_key ` set example_keys"
  by (simp add: example_query_def dom_map_of_conv_image_fst image_image comp_def)

lemma example_query_ok: "query_ok example_query" "utxo_cache_valid B example_query s"
proof -
  have wf: "history_wf (history_db (cq_store example_query))" by (auto simp: history_wf_def example_query_db)
  have len: "length (headers example_hl) = 3" by (simp add: example_hl_def example_headers_def Let_def)
  show "query_ok example_query"
    using wf example_hl_inv by (simp add: query_ok_def) (simp add: example_query_def len)
  show "utxo_cache_valid B example_query s" by (simp add: utxo_cache_valid_def example_query_def)
qed

lemma example_history: "set (q_history example_query 7) = set example_keys"
proof -
  have "k \<in> set (q_history example_query 7) \<longleftrightarrow> k \<in> set example_keys" for k
  proof -
    have "put_history_key k \<in> put_history_key ` set example_keys \<longleftrightarrow> k \<in> set example_keys" by auto
    then show ?thesis
      unfolding script_history_mem [OF query_okD(2,4) [OF example_query_ok(1)]] example_query_db
      by (auto simp: example_keys_def)
  qed
  then show ?thesis by blast
qed

theorem utxo_cache_transparent_witness:
  "case cq_utxo example_lib example_query 7 10 of (q', r) \<Rightarrow> query_ok q' \<and>
     (case r of Inr us \<Rightarrow> length us \<le> 10 | Inl e \<Rightarrow> e = TooBigHistory \<or> e = TooManyUtxos)"
proof -
  have "\<forall>s. utxo_cache_valid example_lib example_query s" using example_query_ok(2) by blast
  from utxo_cache_transparent [OF example_query_ok(1) example_lib_laws this, of 7 10] show ?thesis
    by (auto split: prod.splits sum.splits)
qed

theorem replay_unspent_witness:
  "map_of (replay (q_headers example_query) (q_history example_query 7) []) \<lparr>op_txid = 2, op_vout = 0\<rparr> =
     Some (block_id_from (headers example_hl ! 1), 49) \<and>
   map_of (replay (q_headers example_query) (q_history example_query 7) []) \<lparr>op_txid = 1, op_vout = 0\<rparr> = None"
proof -
  have once: "\<forall>k \<in> set (q_history example_query 7). \<forall>k' \<in> set (q_history example_query 7). \<forall>f f'. hk_txinfo k = Funding f \<longrightarrow> hk_txinfo k' = Funding f' \<longrightarrow>
      info_funded_outpoint (hk_txinfo k) = info_funded_outpoint (hk_txinfo k') \<longrightarrow> k = k'"
    unfolding example_history by (auto simp: example_keys_def info_funded_outpoint_def)
  have later: "\<forall>k \<in> set (q_history example_query 7). \<forall>k' \<in> set (q_history example_query 7). \<forall>f s. hk_txinfo k = Funding f \<longrightarrow> hk_txinfo k' = Spending s \<longrightarrow>
      info_funded_outpoint (hk_txinfo k) = info_funded_outpoint (hk_txinfo k') \<longrightarrow> hk_h k \<le> hk_h k'"
    unfolding example_history by (auto simp: example_keys_def info_funded_outpoint_def)
  note unspent = replay_unspent [OF example_query_ok(1) once later]
  have conf: "confirmed (q_headers example_query) k = Some (headers example_hl ! hk_h k)" if "k \<in> set example_keys" for k
    using that by (auto simp: example_keys_def confirmed_def example_query_def example_hl_def example_headers_def Let_def)
  have "map_of (replay (q_headers example_query) (q_history example_query 7) []) \<lparr>op_txid = 2, op_vout = 0\<rparr> =
     Some (block_id_from (headers example_hl ! 1), 49)"
    unfolding unspent unfolding example_history by (auto simp: conf) (auto simp: example_keys_def)
  moreover have "map_of (replay (q_headers example_query) (q_history example_query 7) []) \<lparr>op_txid = 1, op_vout = 0\<rparr> \<noteq> Some (bid, v)" for bid v
    unfolding unspent unfolding example_history by (auto simp: conf) (auto simp: example_keys_def)
  ultimately show ?thesis by (metis old.prod.exhaust option.exhaust)
qed

end
