(* ===== verification/Stats.thy ===== *)
theory Stats
  imports History
begin

text \<open>
  The statistics of a script: what the loop of \<open>stats_delta\<close> counts, and that the cached
  statistics do not change the answer.
\<close>

section \<open>What is counted\<close>

definition funded_values :: "tx_history_key list \<Rightarrow> u64 list" where
  "funded_values ks = concat (map (\<lambda>k. case hk_txinfo k of Funding f \<Rightarrow> [fi_value f] | Spending _ \<Rightarrow> []) ks)"

definition spent_values :: "tx_history_key list \<Rightarrow> u64 list" where
  "spent_values ks = concat (map (\<lambda>k. case hk_txinfo k of Funding _ \<Rightarrow> [] | Spending s \<Rightarrow> [si_value s]) ks)"

text \<open>The transactions (with their heights), the outputs funded and spent, and their sums, modulo \<open>2\<^sup>64\<close>.\<close>

definition stats_of :: "header_list \<Rightarrow> tx_history_key list \<Rightarrow> script_stats" where
  "stats_of hl ks =
     (let cs = confirmed_rows hl ks in
      \<lparr>ss_tx_count = of_nat (card (row_txid_height ` set cs)),
       funded_txo_count = of_nat (length (funded_values cs)), spent_txo_count = of_nat (length (spent_values cs)),
       funded_txo_sum = sum_list (funded_values cs), spent_txo_sum = sum_list (spent_values cs)\<rparr>)"

definition stats_add :: "script_stats \<Rightarrow> script_stats \<Rightarrow> script_stats" where
  "stats_add s t =
     \<lparr>ss_tx_count = ss_tx_count s + ss_tx_count t, funded_txo_count = funded_txo_count s + funded_txo_count t,
      spent_txo_count = spent_txo_count s + spent_txo_count t, funded_txo_sum = funded_txo_sum s + funded_txo_sum t,
      spent_txo_sum = spent_txo_sum s + spent_txo_sum t\<rparr>"

lemma stats_of_Nil [simp]: "stats_of hl [] = stats_default"
  by (simp add: stats_of_def confirmed_rows_def funded_values_def spent_values_def stats_default_def)

lemma stats_add_default [simp]: "stats_add s stats_default = s" "stats_add stats_default s = s"
  by (simp_all add: stats_add_def stats_default_def)

lemma stats_of_append:
  assumes "\<forall>k \<in> set xs. \<forall>k' \<in> set ys. hk_h k \<noteq> hk_h k'"
  shows "stats_of hl (xs @ ys) = stats_add (stats_of hl xs) (stats_of hl ys)"
proof -
  let ?X = "row_txid_height ` set (confirmed_rows hl xs)" and ?Y = "row_txid_height ` set (confirmed_rows hl ys)"
  have "?X \<inter> ?Y = {}" using assms by (auto simp: confirmed_rows_def row_txid_height_def)
  then have "card (?X \<union> ?Y) = card ?X + card ?Y" by (intro card_Un_disjoint) simp_all
  then show ?thesis
    by (simp add: stats_of_def Let_def stats_add_def confirmed_rows_def funded_values_def spent_values_def image_Un)
qed

section \<open>The loop\<close>

definition stats_step ::
  "header_list \<Rightarrow> tx_history_key \<Rightarrow> script_stats \<times> txid set \<times> blockhash option \<Rightarrow> script_stats \<times> txid set \<times> blockhash option" where
  "stats_step hl k = (\<lambda>(s, seen, b).
     case confirmed hl k of
       None \<Rightarrow> (s, seen, b)
     | Some e \<Rightarrow>
         let seen' = (if b \<noteq> Some (he_hash e) then {} else seen); txid = info_txid (hk_txinfo k) in
         (count_history k (if txid \<in> seen' then s else s\<lparr>ss_tx_count := ss_tx_count s + 1\<rparr>),
          insert txid seen', Some (he_hash e)))"

lemma stats_step_last: "snd (snd (stats_step hl k x)) = last_conf1 hl k (snd (snd x))"
  by (cases x) (simp add: stats_step_def last_conf1_def Let_def split: option.split)

lemma stats_step_Some:
  "confirmed hl k = Some e \<Longrightarrow> stats_step hl k (s, seen, b) =
     (count_history k (if info_txid (hk_txinfo k) \<in> (if b \<noteq> Some (he_hash e) then {} else seen) then s
        else s\<lparr>ss_tx_count := ss_tx_count s + 1\<rparr>),
      insert (info_txid (hk_txinfo k)) (if b \<noteq> Some (he_hash e) then {} else seen), Some (he_hash e))"
  by (simp add: stats_step_def Let_def)

lemma stats_delta_loop_spec:
  assumes "hl_inv hl"
  shows "map (\<lambda>r. rbind r history_from_row) rows = map Inr ks \<Longrightarrow>
    \<exists>s' b' hit m. stats_delta_loop sl hl rows s seen n b safe = Inr (s', b', hit) \<and>
      s' = fst (fold (stats_step hl) (take m ks) (s, seen, b)) \<and> b' = last_conf hl (take m ks) b \<and>
      scan_end hl ks b (\<not> hit) m"
proof (induction ks arbitrary: rows s seen n b safe)
  case Nil
  then show ?case
    by (intro exI [of _ s] exI [of _ b] exI [of _ False] exI [of _ 0]) (simp add: scan_end_def)
next
  case (Cons k ks)
  from Cons.prems(1) obtain r rs where rows: "rows = r # rs" "rbind r history_from_row = Inr k"
    "map (\<lambda>r. rbind r history_from_row) rs = map Inr ks" by (rule map_Inr_ConsE)
  note loop = stats_delta_loop.simps(2) [of sl hl r rs s seen n b safe, unfolded rows(2) rbind_simps
      header_by_height_confirmed [OF assms] Let_def, folded rows(1)]
  show ?case
  proof (cases "confirmed hl k")
    case None
    from Cons.IH [OF rows(3), of s seen n b safe] obtain s' b' hit m where
      m: "stats_delta_loop sl hl rs s seen n b safe = Inr (s', b', hit)"
      "s' = fst (fold (stats_step hl) (take m ks) (s, seen, b))" "b' = last_conf hl (take m ks) b" "scan_end hl ks b (\<not> hit) m"
      by blast
    from None have "stats_step hl k (s, seen, b) = (s, seen, b)" "last_conf1 hl k b = b"
      by (simp_all add: stats_step_def last_conf1_def)
    with m None loop show ?thesis by (intro exI [of _ s'] exI [of _ b'] exI [of _ hit] exI [of _ "Suc m"]) (simp add: scan_end_Suc)
  next
    case (Some e)
    have bh: "bi_hash (block_id_from e) = he_hash e" by (simp add: block_id_from_def)
    show ?thesis
    proof (cases "b \<noteq> Some (he_hash e) \<and> sl \<le> n")
      case True
      with loop Some have "stats_delta_loop sl hl rows s seen n b safe = Inr (s, b, True)" by (simp add: bh)
      with True Some show ?thesis
        by (intro exI [of _ s] exI [of _ b] exI [of _ True] exI [of _ 0]) (simp add: scan_end_def)
    next
      case False
      obtain s1 seen1 where step: "stats_step hl k (s, seen, b) = (s1, seen1, Some (he_hash e))"
        using Some by (simp add: stats_step_def Let_def)
      have "stats_delta_loop sl hl rows s seen n b safe =
          stats_delta_loop sl hl rs s1 seen1 (n + 1) (Some (he_hash e)) (if b \<noteq> Some (he_hash e) then b else safe)"
        using False Some step unfolding loop by (auto simp: bh stats_step_def Let_def)
      moreover from Cons.IH [OF rows(3), of s1 seen1 "n + 1" "Some (he_hash e)" "if b \<noteq> Some (he_hash e) then b else safe"]
      obtain s' b' hit m where "stats_delta_loop sl hl rs s1 seen1 (n + 1) (Some (he_hash e)) (if b \<noteq> Some (he_hash e) then b else safe) = Inr (s', b', hit)"
        "s' = fst (fold (stats_step hl) (take m ks) (s1, seen1, Some (he_hash e)))" "b' = last_conf hl (take m ks) (Some (he_hash e))"
        "scan_end hl ks (Some (he_hash e)) (\<not> hit) m"
        by blast
      moreover have "last_conf1 hl k b = Some (he_hash e)" using Some by (simp add: last_conf1_def)
      ultimately show ?thesis using step
        by (intro exI [of _ s'] exI [of _ b'] exI [of _ hit] exI [of _ "Suc m"]) (simp add: scan_end_Suc)
    qed
  qed
qed


lemma confirmed_hash_height:
  assumes "hl_inv hl" and "confirmed hl k = Some e" and "confirmed hl k' = Some e'"
  shows "he_hash e = he_hash e' \<longleftrightarrow> hk_h k = hk_h k'"
proof -
  have h: "hk_h k < length (headers hl)" "e = headers hl ! hk_h k" "hk_h k' < length (headers hl)" "e' = headers hl ! hk_h k'"
    using assms(2,3) by (auto simp: confirmed_def split: if_splits)
  have "distinct (map he_hash (headers hl))" using assms(1) by (simp add: hl_inv_def)
  from nth_eq_iff_index_eq [OF this, of "hk_h k" "hk_h k'"] h show ?thesis by simp
qed

text \<open>Whether the txid of the next row was seen in its block is whether the row's transaction was counted.\<close>

lemma last_conf_seen:
  assumes "hl_inv hl" and "sorted (map hk_h (ks @ [k]))" and "confirmed hl k = Some e"
  shows "last_conf hl ks None = Some (he_hash e) \<longleftrightarrow> hk_h k \<in> hk_h ` set (confirmed_rows hl ks)"
proof
  have le: "\<forall>k' \<in> set ks. hk_h k' \<le> hk_h k" and s: "sorted (map hk_h ks)"
    using assms(2) by (simp_all add: sorted_append)
  have k: "hk_h k < length (headers hl)" "e = headers hl ! hk_h k"
    using assms(3) by (auto simp: confirmed_def split: if_splits)
  {
    assume "last_conf hl ks None = Some (he_hash e)"
    from last_conf_Some [OF s this] obtain k0 where k0: "k0 \<in> set ks" "hk_h k0 < length (headers hl)" "he_hash e = he_hash (headers hl ! hk_h k0)"
      by blast
    then have c: "confirmed hl k0 = Some (headers hl ! hk_h k0)" by (simp add: confirmed_def)
    with confirmed_hash_height [OF assms(1,3) c] k0(3) have "hk_h k = hk_h k0" by simp
    with k0(1) c show "hk_h k \<in> hk_h ` set (confirmed_rows hl ks)" by (simp add: confirmed_rows_def)
  next
    assume "hk_h k \<in> hk_h ` set (confirmed_rows hl ks)"
    then obtain k1 where k1: "k1 \<in> set ks" "hk_h k1 = hk_h k" by (auto simp: confirmed_rows_def)
    show "last_conf hl ks None = Some (he_hash e)"
    proof (cases "last_conf hl ks None")
      case None
      with last_conf_None [OF None] k1 k(1) show ?thesis by (metis leD)
    next
      case (Some h)
      from last_conf_Some [OF s Some] obtain k0 where k0: "k0 \<in> set ks" "h = he_hash (headers hl ! hk_h k0)"
        "\<forall>k' \<in> set ks. hk_h k' < length (headers hl) \<longrightarrow> hk_h k' \<le> hk_h k0" by blast
      with k1 k(1) le have "hk_h k0 = hk_h k" by (metis le_antisym)
      with k0(2) k(2) Some show ?thesis by simp
    qed
  }
qed

lemma count_history_add:
  "count_history k (if c then s else s\<lparr>ss_tx_count := ss_tx_count s + 1\<rparr>) =
     stats_add s \<lparr>ss_tx_count = (if c then 0 else 1), funded_txo_count = of_nat (length (funded_values [k])),
       spent_txo_count = of_nat (length (spent_values [k])), funded_txo_sum = sum_list (funded_values [k]),
       spent_txo_sum = sum_list (spent_values [k])\<rparr>"
  by (cases "hk_txinfo k") (auto simp: count_history_def stats_add_def funded_values_def spent_values_def)

lemma stats_of_snoc:
  assumes "confirmed hl k \<noteq> None"
  shows "stats_of hl (ks @ [k]) = stats_add (stats_of hl ks)
    \<lparr>ss_tx_count = (if row_txid_height k \<in> row_txid_height ` set (confirmed_rows hl ks) then 0 else 1),
     funded_txo_count = of_nat (length (funded_values [k])), spent_txo_count = of_nat (length (spent_values [k])),
     funded_txo_sum = sum_list (funded_values [k]), spent_txo_sum = sum_list (spent_values [k])\<rparr>"
  using assms by (simp add: stats_of_def Let_def stats_add_def confirmed_rows_def funded_values_def spent_values_def
      card_insert_if)

lemma stats_add_assoc: "stats_add (stats_add a b) c = stats_add a (stats_add b c)"
  by (simp add: stats_add_def add.assoc)

lemma stats_fold:
  assumes "hl_inv hl"
  shows "sorted (map hk_h ks) \<Longrightarrow>
    fold (stats_step hl) ks (s, {}, None) =
      (stats_add s (stats_of hl ks),
       {t. \<exists>k \<in> set ks. \<exists>e. confirmed hl k = Some e \<and> last_conf hl ks None = Some (he_hash e) \<and> t = info_txid (hk_txinfo k)},
       last_conf hl ks None)"
proof (induction ks rule: rev_induct)
  case (snoc k ks)
  have s: "sorted (map hk_h ks)" using snoc.prems by (simp add: sorted_append)
  show ?case
  proof (cases "confirmed hl k")
    case None
    then have "last_conf1 hl k b = b" "stats_step hl k x = x" "stats_of hl (ks @ [k]) = stats_of hl ks" for b x
      by (auto simp: last_conf1_def stats_step_def stats_of_def confirmed_rows_def split: prod.split)
    with snoc.IH [OF s] None show ?thesis by simp
  next
    case (Some e)
    let ?seen = "{t. \<exists>k \<in> set ks. \<exists>e. confirmed hl k = Some e \<and> last_conf hl ks None = Some (he_hash e) \<and> t = info_txid (hk_txinfo k)}"
    let ?seen' = "if last_conf hl ks None \<noteq> Some (he_hash e) then {} else ?seen"
    let ?t = "info_txid (hk_txinfo k)"
    have last: "last_conf hl (ks @ [k]) None = Some (he_hash e)" using Some by (simp add: last_conf1_def)
    have seen': "t \<in> ?seen' \<longleftrightarrow> (\<exists>k' \<in> set ks. \<exists>e'. confirmed hl k' = Some e' \<and> he_hash e = he_hash e' \<and> t = info_txid (hk_txinfo k'))" for t
    proof (cases "last_conf hl ks None = Some (he_hash e)")
      case False
      then have "hk_h k \<notin> hk_h ` set (confirmed_rows hl ks)" using last_conf_seen [OF assms snoc.prems Some] by blast
      then have "\<not> (confirmed hl k' = Some e' \<and> he_hash e = he_hash e')" if "k' \<in> set ks" for k' e'
        using that confirmed_hash_height [OF assms Some] by (fastforce simp: confirmed_rows_def)
      with False show ?thesis by auto
    qed auto
    have counted: "?t \<in> ?seen' \<longleftrightarrow> row_txid_height k \<in> row_txid_height ` set (confirmed_rows hl ks)"
      unfolding seen' using confirmed_hash_height [OF assms Some] by (fastforce simp: confirmed_rows_def row_txid_height_def)
    have "fold (stats_step hl) (ks @ [k]) (s, {}, None) =
        (count_history k (if ?t \<in> ?seen' then stats_add s (stats_of hl ks) else
            (stats_add s (stats_of hl ks))\<lparr>ss_tx_count := ss_tx_count (stats_add s (stats_of hl ks)) + 1\<rparr>),
         insert ?t ?seen', Some (he_hash e))"
      by (simp only: fold_append comp_apply fold_simps snoc.IH [OF s] stats_step_Some [OF Some])
    moreover have "count_history k (if ?t \<in> ?seen' then stats_add s (stats_of hl ks) else
            (stats_add s (stats_of hl ks))\<lparr>ss_tx_count := ss_tx_count (stats_add s (stats_of hl ks)) + 1\<rparr>) =
        stats_add s (stats_of hl (ks @ [k]))"
      unfolding count_history_add counted using Some by (subst stats_of_snoc) (simp_all add: stats_add_assoc)
    moreover have "insert ?t ?seen' = {t. \<exists>k' \<in> set (ks @ [k]). \<exists>e'. confirmed hl k' = Some e' \<and>
        last_conf hl (ks @ [k]) None = Some (he_hash e') \<and> t = info_txid (hk_txinfo k')}"
    proof -
      have "?seen' = {t. \<exists>k' \<in> set ks. \<exists>e'. confirmed hl k' = Some e' \<and> he_hash e = he_hash e' \<and> t = info_txid (hk_txinfo k')}"
        by (rule set_eqI) (simp only: seen' mem_Collect_eq)
      then show ?thesis unfolding last using Some by auto
    qed
    ultimately show ?thesis unfolding last by simp
  qed
qed simp

section \<open>The cache\<close>

abbreviation stats_at :: "'db chain_query \<Rightarrow> fullhash \<Rightarrow> nat \<Rightarrow> script_stats" where
  "stats_at q sh i \<equiv> stats_of (q_headers q) (filter (\<lambda>k. hk_h k \<le> i) (q_history q sh))"

definition stats_cache_valid :: "bitcoin_lib \<Rightarrow> 'db chain_query \<Rightarrow> fullhash \<Rightarrow> bool" where
  "stats_cache_valid B q sh \<longleftrightarrow>
     (\<forall>raw. db_view (cache_db (cq_store q)) (stats_cache_key sh) = Some raw \<longrightarrow>
       (\<exists>s h. raw = row_value (stats_cache_row B sh s h) \<and>
          (\<forall>i < length (headers (q_headers q)). he_hash (headers (q_headers q) ! i) = h \<longrightarrow> s = stats_at q sh i)))"

definition stats_good :: "'db chain_query \<Rightarrow> fullhash \<Rightarrow> script_stats \<Rightarrow> blockhash option \<Rightarrow> bool \<Rightarrow> bool" where
  "stats_good q sh s b hit \<longleftrightarrow>
     (\<not> hit \<longrightarrow> s = stats_of (q_headers q) (q_history q sh)) \<and>
     (\<forall>h. b = Some h \<longrightarrow> (\<exists>j < length (headers (q_headers q)). he_hash (headers (q_headers q) ! j) = h \<and> s = stats_at q sh j))"

lemma stats_of_confirmed: "stats_of hl (confirmed_rows hl ks) = stats_of hl ks"
  by (simp add: stats_of_def confirmed_rows_def)

lemma stats_delta_good:
  assumes "query_ok q" and "start \<le> length (headers (q_headers q))"
    and s: "s = stats_of (q_headers q) (filter (\<lambda>k. hk_h k < start) (q_history q sh))"
  shows "\<exists>s' b hit. stats_delta q sh s start = Inr (s', b, hit) \<and> stats_good q sh s' b hit"
proof -
  let ?hl = "q_headers q" and ?ks = "q_history q sh"
  let ?rest = "filter (\<lambda>k. start \<le> hk_h k) ?ks" and ?old = "filter (\<lambda>k. hk_h k < start) ?ks"
  note ok = query_okD [OF assms(1)]
  have sorted: "sorted (map hk_h ?ks)" by (rule script_history_sorted(2) [OF ok(2,4)])
  have sr: "sorted (map hk_h ?rest)" by (rule sorted_filter [OF sorted])
  have parse: "map (\<lambda>r. rbind r history_from_row) (history_iter_scan q 0x48 sh start) = map Inr ?rest"
    by (rule history_scan_parse [OF ok(2,4)]) (use assms(2) ok(6) in simp)
  from stats_delta_loop_spec [OF ok(5) parse, of "history_scan_limit q" s "{}" 0 None None]
  obtain s' b hit m where r: "stats_delta q sh s start = Inr (s', b, hit)"
    and m: "s' = fst (fold (stats_step ?hl) (take m ?rest) (s, {}, None))" "b = last_conf ?hl (take m ?rest) None"
      "scan_end ?hl ?rest None (\<not> hit) m"
    unfolding stats_delta_def by blast
  have "sorted (map hk_h (take m ?rest))" using sr by (simp add: take_map [symmetric] sorted_wrt_take)
  from stats_fold [OF ok(5) this, of s] have s': "s' = stats_add (stats_of ?hl ?old) (stats_of ?hl (take m ?rest))"
    unfolding m(1) s by simp
  have app: "stats_add (stats_of ?hl ?old) (stats_of ?hl ys) = stats_of ?hl (?old @ ys)" if "set ys \<subseteq> set ?rest" for ys
    by (rule stats_of_append [symmetric]) (use that in auto)
  have all: "s' = stats_of ?hl ?ks" if "\<not> hit"
  proof -
    from m(3) that have "take m ?rest = ?rest" by (simp add: scan_end_def)
    with s' app [of ?rest] have "s' = stats_of ?hl (?old @ ?rest)" by simp
    then show ?thesis by (simp only: sorted_filter_less [OF sorted, symmetric])
  qed
  have at: "\<exists>j < length (headers ?hl). he_hash (headers ?hl ! j) = h \<and> s' = stats_at q sh j" if b: "b = Some h" for h
  proof -
    from scan_end_height [OF ok(5) sr m(3)] m(2) b obtain j where j: "j < length (headers ?hl)" "he_hash (headers ?hl ! j) = h"
      "j \<in> hk_h ` set ?rest" "confirmed_rows ?hl (take m ?rest) = filter (\<lambda>k. hk_h k \<le> j) ?rest" by metis
    from j(3) have "start \<le> Suc j" by auto
    have "s' = stats_add (stats_of ?hl ?old) (stats_of ?hl (filter (\<lambda>k. hk_h k \<le> j) ?rest))"
      using s' stats_of_confirmed [of ?hl "take m ?rest"] unfolding j(4) by simp
    also have "\<dots> = stats_at q sh j" unfolding sorted_filter_split [OF sorted \<open>start \<le> Suc j\<close>] by (rule app) auto
    finally have "s' = stats_at q sh j" .
    with j show ?thesis by blast
  qed
  from r all at show ?thesis by (intro exI [of _ s'] exI [of _ b] exI [of _ hit]) (simp add: stats_good_def)
qed

lemma get_stats_cache_row:
  assumes "bitcoin_laws B"
  shows "deserialize (get_stats_cache B) (row_value (stats_cache_row B sh s h)) = Some (s, h)"
  using bitcoin_lawsD(5) [OF assms, of h "[]"]
  by (simp add: deserialize_def get_stats_cache_def stats_cache_row_def put_stats_def get_stats_def)

definition stats_scan :: "bitcoin_lib \<Rightarrow> 'db chain_query \<Rightarrow> fullhash \<Rightarrow> (script_stats \<times> blockhash option \<times> bool) res" where
  "stats_scan B q scripthash =
     rbind (db_get (cache_db (cq_store q)) (stats_cache_key scripthash)) (\<lambda>cached_bytes.
       rbind (stats_cache_lookup B q cached_bytes) (\<lambda>cache. case cache of
         None \<Rightarrow> stats_delta q scripthash stats_default 0
       | Some (oldstats, blockheight) \<Rightarrow> stats_delta q scripthash oldstats (blockheight + 1)))"

lemma stats_scan_good:
  assumes "query_ok q" and "bitcoin_laws B" and "stats_cache_valid B q sh"
  shows "\<exists>s b hit. stats_scan B q sh = Inr (s, b, hit) \<and> stats_good q sh s b hit"
proof -
  note ok = query_okD [OF assms(1)]
  have fresh: "\<exists>s b hit. stats_delta q sh stats_default 0 = Inr (s, b, hit) \<and> stats_good q sh s b hit"
    by (rule stats_delta_good [OF assms(1)]) simp_all
  show ?thesis
  proof (cases "db_view (cache_db (cq_store q)) (stats_cache_key sh)")
    case None
    with fresh show ?thesis by (simp add: stats_scan_def db_reads [OF ok(3)] stats_cache_lookup_def)
  next
    case (Some raw)
    with assms(3) obtain s h where s: "raw = row_value (stats_cache_row B sh s h)"
      "\<forall>i < length (headers (q_headers q)). he_hash (headers (q_headers q) ! i) = h \<longrightarrow> s = stats_at q sh i"
      unfolding stats_cache_valid_def by blast
    have look: "stats_cache_lookup B q (Some raw) = rmap (map_option (\<lambda>height. (s, height))) (height_by_hash q h)"
      by (simp add: stats_cache_lookup_def s(1) get_stats_cache_row [OF assms(2)])
    show ?thesis
    proof (rule header_by_blockhash_cases [OF ok(5), of h], goal_cases found absent)
      case (found i)
      then have "s = stats_at q sh i" using s(2) by blast
      then have "\<exists>s' b hit. stats_delta q sh s (i + 1) = Inr (s', b, hit) \<and> stats_good q sh s' b hit"
        using found by (intro stats_delta_good [OF assms(1)]) (simp_all add: less_Suc_eq_le)
      with found Some look show ?thesis by (simp add: stats_scan_def db_reads [OF ok(3)] height_by_hash_def)
    next
      case absent
      with fresh Some look show ?thesis by (simp add: stats_scan_def db_reads [OF ok(3)] height_by_hash_def)
    qed
  qed
qed


lemma cq_stats_scan:
  "cq_stats B q sh =
     (case stats_scan B q sh of
        Inl e \<Rightarrow> (q, Inl e)
      | Inr (newstats, lastblock, hit_scan_limit) \<Rightarrow>
          (case (case lastblock of
                   Some h \<Rightarrow>
                     if hit_scan_limit \<or>
                        unat (funded_txo_count newstats + spent_txo_count newstats) > MIN_HISTORY_ITEMS_TO_CACHE
                     then write_rows (cache_db (cq_store q)) [stats_cache_row B sh newstats h] FlushEnable
                     else Inr (cache_db (cq_store q))
                 | None \<Rightarrow> Inr (cache_db (cq_store q))) of
             Inl e \<Rightarrow> (q, Inl e)
           | Inr d \<Rightarrow> (with_cache_db q d, if hit_scan_limit then Inl TooBigHistory else Inr newstats)))"
  by (simp only: cq_stats_def stats_scan_def)

lemma stats_cache_key_eq [simp]: "stats_cache_key sh = stats_cache_key sh' \<longleftrightarrow> sh = sh'"
  by (simp add: stats_cache_key_def)

lemma stats_cache_write:
  assumes "query_ok q" and "stats_good q sh s (Some h) hit" and valid: "\<forall>t. stats_cache_valid B q t"
  obtains d where "write_rows (cache_db (cq_store q)) [stats_cache_row B sh s h] FlushEnable = Inr d"
    "query_ok (with_cache_db q d)" "\<forall>t. stats_cache_valid B (with_cache_db q d) t"
proof -
  note ok = query_okD [OF assms(1)]
  let ?row = "stats_cache_row B sh s h"
  have "consistent [?row]" by (simp add: consistent_def)
  from db.write_view [OF ok(3) this, of FlushEnable] obtain d where
    d: "write_rows (cache_db (cq_store q)) [?row] FlushEnable = Inr d" "db_ok d"
      "db_view d = db_view (cache_db (cq_store q)) ++ rows_map [?row]" by blast
  have row: "db_view d (stats_cache_key sh) = Some (row_value ?row)"
    "\<forall>k. k \<noteq> stats_cache_key sh \<longrightarrow> db_view d k = db_view (cache_db (cq_store q)) k"
    unfolding d(3) by (simp_all add: rows_map_def stats_cache_row_def map_add_def)
  have ok': "query_ok (with_cache_db q d)" using assms(1) d(2) by (simp add: query_ok_def)
  have "s = stats_at q sh i" if "i < length (headers (q_headers q))" "he_hash (headers (q_headers q) ! i) = h" for i
  proof -
    from assms(2) obtain j where j: "j < length (headers (q_headers q))" "he_hash (headers (q_headers q) ! j) = h" "s = stats_at q sh j"
      by (auto simp: stats_good_def)
    with that ok(5) have "i = j"
      by (simp add: hl_inv_def) (metis length_map nth_eq_iff_index_eq nth_map)
    with j(3) show ?thesis by simp
  qed
  then have new: "stats_cache_valid B (with_cache_db q d) sh"
    using row(1) unfolding stats_cache_valid_def by auto
  have "\<forall>t. stats_cache_valid B (with_cache_db q d) t"
  proof
    fix t
    show "stats_cache_valid B (with_cache_db q d) t"
      using new row(2) valid by (cases "t = sh") (auto simp: stats_cache_valid_def)
  qed
  with d ok' show thesis using that by blast
qed

text \<open>
  Claim C21. The statistics that \<open>stats\<close> returns count the whole confirmed history of the script:
  the transactions once per block, the outputs funded and spent and their sums modulo \<open>2\<^sup>64\<close>,
  whether or not cached statistics were used. The only error is the scan limit, and all cached
  statistics stay valid, also when the limit was hit.
\<close>

theorem stats_cache_transparent:
  assumes "query_ok q" and "bitcoin_laws B" and "\<forall>t. stats_cache_valid B q t"
  shows "case cq_stats B q sh of (q', r) \<Rightarrow>
    query_ok q' \<and> (\<forall>t. stats_cache_valid B q' t) \<and> q' = with_cache_db q (cache_db (cq_store q')) \<and>
    (case r of Inr s \<Rightarrow> s = stats_of (q_headers q) (q_history q sh) | Inl e \<Rightarrow> e = TooBigHistory)"
proof -
  have same: "q = with_cache_db q (cache_db (cq_store q))" by simp
  obtain s b hit where scan: "stats_scan B q sh = Inr (s, b, hit)" and good: "stats_good q sh s b hit"
    using stats_scan_good [OF assms(1,2)] assms(3) by blast
  let ?r = "if hit then Inl TooBigHistory else Inr s"
  have res: "case ?r of Inr s \<Rightarrow> s = stats_of (q_headers q) (q_history q sh) | Inl e \<Rightarrow> e = TooBigHistory"
    using good by (simp add: stats_good_def)
  show ?thesis
  proof (cases "b = None \<or> \<not> (hit \<or> unat (funded_txo_count s + spent_txo_count s) > MIN_HISTORY_ITEMS_TO_CACHE)")
    case True
    then have "cq_stats B q sh = (q, ?r)" using scan by (cases b) (auto simp: cq_stats_scan)
    with res assms same show ?thesis by simp
  next
    case False
    then obtain h where h: "b = Some h" by (cases b) auto
    from stats_cache_write [OF assms(1) good [unfolded h] assms(3)] obtain d where
      d: "write_rows (cache_db (cq_store q)) [stats_cache_row B sh s h] FlushEnable = Inr d"
        "query_ok (with_cache_db q d)" "\<forall>t. stats_cache_valid B (with_cache_db q d) t" by blast
    then have "cq_stats B q sh = (with_cache_db q d, ?r)"
      using scan False by (auto simp: cq_stats_scan h)
    with res d show ?thesis by simp
  qed
qed

theorem stats_cache_transparent_witness:
  "case cq_stats example_lib example_query 7 of (q', r) \<Rightarrow> query_ok q' \<and>
     (case r of Inr s \<Rightarrow> s = stats_of (q_headers example_query) (q_history example_query 7) | Inl e \<Rightarrow> e = TooBigHistory)"
proof -
  have "\<forall>t. stats_cache_valid example_lib example_query t"
    by (simp add: stats_cache_valid_def example_query_def)
  from stats_cache_transparent [OF example_query_ok(1) example_lib_laws this, of 7] show ?thesis
    by (auto split: prod.splits sum.splits)
qed

end
