(* ===== verification/Serve.thy ===== *)
theory Serve
  imports Recovery History
begin

text \<open>
  From indexing to answering: what the chain queries return for the blocks of a batch that was
  processed and published.
\<close>

section \<open>Reading the rows of a block\<close>

lemma get_txids_put:
  assumes "bitcoin_laws B" and "length txids < 2 ^ 64"
  shows "deserialize (get_txids B) (put_txids B txids) = Some txids"
proof -
  have "codec (serde_hash B) (deserde_hash B)" by unfold_locales (rule bitcoin_lawsD(5) [OF assms(1)])
  from get_seq_put [OF this assms(2), of Little "[]"] show ?thesis
    by (simp add: deserialize_def get_txids_def put_txids_def)
qed

lemma lookup_raw_txns_rows:
  assumes "db_ok (txstore_db (cq_store q))" and "\<not> cq_light_mode q" and "length xs = length ts"
    and "\<forall>i < length xs. db_view (txstore_db (cq_store q)) (tx_row_key (fst (xs ! i))) = Some (ser_tx B (ts ! i))"
  shows "lookup_raw_txns L q xs = Inr (map (ser_tx B) ts)"
proof -
  have "map (\<lambda>val. rbind val (ok_or (Msg ''missing tx''))) (multi_get (txstore_db (cq_store q)) (map (\<lambda>(txid, _). tx_row_key txid) xs)) =
      map Inr (map (ser_tx B) ts)"
    using assms(3,4) by (intro nth_equalityI) (simp_all add: db_reads [OF assms(1)] case_prod_beta)
  then show ?thesis using assms(2) by (simp add: lookup_raw_txns_def collect_Inr_iff)
qed

lemma lookup_txns_rows:
  assumes "db_ok (txstore_db (cq_store q))" and "\<not> cq_light_mode q" and "bitcoin_laws B" and "length xs = length ts"
    and "\<forall>i < length xs. db_view (txstore_db (cq_store q)) (tx_row_key (fst (xs ! i))) = Some (ser_tx B (ts ! i))"
  shows "lookup_txns B L q xs = Inr ts"
  by (simp add: lookup_txns_def lookup_raw_txns_rows [OF assms(1,2,4,5)] comp_def bitcoin_lawsD(2) [OF assms(3)])

section \<open>A published block\<close>

text \<open>The chain query over a store, its headers as published, in full mode.\<close>

definition serves :: "'db chain_query \<Rightarrow> 'db store \<Rightarrow> block_entry \<Rightarrow> bool" where
  "serves q st b \<longleftrightarrow> txstore_db (cq_store q) = txstore_db st \<and> history_db (cq_store q) = history_db st \<and>
     \<not> cq_light_mode q \<and> hl_inv (q_headers q) \<and> length (headers (q_headers q)) < 2 ^ 32 \<and>
     he_height (be_entry b) < length (headers (q_headers q)) \<and>
     headers (q_headers q) ! he_height (be_entry b) = be_entry b"

lemma serves_header:
  assumes "serves q st b"
  shows "header_by_height (q_headers q) (unat (height32 b)) = Inr (Some (be_entry b))"
    and "header_by_hash q (block_hash_of b) = Inr (Some (be_entry b))"
proof -
  let ?n = "he_height (be_entry b)"
  have inv: "hl_inv (q_headers q)" and n: "?n < length (headers (q_headers q))" "?n < 2 ^ 32"
    and e: "headers (q_headers q) ! ?n = be_entry b"
    using assms by (simp_all add: serves_def)
  show "header_by_height (q_headers q) (unat (height32 b)) = Inr (Some (be_entry b))"
    unfolding unat_of_nat_u32 [OF n(2)] header_by_height_spec [OF inv] using n(1) e by simp
  show "header_by_hash q (block_hash_of b) = Inr (Some (be_entry b))"
    using header_by_blockhash_Some [OF inv n(1)] by (simp add: header_by_hash_def e)
qed

lemma zip_nth_mem: "i < length xs \<Longrightarrow> length xs = length ys \<Longrightarrow> (xs ! i, ys ! i) \<in> set (zip xs ys)"
  by (auto simp: in_set_zip)

text \<open>What the queries read, given the rows of the block.\<close>

lemma get_meta_put: "deserialize get_meta (put_meta bm) = Some bm"
  using get_u32_plain(2) [of "bm_weight bm" "[]"] by (simp add: deserialize_def get_meta_def put_meta_def)

lemma served_block:
  assumes "serves q st b" and "db_ok (txstore_db st)" and "bitcoin_laws B"
    and "length (be_txids b) = length (txdata (be_block b))" and "length (be_txids b) < 2 ^ 64"
    and tids: "db_view (txstore_db st) (txids_key (block_hash_of b)) = Some (put_txids B (be_txids b))"
    and meta: "db_view (txstore_db st) (meta_key (block_hash_of b)) = Some (put_meta (block_meta_from B b))"
    and txs: "\<forall>j < length (be_txids b). db_view (txstore_db st) (tx_row_key (be_txids b ! j)) = Some (ser_tx B (txdata (be_block b) ! j))"
  shows "get_block_txids B L q (block_hash_of b) = Inr (Some (be_txids b))"
    and "j < length (be_txids b) \<Longrightarrow> get_block_txs B L q (block_hash_of b) j n = Inr (take n (drop j (txdata (be_block b))))"
    and "he_header (be_entry b) = blk_header (be_block b) \<Longrightarrow> get_block_raw B L q (block_hash_of b) = Inr (Some (ser_block B (be_block b)))"
proof -
  have q: "txstore_db (cq_store q) = txstore_db st" "\<not> cq_light_mode q" using assms(1) by (simp_all add: serves_def)
  note read = db_reads [OF assms(2)]
  show get: "get_block_txids B L q (block_hash_of b) = Inr (Some (be_txids b))"
    using q by (simp add: get_block_txids_def read obind_def tids get_txids_put [OF assms(3,5)])
  have tids_opt: "try_get_block_txids B L q (block_hash_of b) = Inr (Some (be_txids b))"
    using q by (simp add: try_get_block_txids_def read obind_def tids get_txids_put [OF assms(3,5)])
  have ok: "db_ok (txstore_db (cq_store q))" using assms(2) q by simp
  show "get_block_txs B L q (block_hash_of b) j n = Inr (take n (drop j (txdata (be_block b))))" if "j < length (be_txids b)"
  proof -
    have "lookup_txns B L q (map (\<lambda>txid. (txid, block_hash_of b)) (take n (drop j (be_txids b)))) =
        Inr (take n (drop j (txdata (be_block b))))"
      by (rule lookup_txns_rows [OF ok q(2) assms(3)]) (use assms(4) txs q(1) that in \<open>simp_all add: less_diff_conv add.commute\<close>)
    with tids_opt that show ?thesis by (simp add: get_block_txs_def)
  qed
  show "get_block_raw B L q (block_hash_of b) = Inr (Some (ser_block B (be_block b)))" if "he_header (be_entry b) = blk_header (be_block b)"
  proof -
    have "lookup_raw_txns L q (map (\<lambda>txid. (txid, block_hash_of b)) (be_txids b)) = Inr (map (ser_tx B) (txdata (be_block b)))"
      by (rule lookup_raw_txns_rows [OF ok q(2)]) (use assms(4) txs q(1) in simp_all)
    moreover have "get_block_meta L q (block_hash_of b) = Inr (Some (block_meta_from B b))"
      using q by (simp add: get_block_meta_def read obind_def meta get_meta_put)
    ultimately show ?thesis
      using q get serves_header(2) [OF assms(1)] that
      by (simp add: get_block_raw_def obind_def ok_opt_def bitcoin_lawsD(6) [OF assms(3)])
  qed
qed

lemma served_tx:
  assumes "serves q st b" and "db_ok (txstore_db st)" and "db_ok (history_db st)" and "bitcoin_laws B"
    and "db_view (txstore_db st) (tx_row_key txid) = Some (ser_tx B tx)"
    and "db_view (history_db st) (tx_conf_key txid) = Some (u32_le (height32 b))"
  shows "cq_lookup_txn B L q txid None = Inr (Some tx)"
    and "tx_confirming_block q txid = Inr (Some (block_id_from (be_entry b)))"
    and "db_view (history_db st) (tx_edge_key p) =
        Some (put_edge_value \<lparr>te_spending_txid = t, te_spending_vin = i, te_spending_height = height32 b\<rparr>) \<Longrightarrow>
      lookup_spend q p = Inr (Some \<lparr>sp_txid = t, sp_vin = i, sp_confirmed = Some (block_id_from (be_entry b))\<rparr>)"
proof -
  have q: "txstore_db (cq_store q) = txstore_db st" "history_db (cq_store q) = history_db st" "\<not> cq_light_mode q"
    using assms(1) by (simp_all add: serves_def)
  note header = serves_header(1) [OF assms(1)]
  show "cq_lookup_txn B L q txid None = Inr (Some tx)"
    using q assms(5) by (simp add: cq_lookup_txn_def try_lookup_raw_txn_def db_reads [OF assms(2)] obind_def bitcoin_lawsD(2) [OF assms(4)])
  show "tx_confirming_block q txid = Inr (Some (block_id_from (be_entry b)))"
    using q assms(6) header
    by (simp add: tx_confirming_block_def tx_confirming_block_with_headers_def db_reads [OF assms(3)] obind_def)
  show "lookup_spend q p = Inr (Some \<lparr>sp_txid = t, sp_vin = i, sp_confirmed = Some (block_id_from (be_entry b))\<rparr>)"
    if "db_view (history_db st) (tx_edge_key p) =
        Some (put_edge_value \<lparr>te_spending_txid = t, te_spending_vin = i, te_spending_height = height32 b\<rparr>)"
    using q that header by (simp add: lookup_spend_def db_reads [OF assms(3)] obind_def spending_input_of_def)
qed

text \<open>
  Claim C4. After a batch of new blocks was processed and its headers published, the queries serve
  each block and transaction as it was: the txids and any page of transactions of the block, the
  raw block byte for byte, the transaction by its txid with its confirming block, and for every
  output an input spends the spending input.
\<close>

theorem indexed_block_served:
  assumes "store_inv st" and "process_block_batch B c fl st bs = Inr st'" and "batch_ids bs" and "batch_unique B bs"
    and "\<forall>b \<in> set bs. block_hash_of b \<notin> added_blockhashes st \<and> block_hash_of b \<notin> indexed_blockhashes st"
    and "bitcoin_laws B" and "\<not> light_mode c" and "b \<in> set bs" and "serves q st' b"
    and "length (be_txids b) = length (txdata (be_block b))" and "length (be_txids b) < 2 ^ 64"
    and "he_header (be_entry b) = blk_header (be_block b)"
    and "j < length (be_txids b)"
  shows "get_block_txids B L q (block_hash_of b) = Inr (Some (be_txids b)) \<and>
    get_block_txs B L q (block_hash_of b) j n = Inr (take n (drop j (txdata (be_block b)))) \<and>
    get_block_raw B L q (block_hash_of b) = Inr (Some (ser_block B (be_block b))) \<and>
    cq_lookup_txn B L q (be_txids b ! j) None = Inr (Some (txdata (be_block b) ! j)) \<and>
    tx_confirming_block q (be_txids b ! j) = Inr (Some (block_id_from (be_entry b))) \<and>
    (\<forall>i < length (tx_input (txdata (be_block b) ! j)). has_prevout B (tx_input (txdata (be_block b) ! j) ! i) \<longrightarrow>
       lookup_spend q (previous_output (tx_input (txdata (be_block b) ! j) ! i)) =
         Inr (Some \<lparr>sp_txid = be_txids b ! j, sp_vin = of_nat i, sp_confirmed = Some (block_id_from (be_entry b))\<rparr>))"
proof -
  have inv: "store_inv st'" by (rule process_block_batch_sets(1) [OF assms(1,2)])
  note ok = store_invD(1,2) [OF inv]
  note rows = process_new_batch_rows [OF assms(1-5) assms(8)]
  have mem: "(txdata (be_block b) ! i, be_txids b ! i) \<in> set (block_txs b)" if "i < length (be_txids b)" for i
    using that assms(10) by (intro zip_nth_mem) simp_all
  have tids: "db_view (txstore_db st') (txids_key (block_hash_of b)) = Some (put_txids B (be_txids b))"
    and meta: "db_view (txstore_db st') (meta_key (block_hash_of b)) = Some (put_meta (block_meta_from B b))"
    using rows [OF mem [OF assms(13)]] assms(7) by blast+
  have txs: "\<forall>i < length (be_txids b). db_view (txstore_db st') (tx_row_key (be_txids b ! i)) = Some (ser_tx B (txdata (be_block b) ! i))"
    using rows mem assms(7) by blast
  note block = served_block [OF assms(9) ok(1) assms(6,10,11) tids meta txs]
  have tx: "db_view (txstore_db st') (tx_row_key (be_txids b ! j)) = Some (ser_tx B (txdata (be_block b) ! j))"
    and conf: "db_view (history_db st') (tx_conf_key (be_txids b ! j)) = Some (u32_le (height32 b))"
    using txs assms(13) rows [OF mem [OF assms(13)]] by blast+
  note tx = served_tx [OF assms(9) ok assms(6) tx conf]
  show ?thesis using block assms(12,13) tx rows [OF mem [OF assms(13)]] by blast
qed


theorem indexed_block_served_witness:
  "\<exists>st' (q :: (bytes \<times> bytes) list chain_query).
     process_block_batch example_lib example_config FlushDisable empty_store [example_entry] = Inr st' \<and>
     txstore_db (cq_store q) = txstore_db st' \<and>
     (\<forall>L. get_block_raw example_lib L q 5 = Inr (Some (ser_block example_lib (be_block example_entry))) \<and>
        get_block_txs example_lib L q 5 1 10 = Inr [example_spend])"
proof -
  obtain st' :: "(bytes \<times> bytes) list store"
    where st': "process_block_batch example_lib example_config FlushDisable empty_store [example_entry] = Inr st'"
    using example_processed by blast
  let ?es = "[be_entry example_entry]"
  define q where "q = example_query\<lparr>cq_store := st'\<lparr>indexed_headers := \<lparr>headers = ?es, heights = hash_index ?es, tip = 5\<rparr>\<rparr>\<rparr>"
  have "hl_inv \<lparr>headers = ?es, heights = hash_index ?es, tip = 5\<rparr>"
    using example_entry_header(1) by (simp add: hl_inv_def last_hash_def example_entry_def)
  then have q: "serves q st' example_entry"
    by (simp add: serves_def q_def example_query_def example_txs)
  have new: "\<forall>b \<in> set [example_entry]. block_hash_of b \<notin> added_blockhashes empty_store \<and> block_hash_of b \<notin> indexed_blockhashes empty_store"
    by (simp add: empty_store_def)
  have h: "\<not> light_mode example_config" "example_entry \<in> set [example_entry]"
    "length (be_txids example_entry) < 2 ^ 64" "he_header (be_entry example_entry) = blk_header (be_block example_entry)"
    "1 < length (be_txids example_entry)"
    by (simp_all add: example_config_def example_entry_def)
  have "txdata (be_block example_entry) = [example_coinbase, example_spend]" by (simp add: example_entry_def)
  with indexed_block_served [OF empty_store_inv st' example_ids new example_lib_laws h(1,2) q example_txs(4) h(3-5), where n = 10] st'
  show ?thesis by (intro exI [of _ st'] exI [of _ q]) (simp add: example_txs q_def)
qed

end
