(* ===== verification/Reorg.thy ===== *)
theory Reorg
  imports Recovery Query
begin

text \<open>
  Reorganisations (\<^verbatim>\<open>src/new_index/schema/reorg.rs\<close>): removing the history of blocks that left the
  active chain, and rewriting the rows they shared with blocks that stay. The cleanup runs in
  several durable writes, so an error leaves the state of the writes made before it: operations
  that can fail half way return the state with their result.

  Hash sets and maps whose iteration order only decides the order of deletions are lists in
  insertion order here; the order in which stale blocks leave a hash set is the parameter
  \<open>ord\<close>. The byte size of a write batch is computed by RocksDB and is the parameter \<open>size_of\<close>.
\<close>

section \<open>State of a cleanup\<close>

record pending_spend =
  ps_block :: blockhash
  ps_height :: u32
  ps_txid :: txid
  ps_vin :: u32

record deferred_undo =
  du_pending :: "(outpoint \<times> pending_spend list) list"
  du_blocks :: "(blockhash \<times> (nat \<times> db_row)) list"

definition deferred_default :: deferred_undo where
  "deferred_default = \<lparr>du_pending = [], du_blocks = []\<rparr>"

definition deferred_is_empty :: "deferred_undo \<Rightarrow> bool" where
  "deferred_is_empty d \<longleftrightarrow> du_pending d = []"

text \<open>The store of the view is the indexer's own, passed beside it.\<close>

record active_chain_view =
  av_daemon :: "daemon_rpc option"
  saved_prefix_len :: nat
  new_blocks :: "(nat \<times> blockhash) list"
  transactions :: "(blockhash \<times> txid set) list"

definition active_chain_view_new ::
  "'db store \<Rightarrow> header_entry list \<Rightarrow> nat option \<Rightarrow> daemon_rpc option \<Rightarrow> active_chain_view" where
  "active_chain_view_new st hdrs reorged_since daemon =
     \<lparr>av_daemon = daemon,
      saved_prefix_len = (case reorged_since of Some n \<Rightarrow> n | None \<Rightarrow> hl_len (indexed_headers st)),
      new_blocks = fold (\<lambda>h. AList.update (he_height h) (he_hash h)) hdrs [],
      transactions = []\<rparr>"

definition active_block_at :: "'db store \<Rightarrow> active_chain_view \<Rightarrow> nat \<Rightarrow> blockhash option res" where
  "active_block_at st av height =
     (case map_of (new_blocks av) height of
        Some hash \<Rightarrow>
          if hash \<in> indexed_blockhashes st then Inr (Some hash)
          else if height < saved_prefix_len av then rmap (map_option he_hash) (header_by_height (indexed_headers st) height)
          else Inr None
      | None \<Rightarrow>
          if height < saved_prefix_len av then rmap (map_option he_hash) (header_by_height (indexed_headers st) height)
          else Inr None)"

definition active_txids :: "bitcoin_lib \<Rightarrow> 'db store \<Rightarrow> active_chain_view \<Rightarrow> blockhash \<Rightarrow> txid list res" where
  "active_txids B st av hash =
     rbind (try_get (txstore_db st) (txids_key hash)) (\<lambda>v. case v of
       Some raw \<Rightarrow> ok_or (Msg ''invalid active block transaction list during cleanup'') (deserialize (get_txids B) raw)
     | None \<Rightarrow>
         rbind (ok_or (Msg ''missing active block transaction list during cleanup'') (av_daemon av)) (\<lambda>D.
           rpc_getblock_txids D hash))"

definition contains_transaction ::
  "bitcoin_lib \<Rightarrow> 'db store \<Rightarrow> active_chain_view \<Rightarrow> nat \<Rightarrow> txid \<Rightarrow> (bool \<times> active_chain_view) res" where
  "contains_transaction B st av height txid =
     rbind (active_block_at st av height) (\<lambda>b. case b of
       None \<Rightarrow> Inr (False, av)
     | Some hash \<Rightarrow>
         (case map_of (transactions av) hash of
            Some txids \<Rightarrow> Inr (txid \<in> txids, av)
          | None \<Rightarrow> rmap (\<lambda>txids. (txid \<in> set txids, av\<lparr>transactions := (hash, set txids) # transactions av\<rparr>))
              (active_txids B st av hash)))"

text \<open>Only \<open>H\<close> (and on Liquid \<open>I\<close>) keys include the height.\<close>

definition is_history_key :: "bytes \<Rightarrow> bool" where
  "is_history_key k \<longleftrightarrow> prefix [0x48] k \<or> prefix [0x49] k"

definition owns_history_row ::
  "bitcoin_lib \<Rightarrow> 'db store \<Rightarrow> active_chain_view \<Rightarrow> db_row \<Rightarrow> (bool \<times> active_chain_view) res" where
  "owns_history_row B st av row =
     (if is_history_key (row_key row) then
        rbind (ok_or (Msg ''invalid history key during cleanup'') (deserialize get_history_key (row_key row))) (\<lambda>key.
          contains_transaction B st av (unat (hk_confirmed_height key)) (info_txid (hk_txinfo key)))
      else Inr (False, av))"

definition top_height :: "active_chain_view \<Rightarrow> nat" where
  "top_height av = max (fold max (map fst (new_blocks av)) 0) (saved_prefix_len av - 1)"

definition matches_header :: "'db store \<Rightarrow> active_chain_view \<Rightarrow> nat \<Rightarrow> blockhash \<Rightarrow> bool res" where
  "matches_header st av height hash =
     (if map_of (new_blocks av) height = Some hash then Inr True
      else if height < saved_prefix_len av
      then rmap (\<lambda>h. case h of Some e \<Rightarrow> he_hash e = hash | None \<Rightarrow> False) (header_by_height (indexed_headers st) height)
      else Inr False)"

section \<open>Loading blocks\<close>

definition parse_tx :: "bitcoin_lib \<Rightarrow> bytes option res \<Rightarrow> transaction option res" where
  "parse_tx B r = rbind r (\<lambda>v. case v of
     None \<Rightarrow> Inr None
   | Some raw \<Rightarrow> rmap Some (ok_or (Msg ''invalid stored transaction'') (deser_tx B raw)))"

text \<open>The loop over the stored transactions: it ends at the first missing one.\<close>

fun parse_txs :: "bitcoin_lib \<Rightarrow> bytes option res list \<Rightarrow> transaction list option res" where
  "parse_txs B [] = Inr (Some [])"
| "parse_txs B (r # rs) =
     rbind (parse_tx B r) (\<lambda>t. case t of
       None \<Rightarrow> Inr None
     | Some tx \<Rightarrow> rmap (map_option (Cons tx)) (parse_txs B rs))"

definition stored_transactions ::
  "bitcoin_lib \<Rightarrow> 'db store \<Rightarrow> blockhash \<Rightarrow> (txid list \<times> transaction list) option res" where
  "stored_transactions B st hash =
     rbind (try_get (txstore_db st) (txids_key hash)) (\<lambda>v. case v of
       None \<Rightarrow> Inr None
     | Some raw \<Rightarrow>
         rbind (ok_or (Msg ''invalid stored block transaction list'') (deserialize (get_txids B) raw)) (\<lambda>txids.
           rmap (map_option (Pair txids)) (parse_txs B (multi_get (txstore_db st) (map tx_row_key txids)))))"

definition stored_header :: "bitcoin_lib \<Rightarrow> string \<Rightarrow> 'db store \<Rightarrow> blockhash \<Rightarrow> block_header option res" where
  "stored_header B msg st hash =
     rbind (try_get (txstore_db st) (header_key hash)) (\<lambda>v. case v of
       None \<Rightarrow> Inr None
     | Some raw \<Rightarrow> rmap Some (ok_or (Msg msg) (deser_header B raw)))"

definition fetch_block :: "bitcoin_lib \<Rightarrow> active_chain_view \<Rightarrow> blockhash \<Rightarrow> block res" where
  "fetch_block B av hash =
     rbind (ok_or (Msg ''missing active block transactions during cleanup'') (av_daemon av)) (\<lambda>D.
     rbind (getblocks B D [hash]) (\<lambda>blocks.
       if blocks = [] then Inl (Msg ''daemon returned no block during cleanup'') else Inr (last blocks)))"

definition load_block :: "bitcoin_lib \<Rightarrow> 'db store \<Rightarrow> active_chain_view \<Rightarrow> blockhash \<Rightarrow> block res" where
  "load_block B st av hash =
     rbind (stored_header B ''invalid active block header'' st hash) (\<lambda>h. case h of
       None \<Rightarrow> fetch_block B av hash
     | Some header \<Rightarrow>
         rbind (stored_transactions B st hash) (\<lambda>s. case s of
           None \<Rightarrow> fetch_block B av hash
         | Some (_, txs) \<Rightarrow> Inr \<lparr>blk_header = header, txdata = txs\<rparr>))"

definition stored_block :: "bitcoin_lib \<Rightarrow> 'db store \<Rightarrow> header_entry \<Rightarrow> block_entry option res" where
  "stored_block B st header =
     rmap (map_option (\<lambda>(txids, txs).
         let block = \<lparr>blk_header = he_header header, txdata = txs\<rparr> in
         \<lparr>be_block = block, be_entry = header, be_size = of_nat (total_size B block), be_txids = txids\<rparr>))
       (stored_transactions B st (he_hash header))"

definition single_value_rows :: "bitcoin_lib \<Rightarrow> u32 \<Rightarrow> transaction \<Rightarrow> db_row list" where
  "single_value_rows B height tx =
     (let txid = compute_txid B tx in
      tx_conf_row txid height #
      map (\<lambda>(vin, input). tx_edge_row (op_txid (previous_output input)) (op_vout (previous_output input)) txid vin height)
        (filter (\<lambda>(_, input). has_prevout B input) (enum32 (tx_input tx))))"

definition build_single_value_rows ::
  "bitcoin_lib \<Rightarrow> 'db store \<Rightarrow> active_chain_view \<Rightarrow> nat \<Rightarrow> blockhash \<Rightarrow> db_row list res" where
  "build_single_value_rows B st av height hash =
     rmap (\<lambda>block. concat (map (single_value_rows B (of_nat height)) (txdata block))) (load_block B st av hash)"


section \<open>Markers\<close>

abbreviation PENDING_REWRITE_KEY :: bytes where "PENDING_REWRITE_KEY \<equiv> [0x52]"
abbreviation UNDO_PREFIX :: bytes where "UNDO_PREFIX \<equiv> [0x75]"

definition pending_rewrite :: "'db store \<Rightarrow> nat option res" where
  "pending_rewrite st =
     rbind (try_get (history_db st) PENDING_REWRITE_KEY) (\<lambda>v. case v of
       None \<Rightarrow> Inr None
     | Some raw \<Rightarrow>
         if length raw = 4 then Inr (Some (unat (of_nat (of_le raw) :: u32)))
         else Inl (Msg ''invalid pending rewrite marker length''))"

definition done_marker_height :: "bytes \<Rightarrow> nat option res" where
  "done_marker_height marker =
     (if marker = [] then Inr None
      else if length marker = 4 then Inr (Some (unat (of_nat (of_le marker) :: u32)))
      else Inl (Msg ''unexpected done-marker length''))"

definition begin_rewrite :: "'db store \<Rightarrow> nat \<Rightarrow> 'db store res" where
  "begin_rewrite st from_height =
     rbind (pending_rewrite st) (\<lambda>p.
       let height = (case p of Some pending \<Rightarrow> min pending from_height | None \<Rightarrow> from_height) in
       rmap (\<lambda>d. st\<lparr>history_db := d\<rparr>)
         (put_sync (history_db st) PENDING_REWRITE_KEY (u32_le (of_nat height))))"

definition store_uncommitted_blocks :: "'db store \<Rightarrow> blockhash set res" where
  "store_uncommitted_blocks st =
     (if \<exists>h \<in> indexed_blockhashes st. \<exists>e. header_by_blockhash (indexed_headers st) h = Inl e
      then Inl (Panic ''header.hash() != blockhash'')
      else rmap (\<lambda>undo. {h \<in> indexed_blockhashes st. header_by_blockhash (indexed_headers st) h = Inr None} \<union> undo)
        (load_blockhashes (history_db st) UNDO_PREFIX))"

definition pop_reorged_headers :: "'db store \<Rightarrow> nat \<Rightarrow> (header_entry list \<times> 'db store) res" where
  "pop_reorged_headers st since =
     (if since > hl_len (indexed_headers st) then Inl (Msg ''invalid reorg boundary'')
      else rbind (hl_pop (indexed_headers st) since) (\<lambda>(removed, hl).
        rbind (hl_tip hl) (\<lambda>ancestor.
          rmap (\<lambda>d. (removed, st\<lparr>txstore_db := d, indexed_headers := hl\<rparr>))
            (put_sync (txstore_db st) TIP_KEY (hash_bytes ancestor)))))"

definition uncommitted_height :: "daemon_rpc \<Rightarrow> 'db store \<Rightarrow> blockhash \<Rightarrow> nat res" where
  "uncommitted_height D st hash =
     rbind (try_get (history_db st) (undo_marker_key hash)) (\<lambda>u.
     rbind (case u of
         Some marker \<Rightarrow> Inr marker
       | None \<Rightarrow> rbind (try_get (history_db st) (row_key (block_row_into (new_done hash))))
           (ok_or (Msg ''missing cleanup marker for block''))) (\<lambda>marker.
     rbind (chain_err ''invalid done-marker for indexed block'' (done_marker_height marker)) (\<lambda>h. case h of
       Some height \<Rightarrow> Inr height
     | None \<Rightarrow> rpc_getblockheight D hash)))"

section \<open>Where a stale branch leaves the active chain\<close>

definition ancestor_header :: "bitcoin_lib \<Rightarrow> daemon_rpc \<Rightarrow> 'db store \<Rightarrow> string \<Rightarrow> blockhash \<Rightarrow> block_header res" where
  "ancestor_header B D st msg hash =
     rbind (stored_header B msg st hash) (\<lambda>h. case h of
       Some header \<Rightarrow> Inr header
     | None \<Rightarrow> rpc_getblockheader D hash)"

text \<open>The two exits of the loop that are tested for every block on the way down.\<close>

definition fork_exit ::
  "'db store \<Rightarrow> active_chain_view \<Rightarrow> (blockhash \<rightharpoonup> nat) \<Rightarrow> nat \<Rightarrow> blockhash \<Rightarrow> nat option res" where
  "fork_exit st av forks height hash =
     rmap (\<lambda>m. if m then Some (height + 1) else forks hash) (matches_header st av height hash)"

fun fork_loop ::
  "bitcoin_lib \<Rightarrow> daemon_rpc \<Rightarrow> 'db store \<Rightarrow> active_chain_view \<Rightarrow> (blockhash \<rightharpoonup> nat) \<Rightarrow>
     nat \<Rightarrow> blockhash \<Rightarrow> block_header \<Rightarrow> blockhash list \<Rightarrow> (nat \<times> blockhash list) res" where
  "fork_loop B D st av forks height hash current visited =
     rbind (fork_exit st av forks height hash) (\<lambda>x. case x of
       Some boundary \<Rightarrow> Inr (boundary, visited)
     | None \<Rightarrow>
         (case height of
            0 \<Rightarrow> Inl (Msg ''stale block does not share the active genesis'')
          | Suc below \<Rightarrow>
              let visited = visited @ [hash]; hash = prev_blockhash current in
              rbind (fork_exit st av forks below hash) (\<lambda>x. case x of
                Some boundary \<Rightarrow> Inr (boundary, visited)
              | None \<Rightarrow>
                  rbind (ancestor_header B D st ''invalid stale ancestor header'' hash) (\<lambda>current.
                    fork_loop B D st av forks below hash current visited))))"

declare fork_loop.simps [simp del]

definition fork_height ::
  "bitcoin_lib \<Rightarrow> daemon_rpc \<Rightarrow> 'db store \<Rightarrow> active_chain_view \<Rightarrow> (blockhash \<rightharpoonup> nat) \<Rightarrow> header_entry \<Rightarrow>
     (nat \<times> (blockhash \<rightharpoonup> nat)) res" where
  "fork_height B D st av forks header =
     rmap (\<lambda>(boundary, visited). (boundary, fold (\<lambda>h m. m(h \<mapsto> boundary)) visited forks))
       (fork_loop B D st av forks (he_height header) (he_hash header) (he_header header) [])"

definition stale_uncommitted :: "(blockhash set \<Rightarrow> blockhash list) \<Rightarrow> 'db indexer \<Rightarrow> header_entry list \<Rightarrow> blockhash list" where
  "stale_uncommitted ord ix new_headers =
     filter (\<lambda>h. h \<notin> he_hash ` set new_headers) (ord (uncommitted_blocks ix))"

section \<open>Deleting rows\<close>

definition cache_keys_of :: "bytes \<Rightarrow> bytes list" where
  "cache_keys_of k =
     (let sub = hash_of_bytes (take 32 (drop 1 k)) in
      if prefix [0x48] k then [stats_cache_key sub, utxo_cache_key sub]
      else if prefix [0x49] k then [0x7a # hash_bytes sub]
      else [])"

definition stale_row_step ::
  "bitcoin_lib \<Rightarrow> 'db store \<Rightarrow> bytes list \<times> active_chain_view \<Rightarrow> db_row \<Rightarrow> (bytes list \<times> active_chain_view) res" where
  "stale_row_step B st = (\<lambda>(keys, av) row.
     rmap (\<lambda>(owned, av). (if owned then keys else keys @ [row_key row], av)) (owns_history_row B st av row))"

definition delete_stale_rows ::
  "bitcoin_lib \<Rightarrow> 'db store \<Rightarrow> active_chain_view \<Rightarrow> db_row list \<Rightarrow> db_row list \<Rightarrow> ('db store \<times> active_chain_view) res" where
  "delete_stale_rows B st av rows pending_markers =
     rbind (rfold (stale_row_step B st) ([], av) rows) (\<lambda>(keys, av).
       let batch = map Delete keys @ map (\<lambda>m. Put (row_key m) (row_value m)) pending_markers;
           cache_keys = concat (map cache_keys_of keys) in
       rbind (if cache_keys \<noteq> [] then write_batch (cache_db st) (map Delete cache_keys) FlushEnable
              else Inr (cache_db st)) (\<lambda>cdb.
         rmap (\<lambda>hdb. (st\<lparr>cache_db := cdb, history_db := hdb\<rparr>, av)) (write_batch (history_db st) batch FlushEnable)))"

definition forget_indexed :: "'db indexer \<Rightarrow> blockhash list \<Rightarrow> 'db indexer" where
  "forget_indexed ix hashes =
     ix\<lparr>ix_store := (ix_store ix)\<lparr>indexed_blockhashes := indexed_blockhashes (ix_store ix) - set hashes\<rparr>,
       uncommitted_blocks := uncommitted_blocks ix - set hashes\<rparr>"

section \<open>Undoing blocks\<close>

definition placeholder_txout :: txout where
  "placeholder_txout = \<lparr>txo_value = 0, script_pubkey = []\<rparr>"

definition spending_history_row ::
  "bitcoin_lib \<Rightarrow> txout \<Rightarrow> u32 \<Rightarrow> txid \<Rightarrow> u32 \<Rightarrow> outpoint \<Rightarrow> db_row" where
  "spending_history_row B prevout height txid vin spent =
     history_into_row (tx_history_row_new B (script_pubkey prevout) height
       (Spending \<lparr>si_txid = txid, si_vin = vin, si_prev_txid = op_txid spent,
         si_prev_vout = op_vout spent, si_value = txo_value prevout\<rparr>))"

text \<open>The outputs and inputs of a list of blocks in the order the nested loops visit them.\<close>

definition blocks_outputs :: "block_entry list \<Rightarrow> (outpoint \<times> txout) list" where
  "blocks_outputs blocks =
     concat (map (\<lambda>b. concat (map (\<lambda>(tx, txid).
         map (\<lambda>(vout, output). (\<lparr>op_txid = txid, op_vout = vout\<rparr>, output)) (enum32 (tx_output tx)))
       (zip (txdata (be_block b)) (be_txids b)))) blocks)"

definition blocks_inputs :: "block_entry list \<Rightarrow> (block_entry \<times> txid \<times> u32 \<times> txin) list" where
  "blocks_inputs blocks =
     concat (map (\<lambda>b. concat (map (\<lambda>(tx, txid). map (\<lambda>(vin, input). (b, txid, vin, input)) (enum32 (tx_input tx)))
       (zip (txdata (be_block b)) (be_txids b)))) blocks)"

text \<open>Subtraction on \<open>usize\<close> wraps in a release build.\<close>

definition usize_dec :: "nat \<Rightarrow> nat" where
  "usize_dec n = (if n = 0 then 2 ^ 64 - 1 else n - 1)"

definition resolve_spend ::
  "bitcoin_lib \<Rightarrow> outpoint \<Rightarrow> txout \<Rightarrow> db_row list \<times> deferred_undo \<Rightarrow> pending_spend \<Rightarrow> (db_row list \<times> deferred_undo) res" where
  "resolve_spend B p output = (\<lambda>(rows, d) spend.
     rmap (\<lambda>(remaining, marker).
         (rows @ [spending_history_row B output (ps_height spend) (ps_txid spend) (ps_vin spend) p],
          d\<lparr>du_blocks := AList.update (ps_block spend) (usize_dec remaining, marker) (du_blocks d)\<rparr>))
       (expect ''called `Option::unwrap()` on a `None` value'' (map_of (du_blocks d) (ps_block spend))))"

definition resolve_output ::
  "bitcoin_lib \<Rightarrow> db_row list \<times> deferred_undo \<Rightarrow> outpoint \<times> txout \<Rightarrow> (db_row list \<times> deferred_undo) res" where
  "resolve_output B = (\<lambda>(rows, d) (p, output).
     rfold (resolve_spend B p output) (rows, d\<lparr>du_pending := AList.delete p (du_pending d)\<rparr>)
       (case map_of (du_pending d) p of Some spends \<Rightarrow> spends | None \<Rightarrow> []))"

definition resolve_from_outputs ::
  "bitcoin_lib \<Rightarrow> block_entry list \<Rightarrow> deferred_undo \<Rightarrow> (db_row list \<times> deferred_undo) res" where
  "resolve_from_outputs B blocks d =
     (if deferred_is_empty d then Inr ([], d) else rfold (resolve_output B) ([], d) (blocks_outputs blocks))"

type_synonym undo_prevouts = "(outpoint \<rightharpoonup> txout) \<times> outpoint set"

definition undo_prevout :: "bitcoin_lib \<Rightarrow> undo_prevouts \<Rightarrow> bytes option res \<times> outpoint \<Rightarrow> undo_prevouts res" where
  "undo_prevout B = (\<lambda>(prevouts, missing) (raw, outpoint).
     rbind (chain_err ''failed looking up prevouts for history undo'' raw) (\<lambda>v. case v of
       Some raw \<Rightarrow> rmap (\<lambda>output. (prevouts(outpoint \<mapsto> output), missing))
         (ok_or (Msg ''invalid prevout during history undo'') (deser_txout B raw))
     | None \<Rightarrow> Inr (prevouts(outpoint \<mapsto> placeholder_txout), insert outpoint missing)))"

definition undo_own_output :: "outpoint \<times> txout \<Rightarrow> undo_prevouts \<Rightarrow> undo_prevouts" where
  "undo_own_output = (\<lambda>(outpoint, output) (prevouts, missing).
     if outpoint \<in> missing then (prevouts(outpoint \<mapsto> output), missing - {outpoint}) else (prevouts, missing))"

definition lookup_undo_prevouts :: "bitcoin_lib \<Rightarrow> 'db store \<Rightarrow> block_entry list \<Rightarrow> undo_prevouts res" where
  "lookup_undo_prevouts B st blocks =
     (let outpoints = sorted_list_of_set (get_previous_txos B blocks) in
      rmap (fold undo_own_output (blocks_outputs blocks))
        (rfold (undo_prevout B) (Map.empty, {}) (zip (multi_get (txstore_db st) (map tx_out_key outpoints)) outpoints)))"

definition record_input ::
  "bitcoin_lib \<Rightarrow> outpoint set \<Rightarrow> block_entry \<times> txid \<times> u32 \<times> txin \<Rightarrow> bytes set \<times> deferred_undo \<Rightarrow> bytes set \<times> deferred_undo" where
  "record_input B missing = (\<lambda>(b, txid, vin, input) (keys, d).
     if \<not> has_prevout B input \<or> previous_output input \<notin> missing then (keys, d)
     else
       let height = of_nat (he_height (be_entry b));
           hash = he_hash (be_entry b);
           p = previous_output input;
           spend = \<lparr>ps_block = hash, ps_height = height, ps_txid = txid, ps_vin = vin\<rparr>;
           spends = (case map_of (du_pending d) p of Some ss \<Rightarrow> ss | None \<Rightarrow> []);
           entry = (case map_of (du_blocks d) hash of
               Some (n, marker) \<Rightarrow> (n + 1, marker)
             | None \<Rightarrow> (1, \<lparr>row_key = [], row_value = []\<rparr>))
       in (insert (row_key (spending_history_row B placeholder_txout height txid vin p)) keys,
           d\<lparr>du_pending := AList.update p (spends @ [spend]) (du_pending d),
             du_blocks := AList.update hash entry (du_blocks d)\<rparr>))"

definition record_pending ::
  "bitcoin_lib \<Rightarrow> block_entry list \<Rightarrow> outpoint set \<Rightarrow> deferred_undo \<Rightarrow> bytes set \<times> deferred_undo" where
  "record_pending B blocks missing d = fold (record_input B missing) (blocks_inputs blocks) ({}, d)"

definition undo_marker :: "block_entry \<Rightarrow> db_row" where
  "undo_marker b = \<lparr>row_key = undo_marker_key (he_hash (be_entry b)), row_value = u32_le (of_nat (he_height (be_entry b)))\<rparr>"

text \<open>Blocks with unresolved inputs keep their marker, in the deferred state and on disk.\<close>

definition hold_markers :: "block_entry list \<Rightarrow> deferred_undo \<Rightarrow> db_row list \<times> db_row list \<times> deferred_undo" where
  "hold_markers blocks d =
     (map undo_marker (filter (\<lambda>b. map_of (du_blocks d) (he_hash (be_entry b)) = None) blocks),
      map undo_marker (filter (\<lambda>b. map_of (du_blocks d) (he_hash (be_entry b)) \<noteq> None) blocks),
      d\<lparr>du_blocks := fold (\<lambda>b m. case map_of m (he_hash (be_entry b)) of
            Some (n, _) \<Rightarrow> AList.update (he_hash (be_entry b)) (n, undo_marker b) m
          | None \<Rightarrow> m) blocks (du_blocks d)\<rparr>)"

definition release_resolved :: "deferred_undo \<Rightarrow> blockhash list \<times> db_row list \<times> deferred_undo" where
  "release_resolved d =
     (let ready = (\<lambda>(hash, (remaining, marker)). remaining = 0 \<and> row_key marker \<noteq> []);
          done_blocks = filter ready (du_blocks d)
      in (map fst done_blocks, map (snd \<circ> snd) done_blocks, d\<lparr>du_blocks := filter (Not \<circ> ready) (du_blocks d)\<rparr>))"

type_synonym 'db undo_state = "'db indexer \<times> deferred_undo \<times> active_chain_view"

text \<open>An error is returned before the indexer is changed.\<close>

definition undo_index_or_defer :: "bitcoin_lib \<Rightarrow> 'db undo_state \<Rightarrow> block_entry list \<Rightarrow> 'db undo_state res" where
  "undo_index_or_defer B = (\<lambda>(ix, d, av) blocks.
     rbind (resolve_from_outputs B blocks d) (\<lambda>(resolved, d).
     rbind (lookup_undo_prevouts B (ix_store ix) blocks) (\<lambda>(prevouts, missing).
     rbind (index_blocks B (iconfig ix) blocks prevouts) (\<lambda>indexed.
       let (pending_keys, d) = (if missing \<noteq> {} then record_pending B blocks missing d else ({}, d));
           indexed = filter (\<lambda>r. row_key r \<notin> pending_keys) indexed;
           (markers, pending_markers, d) = hold_markers blocks d;
           (released, released_markers, d) = release_resolved d;
           rows = resolved @ markers @ indexed @ released_markers
       in rmap (\<lambda>(st, av).
            let st = st\<lparr>indexed_blockhashes := indexed_blockhashes st - set (map (\<lambda>b. he_hash (be_entry b)) blocks)\<rparr>
            in (forget_indexed (ix\<lparr>ix_store := st\<rparr>)
                  (filter (\<lambda>h. map_of (du_blocks d) h = None) (map (\<lambda>b. he_hash (be_entry b)) blocks) @ released), d, av))
          (delete_stale_rows B (ix_store ix) av rows pending_markers)))))"

text \<open>The scan of the whole script history for the spending rows whose script is unknown.\<close>

definition pending_spends :: "deferred_undo \<Rightarrow> (u32 \<times> txid \<times> u32) set" where
  "pending_spends d = (\<lambda>s. (ps_height s, ps_txid s, ps_vin s)) ` set (concat (map snd (du_pending d)))"

definition scan_row_stale :: "(u32 \<times> txid \<times> u32) set \<Rightarrow> db_row res \<Rightarrow> db_row option res" where
  "scan_row_stale spends r =
     rbind r (\<lambda>row. rmap (\<lambda>key. case hk_txinfo key of
         Spending info \<Rightarrow>
           if (hk_confirmed_height key, si_txid info, si_vin info) \<in> spends then Some row else None
       | Funding _ \<Rightarrow> None)
       (ok_or (Msg ''invalid script history during crash recovery'') (deserialize get_history_key (row_key row))))"

definition undo_by_history_scan :: "bitcoin_lib \<Rightarrow> 'db undo_state \<Rightarrow> 'db undo_state res" where
  "undo_by_history_scan B = (\<lambda>(ix, d, av).
     rbind (collect (map (scan_row_stale (pending_spends d)) (iter_scan (history_db (ix_store ix)) [0x48]))) (\<lambda>found.
       let rows_to_remove = concat (map (\<lambda>r. case r of Some row \<Rightarrow> [row] | None \<Rightarrow> []) found) @ map (snd \<circ> snd) (du_blocks d)
       in rmap (\<lambda>(st, av). (forget_indexed (ix\<lparr>ix_store := st\<rparr>) (map fst (du_blocks d)), d, av))
            (delete_stale_rows B (ix_store ix) av rows_to_remove [])))"

definition finish_deferred_undo :: "bitcoin_lib \<Rightarrow> 'db undo_state \<Rightarrow> 'db undo_state res" where
  "finish_deferred_undo B = (\<lambda>(ix, d, av).
     if deferred_is_empty d then Inr (ix, d, av) else undo_by_history_scan B (ix, d, av))"

text \<open>A step that fails leaves the state it started from.\<close>

definition undo_step :: "('s \<Rightarrow> 's res) \<Rightarrow> 's \<Rightarrow> 's \<times> unit res" where
  "undo_step f s = (case f s of Inl e \<Rightarrow> (s, Inl e) | Inr s' \<Rightarrow> (s', Inr ()))"

definition and_then :: "'s \<times> unit res \<Rightarrow> ('s \<Rightarrow> 's \<times> unit res) \<Rightarrow> 's \<times> unit res" where
  "and_then r f = (case r of (s, Inl e) \<Rightarrow> (s, Inl e) | (s, Inr _) \<Rightarrow> f s)"

abbreviation undo_batch :: "bitcoin_lib \<Rightarrow> 'db undo_state \<Rightarrow> block_entry list \<Rightarrow> 'db undo_state \<times> unit res" where
  "undo_batch B s blocks \<equiv> undo_step (\<lambda>s. undo_index_or_defer B s blocks) s"

text \<open>
  The loop over the headers: stored blocks are undone in batches, the others are left for the
  fetcher; the batch that is not full yet is undone when the loop ends.
\<close>

fun undo_stored ::
  "bitcoin_lib \<Rightarrow> nat \<Rightarrow> block_entry list \<Rightarrow> header_entry list \<Rightarrow> 'db undo_state \<Rightarrow> header_entry list \<Rightarrow>
     'db undo_state \<times> header_entry list res" where
  "undo_stored B batch_size batch remote s [] =
     (if batch = [] then (s, Inr remote)
      else case undo_batch B s batch of (s, Inl e) \<Rightarrow> (s, Inl e) | (s, Inr _) \<Rightarrow> (s, Inr remote))"
| "undo_stored B batch_size batch remote s (header # hdrs) =
     (case stored_block B (ix_store (fst s)) header of
        Inl e \<Rightarrow> (s, Inl e)
      | Inr None \<Rightarrow> undo_stored B batch_size batch (remote @ [header]) s hdrs
      | Inr (Some block) \<Rightarrow>
          if length (batch @ [block]) = batch_size then
            (case undo_batch B s (batch @ [block]) of
               (s, Inl e) \<Rightarrow> (s, Inl e)
             | (s, Inr _) \<Rightarrow> undo_stored B batch_size [] remote s hdrs)
          else undo_stored B batch_size (batch @ [block]) remote s hdrs)"

definition undo_blocks ::
  "bitcoin_lib \<Rightarrow> daemon_rpc \<Rightarrow> blk_source \<Rightarrow> active_chain_view \<Rightarrow> 'db indexer \<Rightarrow> header_entry list \<Rightarrow>
     ('db indexer \<times> active_chain_view) \<times> unit res" where
  "undo_blocks B D F av ix hdrs =
     (case undo_stored B (max (block_batch_size (iconfig ix)) 1) [] [] (ix, deferred_default, av) hdrs of
        ((ix, _, av), Inl e) \<Rightarrow> ((ix, av), Inl e)
      | (s, Inr remote) \<Rightarrow>
          (case and_then
              (if remote = [] then (s, Inr ())
               else case start_fetcher B D F FromBitcoind remote (block_batch_size (iconfig ix)) of
                 Inl e \<Rightarrow> (s, Inl e)
               | Inr ft \<Rightarrow> fetcher_map (undo_batch B) s ft)
              (undo_step (finish_deferred_undo B)) of
             ((ix, _, av), r) \<Rightarrow> ((ix, av), r)))"

definition undo_reorged_blocks ::
  "bitcoin_lib \<Rightarrow> daemon_rpc \<Rightarrow> blk_source \<Rightarrow> nat \<Rightarrow> 'db indexer \<times> active_chain_view \<Rightarrow>
     ('db indexer \<times> active_chain_view) \<times> unit res" where
  "undo_reorged_blocks B D F reorged_since = (\<lambda>(ix, av).
     case begin_rewrite (ix_store ix) reorged_since of
       Inl e \<Rightarrow> ((ix, av), Inl e)
     | Inr st \<Rightarrow>
         (case pop_reorged_headers st reorged_since of
            Inl e \<Rightarrow> ((ix\<lparr>ix_store := st\<rparr>, av), Inl e)
          | Inr (reorged, st) \<Rightarrow>
              undo_blocks B D F av
                (ix\<lparr>ix_store := st, uncommitted_blocks := uncommitted_blocks ix \<union> he_hash ` set reorged\<rparr>) (rev reorged)))"

definition uncommitted_header :: "bitcoin_lib \<Rightarrow> daemon_rpc \<Rightarrow> 'db store \<Rightarrow> blockhash \<Rightarrow> header_entry res" where
  "uncommitted_header B D st hash =
     rbind (uncommitted_height D st hash) (\<lambda>height.
       rmap (\<lambda>header. \<lparr>he_height = height, he_hash = hash, he_header = header\<rparr>)
         (ancestor_header B D st ''invalid uncommitted block header'' hash))"

definition fork_boundary ::
  "bitcoin_lib \<Rightarrow> daemon_rpc \<Rightarrow> 'db store \<Rightarrow> active_chain_view \<Rightarrow> header_entry list \<Rightarrow> nat option res" where
  "fork_boundary B D st av hdrs =
     rmap fst (rfold (\<lambda>(boundary, forks) header.
         rmap (\<lambda>(height, forks). (Some (case boundary of Some previous \<Rightarrow> min previous height | None \<Rightarrow> height), forks))
           (fork_height B D st av forks header))
       (None, Map.empty) hdrs)"

definition undo_uncommitted_blocks ::
  "bitcoin_lib \<Rightarrow> daemon_rpc \<Rightarrow> blk_source \<Rightarrow> blockhash list \<Rightarrow> 'db indexer \<times> active_chain_view \<Rightarrow>
     ('db indexer \<times> active_chain_view) \<times> unit res" where
  "undo_uncommitted_blocks B D F stale = (\<lambda>(ix, av).
     case rbind (collect (map (uncommitted_header B D (ix_store ix)) stale)) (\<lambda>hdrs.
         let hdrs = sort_key (\<lambda>h. - int (he_height h)) hdrs in
         rbind (fork_boundary B D (ix_store ix) av hdrs) (\<lambda>boundary.
           rmap (\<lambda>st. (st, hdrs))
             (case boundary of Some height \<Rightarrow> begin_rewrite (ix_store ix) height | None \<Rightarrow> Inr (ix_store ix)))) of
       Inl e \<Rightarrow> ((ix, av), Inl e)
     | Inr (st, hdrs) \<Rightarrow> undo_blocks B D F av (ix\<lparr>ix_store := st\<rparr>) hdrs)"

section \<open>Rewriting shared rows\<close>

definition REWRITE_BATCH_BYTES :: nat where
  "REWRITE_BATCH_BYTES = 4 * 1024 * 1024"

fun rewrite_rows ::
  "(batch_op list \<Rightarrow> nat) \<Rightarrow> 'db DB \<Rightarrow> batch_op list \<Rightarrow> db_row list \<Rightarrow> ('db DB \<times> batch_op list) res" where
  "rewrite_rows size_of d batch [] = Inr (d, batch)"
| "rewrite_rows size_of d batch (row # rows) =
     (let batch = batch @ [Put (row_key row) (row_value row)] in
      if size_of batch \<ge> REWRITE_BATCH_BYTES
      then rbind (write_batch d batch FlushEnable) (\<lambda>d. rewrite_rows size_of d [] rows)
      else rewrite_rows size_of d batch rows)"

fun rewrite_heights ::
  "(batch_op list \<Rightarrow> nat) \<Rightarrow> bitcoin_lib \<Rightarrow> nat \<Rightarrow> 'db store \<Rightarrow> active_chain_view \<Rightarrow>
     'db DB \<Rightarrow> batch_op list \<Rightarrow> nat \<Rightarrow> nat list \<Rightarrow> 'db DB \<times> batch_op list res" where
  "rewrite_heights size_of B n st av d batch blocks [] = (d, Inr batch)"
| "rewrite_heights size_of B n st av d batch blocks (height # hts) =
     (case active_block_at st av height of
        Inl e \<Rightarrow> (d, Inl e)
      | Inr None \<Rightarrow> rewrite_heights size_of B n st av d batch blocks hts
      | Inr (Some hash) \<Rightarrow>
          (case rbind (build_single_value_rows B st av height hash) (rewrite_rows size_of d batch) of
             Inl e \<Rightarrow> (d, Inl e)
           | Inr (d, batch) \<Rightarrow>
               if (blocks + 1) mod n = 0 then
                 (case write_batch d batch FlushEnable of
                    Inl e \<Rightarrow> (d, Inl e)
                  | Inr d \<Rightarrow> rewrite_heights size_of B n st av d [] (blocks + 1) hts)
               else rewrite_heights size_of B n st av d batch (blocks + 1) hts))"

definition finish_rewrite ::
  "(batch_op list \<Rightarrow> nat) \<Rightarrow> bitcoin_lib \<Rightarrow> indexer_config \<Rightarrow> active_chain_view \<Rightarrow> 'db store \<Rightarrow> 'db store \<times> unit res" where
  "finish_rewrite size_of B c av st =
     (case pending_rewrite st of
        Inl e \<Rightarrow> (st, Inl e)
      | Inr None \<Rightarrow> (st, Inr ())
      | Inr (Some from_height) \<Rightarrow>
          (case rewrite_heights size_of B (max (block_batch_size c) 1) st av (history_db st) [] 0
                  [from_height ..< Suc (top_height av)] of
             (d, Inl e) \<Rightarrow> (st\<lparr>history_db := d\<rparr>, Inl e)
           | (d, Inr batch) \<Rightarrow>
               (case write_batch d (batch @ [Delete PENDING_REWRITE_KEY]) FlushEnable of
                  Inl e \<Rightarrow> (st\<lparr>history_db := d\<rparr>, Inl e)
                | Inr d \<Rightarrow> (st\<lparr>history_db := d\<rparr>, Inr ()))))"

section \<open>The whole cleanup\<close>

definition clean_up_stale_blocks ::
  "(batch_op list \<Rightarrow> nat) \<Rightarrow> (blockhash set \<Rightarrow> blockhash list) \<Rightarrow> bitcoin_lib \<Rightarrow> daemon_rpc \<Rightarrow> blk_source \<Rightarrow> 'db indexer \<Rightarrow>
     header_entry list \<Rightarrow> nat option \<Rightarrow> 'db indexer \<times> unit res" where
  "clean_up_stale_blocks size_of ord B D F ix new_headers reorged_since =
     (let stale = stale_uncommitted ord ix new_headers in
      case pending_rewrite (ix_store ix) of
        Inl e \<Rightarrow> (ix, Inl e)
      | Inr p \<Rightarrow>
          if reorged_since = None \<and> stale = [] \<and> p = None then (ix, Inr ())
          else
            let av = active_chain_view_new (ix_store ix) new_headers reorged_since (Some D) in
            (case and_then
                (case reorged_since of
                   Some height \<Rightarrow> undo_reorged_blocks B D F height (ix, av)
                 | None \<Rightarrow> ((ix, av), Inr ()))
                (\<lambda>s. if stale \<noteq> [] then undo_uncommitted_blocks B D F stale s else (s, Inr ())) of
               ((ix, av), Inl e) \<Rightarrow> (ix, Inl e)
             | ((ix, av), Inr _) \<Rightarrow>
                 (case finish_rewrite size_of B (iconfig ix) av (ix_store ix) of
                    (st, r) \<Rightarrow> (ix\<lparr>ix_store := st\<rparr>, r))))"

end
