(* ===== verification/Update.thy ===== *)
theory Update
  imports Reorg
begin

text \<open>
  One cycle of the indexer (\<open>Indexer::update\<close> in \<^verbatim>\<open>src/new_index/schema.rs\<close>): ask the node for its
  tip, clean up blocks that left the chain, fetch and index the new blocks, publish the completed
  prefix. The result \<open>None\<close> is a header walk that never ends (\<open>new_headers_loop\<close>); a state is
  returned with every result, since an error keeps what was written before it.
\<close>

definition indexer_open :: "'db store \<Rightarrow> fetch_from \<Rightarrow> indexer_config \<Rightarrow> 'db indexer res" where
  "indexer_open st from c =
     rmap (\<lambda>uncommitted. \<lparr>ix_store = st, ix_flush = FlushDisable, ix_from = from, uncommitted_blocks = uncommitted,
         iconfig = c, stale_cleanup_failing = False, ix_retry = retry_default\<rparr>)
       (store_uncommitted_blocks st)"

definition retry_cleanup_now :: "'db indexer \<Rightarrow> 'db indexer" where
  "retry_cleanup_now ix = ix\<lparr>ix_retry := (ix_retry ix)\<lparr>next_attempt := None\<rparr>\<rparr>"

definition indexer_get_new_headers ::
  "bitcoin_lib \<Rightarrow> daemon_rpc \<Rightarrow> header_list \<Rightarrow> blockhash \<Rightarrow> (header_entry list \<times> nat option) res option" where
  "indexer_get_new_headers B D hl daemon_tip =
     map_option (\<lambda>r. rbind r (\<lambda>raw. preprocess B hl raw daemon_tip)) (get_new_headers B D hl daemon_tip)"

text \<open>From the cleanup on, when it has succeeded: fetch, index, publish.\<close>

definition update_index ::
  "bitcoin_lib \<Rightarrow> daemon_rpc \<Rightarrow> blk_source \<Rightarrow> 'db indexer \<Rightarrow> blockhash \<Rightarrow> header_entry list \<Rightarrow> 'db indexer \<times> blockhash res" where
  "update_index B D F ix daemon_tip new_headers =
     (case fetch_and_index B D F ix new_headers of
        (ix, fetch_result) \<Rightarrow>
          if (case fetch_result of Inl e \<Rightarrow> is_panic e | Inr _ \<Rightarrow> False) then (ix, rmap (\<lambda>_. daemon_tip) fetch_result)
          else
            let completed = completed_header_prefix (ix_store ix) new_headers;
                ix = remember_uncommitted_headers ix (drop (length completed) new_headers) in
            if (\<exists>u. fetch_result = Inr u) \<and> length completed \<noteq> length new_headers
            then (ix, Inl (Msg ''block fetch completed without indexing all headers''))
            else
              (case finish_sync_writes ix of
                 Inl e \<Rightarrow> (ix, Inl e)
               | Inr ix \<Rightarrow>
                   (case commit_completed_headers ix completed of
                      Inl e \<Rightarrow>
                        (ix, if is_panic e then Inl e
                             else rbind (chain_err ''no blocks were indexed, the index is still empty'' fetch_result) (\<lambda>_. Inl e))
                    | Inr (synced_tip, ix) \<Rightarrow>
                        if (\<exists>u. fetch_result = Inr u) \<and> synced_tip \<noteq> daemon_tip
                        then (ix, Inl (Msg ''synced tip does not match the daemon tip after a complete fetch''))
                        else (ix, Inr synced_tip))))"

definition is_interrupt :: "error \<Rightarrow> bool" where
  "is_interrupt e = (case e of Interrupt _ \<Rightarrow> True | _ \<Rightarrow> False)"

text \<open>\<open>now\<close> and \<open>later\<close> are the two readings of the clock.\<close>

definition update_chain ::
  "(batch_op list \<Rightarrow> nat) \<Rightarrow> (blockhash set \<Rightarrow> blockhash list) \<Rightarrow> bitcoin_lib \<Rightarrow> daemon_rpc \<Rightarrow> blk_source \<Rightarrow> nat \<Rightarrow> nat \<Rightarrow>
     'db indexer \<Rightarrow> blockhash \<Rightarrow> header_entry list \<Rightarrow> nat option \<Rightarrow> 'db indexer \<times> blockhash res" where
  "update_chain size_of ord B D F now later ix daemon_tip new_headers reorged_since =
     (if reorged_since = Some 0
      then (ix, Inl (Msg ''daemon chain does not share a genesis block with the index (wrong network or database?)''))
      else if stale_cleanup_failing ix \<and> \<not> retry_due (ix_retry ix) now daemon_tip
      then (ix, hl_tip (indexed_headers (ix_store ix)))
      else
        (case clean_up_stale_blocks size_of ord B D F ix new_headers reorged_since of
           (ix, Inl e) \<Rightarrow>
             if is_panic e \<or> is_interrupt e then (ix, Inl e)
             else (ix\<lparr>ix_retry := snd (retry_failed (ix_retry ix) later daemon_tip), stale_cleanup_failing := True\<rparr>,
                   hl_tip (indexed_headers (ix_store ix)))
         | (ix, Inr _) \<Rightarrow>
             update_index B D F (ix\<lparr>stale_cleanup_failing := False, ix_retry := retry_default\<rparr>) daemon_tip new_headers))"

definition indexer_update ::
  "(batch_op list \<Rightarrow> nat) \<Rightarrow> (blockhash set \<Rightarrow> blockhash list) \<Rightarrow> bitcoin_lib \<Rightarrow> daemon_rpc \<Rightarrow> blk_source \<Rightarrow> nat \<Rightarrow> nat \<Rightarrow>
     'db indexer \<Rightarrow> ('db indexer \<times> blockhash res) option" where
  "indexer_update size_of ord B D F now later ix =
     (case rbind (rpc_reconnect D) (\<lambda>_. rpc_getbestblockhash D) of
        Inl e \<Rightarrow> Some (ix, Inl e)
      | Inr daemon_tip \<Rightarrow>
          map_option (\<lambda>r. case r of
              Inl e \<Rightarrow> (ix, Inl e)
            | Inr (new_headers, reorged_since) \<Rightarrow>
                update_chain size_of ord B D F now later ix daemon_tip new_headers reorged_since)
            (indexer_get_new_headers B D (indexed_headers (ix_store ix)) daemon_tip))"

end
