(* ===== verification/Undo.thy ===== *)
theory Undo
  imports Update Stats
begin

text \<open>
  What a cleanup does to the history and the caches: which rows it deletes, that rows shared with
  the active chain stay, that caches stay valid, that undoing an indexed block restores the
  history, where a stale branch is cut, and that an interrupted rewrite is resumed.
\<close>

section \<open>Rows shared with the active chain\<close>

abbreviation fresh_view :: "active_chain_view \<Rightarrow> active_chain_view" where
  "fresh_view av \<equiv> av\<lparr>transactions := []\<rparr>"

definition av_ok :: "bitcoin_lib \<Rightarrow> 'db store \<Rightarrow> active_chain_view \<Rightarrow> bool" where
  "av_ok B st av \<longleftrightarrow> (\<forall>h S. map_of (transactions av) h = Some S \<longrightarrow> (\<exists>txids. active_txids B st (fresh_view av) h = Inr txids \<and> S = set txids))"

definition owned :: "bitcoin_lib \<Rightarrow> 'db store \<Rightarrow> active_chain_view \<Rightarrow> db_row \<Rightarrow> bool res" where
  "owned B st av row = rmap fst (owns_history_row B st (fresh_view av) row)"

lemma active_fresh [simp]:
  "active_block_at st (av\<lparr>transactions := x\<rparr>) n = active_block_at st av n"
  "active_txids B st (av\<lparr>transactions := x\<rparr>) h = active_txids B st av h"
  by (simp_all add: active_block_at_def active_txids_def cong: option.case_cong)

lemma av_ok_fresh [simp]: "av_ok B st (active_chain_view_new st' hs r D)" "av_ok B st (fresh_view av)"
  by (simp_all add: av_ok_def active_chain_view_new_def)

text \<open>The memoised test agrees with the plain one.\<close>

lemma contains_transaction_memo:
  assumes "av_ok B st av"
  shows "contains_transaction B st av n t = Inr (b, av') \<Longrightarrow>
      rmap fst (contains_transaction B st (fresh_view av) n t) = Inr b \<and> av_ok B st av' \<and> fresh_view av' = fresh_view av"
    and "contains_transaction B st av n t = Inl e \<Longrightarrow> rmap fst (contains_transaction B st (fresh_view av) n t) = Inl e"
proof -
  have memo: "map_of (transactions av) h = Some S \<Longrightarrow> \<exists>txids. active_txids B st av h = Inr txids \<and> S = set txids" for h S
    using assms by (simp add: av_ok_def)
  show "rmap fst (contains_transaction B st (fresh_view av) n t) = Inr b \<and> av_ok B st av' \<and> fresh_view av' = fresh_view av"
    if c: "contains_transaction B st av n t = Inr (b, av')"
  proof -
    from c obtain x where x: "active_block_at st av n = Inr x" by (auto simp: contains_transaction_def res_iffs)
    show ?thesis
    proof (cases x)
      case None
      with c x assms show ?thesis by (simp add: contains_transaction_def)
    next
      case (Some h)
      show ?thesis
      proof (cases "map_of (transactions av) h")
        case None
        with c x Some obtain txids where "active_txids B st av h = Inr txids" "b = (t \<in> set txids)"
          "av' = av\<lparr>transactions := (h, set txids) # transactions av\<rparr>"
          by (auto simp: contains_transaction_def res_iffs)
        with x Some assms show ?thesis by (simp add: contains_transaction_def av_ok_def)
      next
        case (Some S)
        from memo [OF this] obtain txids where "active_txids B st av h = Inr txids" "S = set txids" by blast
        with Some c x \<open>x = Some h\<close> assms show ?thesis by (simp add: contains_transaction_def)
      qed
    qed
  qed
  show "rmap fst (contains_transaction B st (fresh_view av) n t) = Inl e" if "contains_transaction B st av n t = Inl e"
    using that by (auto simp: contains_transaction_def rbind_def rmap_def split: option.splits sum.splits)
qed

lemma owns_history_row_memo:
  assumes "av_ok B st av"
  shows "owns_history_row B st av r = Inr (b, av') \<Longrightarrow> owned B st av r = Inr b \<and> av_ok B st av' \<and> fresh_view av' = fresh_view av"
    and "owns_history_row B st av r = Inl e \<Longrightarrow> owned B st av r = Inl e"
  using contains_transaction_memo [OF assms] assms
  by (auto simp: owns_history_row_def owned_def rbind_def ok_or_def split: if_splits option.splits sum.splits)

lemma owned_cong: "fresh_view av = fresh_view av' \<Longrightarrow> owned B st av r = owned B st av' r"
  by (simp add: owned_def)

definition stale_keys :: "bitcoin_lib \<Rightarrow> 'db store \<Rightarrow> active_chain_view \<Rightarrow> db_row list \<Rightarrow> bytes list" where
  "stale_keys B st av rows = map row_key (filter (\<lambda>r. owned B st av r = Inr False) rows)"

lemma stale_row_fold:
  assumes "av_ok B st av"
  shows "rfold (stale_row_step B st) (keys, av) rows = Inr (keys', av') \<Longrightarrow>
      keys' = keys @ stale_keys B st av rows \<and> av_ok B st av' \<and> fresh_view av' = fresh_view av \<and>
      (\<forall>r \<in> set rows. \<exists>b. owned B st av r = Inr b)"
    and "\<forall>r \<in> set rows. \<exists>b. owned B st av r = Inr b \<Longrightarrow> \<exists>s. rfold (stale_row_step B st) (keys, av) rows = Inr s"
proof -
  show "keys' = keys @ stale_keys B st av rows \<and> av_ok B st av' \<and> fresh_view av' = fresh_view av \<and>
      (\<forall>r \<in> set rows. \<exists>b. owned B st av r = Inr b)"
    if "rfold (stale_row_step B st) (keys, av) rows = Inr (keys', av')"
    using that assms
  proof (induction rows arbitrary: keys av)
    case (Cons r rows)
    then obtain b av1 where 1: "owns_history_row B st av r = Inr (b, av1)"
      and 2: "rfold (stale_row_step B st) (if b then keys else keys @ [row_key r], av1) rows = Inr (keys', av')"
      by (auto simp: stale_row_step_def res_iffs)
    note o = owns_history_row_memo(1) [OF Cons.prems(2) 1]
    note IH = Cons.IH [OF 2 o [THEN conjunct2, THEN conjunct1]]
    have f: "fresh_view av1 = fresh_view av" using o by blast
    with IH o show ?case by (auto simp: stale_keys_def owned_cong [OF f])
  qed (simp add: stale_keys_def)
  show "\<exists>s. rfold (stale_row_step B st) (keys, av) rows = Inr s"
    if "\<forall>r \<in> set rows. \<exists>b. owned B st av r = Inr b"
    using that assms
  proof (induction rows arbitrary: keys av)
    case (Cons r rows)
    then obtain b where b: "owned B st av r = Inr b" by auto
    with owns_history_row_memo(2) [OF Cons.prems(2), of r] obtain b' av1 where 1: "owns_history_row B st av r = Inr (b', av1)"
      by (cases "owns_history_row B st av r") auto
    note o = owns_history_row_memo(1) [OF Cons.prems(2) 1]
    then have f: "fresh_view av1 = fresh_view av" by blast
    have "\<forall>r \<in> set rows. \<exists>b. owned B st av1 r = Inr b" unfolding owned_cong [OF f] using Cons.prems(1) by simp
    with Cons.IH o 1 show ?case by (auto simp: stale_row_step_def)
  qed simp
qed

section \<open>Deleting stale rows\<close>

lemma fold_delete_keys: "fold apply_op (map Delete ks) m = m |` (- set ks)"
proof (induction ks arbitrary: m)
  case (Cons k ks)
  have "m(k := None) |` (- set ks) = m |` (- set (k # ks))" by (auto simp: restrict_map_def fun_eq_iff)
  then show ?case by (simp only: list.map fold_simps apply_op_simps Cons.IH)
qed (simp add: restrict_map_def)

definition cache_keys :: "bytes list \<Rightarrow> bytes set" where
  "cache_keys ks = (\<Union>k \<in> set ks. set (cache_keys_of k))"

lemma delete_stale_rows_view:
  assumes "db_ok (history_db st)" and "db_ok (cache_db st)" and "av_ok B st av"
    and "delete_stale_rows B st av rows ms = Inr (st', av')"
  shows "db_ok (history_db st')" and "db_ok (cache_db st')"
    and "db_view (history_db st') = (db_view (history_db st) |` (- set (stale_keys B st av rows))) ++ rows_map (rev ms)"
    and "db_view (cache_db st') = db_view (cache_db st) |` (- cache_keys (stale_keys B st av rows))"
    and "st' = st\<lparr>history_db := history_db st', cache_db := cache_db st'\<rparr>"
    and "av_ok B st av'" and "fresh_view av' = fresh_view av"
    and "\<forall>r \<in> set rows. \<exists>b. owned B st av r = Inr b"
proof -
  let ?keys = "stale_keys B st av rows"
  let ?batch = "map Delete ?keys @ map (\<lambda>m. Put (row_key m) (row_value m)) ms"
  from assms(4) obtain keys where fold: "rfold (stale_row_step B st) ([], av) rows = Inr (keys, av')"
    by (auto simp: delete_stale_rows_def res_iffs Let_def)
  note f = stale_row_fold(1) [OF assms(3) this]
  then have keys: "keys = ?keys" by simp
  from assms(4) fold obtain cdb hdb
    where c: "(if concat (map cache_keys_of ?keys) \<noteq> [] then write_batch (cache_db st) (map Delete (concat (map cache_keys_of ?keys))) FlushEnable
              else Inr (cache_db st)) = Inr cdb"
    and h: "write_batch (history_db st) ?batch FlushEnable = Inr hdb" and st': "st' = st\<lparr>cache_db := cdb, history_db := hdb\<rparr>"
    by (auto simp: delete_stale_rows_def res_iffs Let_def keys)
  from write_batch_Inr [OF h assms(1)] show "db_ok (history_db st')"
    "db_view (history_db st') = (db_view (history_db st) |` (- set ?keys)) ++ rows_map (rev ms)"
    by (simp_all add: st' fold_delete_keys fold_puts)
  have "db_ok cdb \<and> db_view cdb = db_view (cache_db st) |` (- cache_keys ?keys)"
  proof (cases "concat (map cache_keys_of ?keys) = []")
    case True
    then have "cache_keys ?keys = {}" by (simp add: cache_keys_def)
    with True c assms(2) show ?thesis by (simp add: restrict_map_def)
  next
    case False
    with c have "write_batch (cache_db st) (map Delete (concat (map cache_keys_of ?keys))) FlushEnable = Inr cdb" by simp
    from write_batch_Inr [OF this assms(2)] show ?thesis by (simp only: fold_delete_keys cache_keys_def) simp
  qed
  then show "db_ok (cache_db st')" "db_view (cache_db st') = db_view (cache_db st) |` (- cache_keys ?keys)"
    by (simp_all add: st')
  show "st' = st\<lparr>history_db := history_db st', cache_db := cache_db st'\<rparr>" by (simp add: st')
  show "av_ok B st av'" "fresh_view av' = fresh_view av" "\<forall>r \<in> set rows. \<exists>b. owned B st av r = Inr b" using f by blast+
qed


section \<open>Steps of a cleanup\<close>

text \<open>
  Every durable write of a cleanup is one of these steps; an error or a crash leaves the store
  between two of them. \<open>rewrite\<close> stands for the writes to the marker \<open>R\<close> and the \<open>C\<close> and \<open>S\<close> rows.
\<close>

definition done_hashes :: "db_row list \<Rightarrow> blockhash set" where
  "done_hashes rows = {h. 0x44 # hash_bytes h \<in> row_key ` set rows}"

inductive cleanup_step :: "bitcoin_lib \<Rightarrow> 'db store \<Rightarrow> 'db store \<Rightarrow> bool" for B where
  rewrite: "db_ok d \<Longrightarrow> \<forall>k. db_view d k \<noteq> db_view (history_db st) k \<longrightarrow> k \<noteq> [] \<and> hd k \<in> {0x52, 0x43, 0x53} \<Longrightarrow>
    cleanup_step B st (st\<lparr>history_db := d\<rparr>)"
| pop: "0 < n \<Longrightarrow> pop_reorged_headers st n = Inr (removed, st') \<Longrightarrow> cleanup_step B st st'"
| delete: "av_ok B st av \<Longrightarrow> delete_stale_rows B st av rows ms = Inr (st', av') \<Longrightarrow>
    \<forall>m \<in> set ms. \<exists>h. row_key m = undo_marker_key h \<Longrightarrow>
    done_hashes rows \<inter> he_hash ` set (headers (indexed_headers st)) = {} \<Longrightarrow>
    cleanup_step B st (st'\<lparr>indexed_blockhashes := indexed_blockhashes st - done_hashes rows\<rparr>)"

abbreviation cleanup_steps :: "bitcoin_lib \<Rightarrow> 'db store \<Rightarrow> 'db store \<Rightarrow> bool" where
  "cleanup_steps B \<equiv> (cleanup_step B)\<^sup>*\<^sup>*"

subsection \<open>The state stays recoverable\<close>

lemma done_key_not_history: "\<not> is_history_key (0x44 # x)" "\<not> is_history_key (0x75 # x)"
  by (simp_all add: is_history_key_def)

lemma owned_not_history: "\<not> is_history_key (row_key r) \<Longrightarrow> owned B st av r = Inr False"
  by (simp add: owned_def owns_history_row_def)

lemma done_in_stale_keys:
  "0x44 # hash_bytes h \<in> set (stale_keys B st av rows) \<longleftrightarrow> h \<in> done_hashes rows"
proof
  assume "h \<in> done_hashes rows"
  then obtain r where r: "r \<in> set rows" "row_key r = 0x44 # hash_bytes h" by (auto simp: done_hashes_def)
  then have "owned B st av r = Inr False" by (intro owned_not_history) (simp add: done_key_not_history)
  with r show "0x44 # hash_bytes h \<in> set (stale_keys B st av rows)"
    unfolding stale_keys_def by (simp add: image_iff) (metis (mono_tags, lifting))
qed (auto simp: stale_keys_def done_hashes_def)

lemma marks_wf_restrict: "marks_wf c m \<Longrightarrow> marks_wf c (m |` A)"
  by (auto simp: marks_wf_def restrict_map_def split: if_splits)

lemma undo_marker_rows:
  assumes "\<forall>m \<in> set ms. \<exists>h. row_key m = undo_marker_key h" and "rows_map (rev ms) k = Some v"
  shows "\<exists>h. k = 0x75 # hash_bytes h"
proof -
  from rows_map_SomeD [OF assms(2)] obtain r where "r \<in> set ms" "row_key r = k" by auto
  with assms(1) show ?thesis by (auto simp: undo_marker_key_def)
qed

lemma delete_history_marks:
  fixes B :: bitcoin_lib
  assumes "m' = (m |` (- set (stale_keys B st av rows))) ++ rows_map (rev ms)"
    and "\<forall>m \<in> set ms. \<exists>h. row_key m = undo_marker_key h" and "marks_wf 0x44 m" and "marks_wf 0x75 m"
  shows "marks_wf 0x44 m'" and "marks_wf 0x75 m'" and "marked 0x44 m' = marked 0x44 m - done_hashes rows"
proof -
  have at: "m' k = (if k \<in> set (stale_keys B st av rows) then None else m k)" if "\<not> prefix [0x75] k" for k
  proof -
    have "rows_map (rev ms) k = None" using undo_marker_rows [OF assms(2), of k] that by (cases "rows_map (rev ms) k") auto
    then show ?thesis by (simp add: assms(1) map_add_def restrict_map_def)
  qed
  show "marks_wf 0x44 m'"
    unfolding marks_wf_def
  proof (intro ballI impI)
    fix k assume k: "k \<in> dom m'" "prefix [0x44] k"
    then have "\<not> prefix [0x75] k" by (auto simp: prefix_def)
    with k(1) at [of k] have "k \<in> dom m" by (simp add: dom_def split: if_splits)
    with k(2) assms(3) show "\<exists>h. k = 0x44 # hash_bytes h" by (simp add: marks_wf_def)
  qed
  show "marks_wf 0x75 m'"
    unfolding marks_wf_def
  proof (intro ballI impI)
    fix k assume k: "k \<in> dom m'" "prefix [0x75] k"
    show "\<exists>h. k = 0x75 # hash_bytes h"
    proof (cases "rows_map (rev ms) k")
      case None
      with k have "k \<in> dom m" by (auto simp: assms(1) map_add_def restrict_map_def split: if_splits)
      with k(2) assms(4) show ?thesis by (simp add: marks_wf_def)
    next
      case (Some v)
      then show ?thesis by (rule undo_marker_rows [OF assms(2)])
    qed
  qed
  show "marked 0x44 m' = marked 0x44 m - done_hashes rows"
  proof (rule set_eqI)
    fix h
    have "\<not> prefix [0x75] (0x44 # hash_bytes h)" by simp
    from at [OF this] show "h \<in> marked 0x44 m' \<longleftrightarrow> h \<in> marked 0x44 m - done_hashes rows"
      unfolding done_in_stale_keys by (simp add: marked_def dom_def)
  qed
qed


lemma publishable_cong:
  assumes "publishable B st e" and "he_hash e \<in> indexed_blockhashes st'" and "added_blockhashes st' = added_blockhashes st"
    and "\<And>h. db_view (txstore_db st') (header_key h) = db_view (txstore_db st) (header_key h)"
  shows "publishable B st' e"
  using assms by (simp add: publishable_def)

lemma unchanged_code:
  assumes "\<forall>k. v' k \<noteq> v k \<longrightarrow> k \<noteq> [] \<and> hd k \<in> C" and "hd k \<notin> C"
  shows "v' k = v k"
  using assms by blast

lemma store_inv_history:
  assumes "store_inv st" and "db_ok d" and "\<forall>k. db_view d k \<noteq> db_view (history_db st) k \<longrightarrow> k \<noteq> [] \<and> hd k \<in> {0x52, 0x43, 0x53}"
  shows "store_inv (st\<lparr>history_db := d\<rparr>)"
proof -
  have D: "db_view d k = db_view (history_db st) k" if "prefix [0x44] k" for k
    by (rule unchanged_code [OF assms(3)]) (use that in \<open>auto simp: prefix_def\<close>)
  have u: "db_view d k = db_view (history_db st) k" if "prefix [0x75] k" for k
    by (rule unchanged_code [OF assms(3)]) (use that in \<open>auto simp: prefix_def\<close>)
  have "marks_wf 0x44 (db_view d) = marks_wf 0x44 (db_view (history_db st))"
    "marked 0x44 (db_view d) = marked 0x44 (db_view (history_db st))"
    by (rule marks_cong(1), rule D, assumption, rule marks_cong(2), rule D, assumption)
  moreover have "marks_wf 0x75 (db_view d) = marks_wf 0x75 (db_view (history_db st))"
    by (rule marks_cong(1), rule u, assumption)
  ultimately show ?thesis using assms(1,2) by (simp add: store_inv_def)
qed

lemma pop_reorged_headers_spec:
  assumes "db_ok (txstore_db st)" and "hl_inv (indexed_headers st)" and "pop_reorged_headers st n = Inr (removed, st')"
  shows "\<exists>d hl. st' = st\<lparr>txstore_db := d, indexed_headers := hl\<rparr> \<and> removed = drop n (headers (indexed_headers st)) \<and>
    n \<le> length (headers (indexed_headers st)) \<and> hl_inv hl \<and> headers hl = take n (headers (indexed_headers st)) \<and>
    db_ok d \<and> db_view d = (db_view (txstore_db st))(TIP_KEY \<mapsto> hash_bytes (tip hl))"
proof -
  let ?hl = "indexed_headers st"
  have n: "n \<le> length (headers ?hl)" using assms(3) by (simp add: pop_reorged_headers_def hl_len_def split: if_splits)
  from hl_pop_spec [OF assms(2) n] obtain hl where hl: "hl_pop ?hl n = Inr (drop n (headers ?hl), hl)" "hl_inv hl"
    "headers hl = take n (headers ?hl)" by blast
  from put_sync_view [OF assms(1), of TIP_KEY "hash_bytes (tip hl)"] obtain d
    where d: "put_sync (txstore_db st) TIP_KEY (hash_bytes (tip hl)) = Inr d" "db_ok d"
      "db_view d = (db_view (txstore_db st))(TIP_KEY \<mapsto> hash_bytes (tip hl))" by blast
  have "hl_tip hl = Inr (tip hl)" using hl(2) by (simp add: hl_tip_def hl_inv_def)
  with assms(3) hl(1) d(1) n have "removed = drop n (headers ?hl)" "st' = st\<lparr>txstore_db := d, indexed_headers := hl\<rparr>"
    by (simp_all add: pop_reorged_headers_def hl_len_def)
  with hl d n show ?thesis by blast
qed

lemma pop_recoverable:
  assumes "recoverable B st" and "0 < n" and "pop_reorged_headers st n = Inr (removed, st')"
  shows "recoverable B st'"
proof -
  have rec: "store_inv st" "header_rows_wf B (db_view (txstore_db st))"
    "\<forall>e \<in> set (headers (indexed_headers st)). publishable B st e"
    "db_view (txstore_db st) TIP_KEY =
       (if headers (indexed_headers st) = [] then None else Some (hash_bytes (tip (indexed_headers st))))"
    using assms(1) unfolding recoverable_def by blast+
  note i = store_invD [OF rec(1)]
  from pop_reorged_headers_spec [OF i(1,9) assms(3)] obtain d hl
    where st': "st' = st\<lparr>txstore_db := d, indexed_headers := hl\<rparr>" and n: "n \<le> length (headers (indexed_headers st))"
      and hl: "hl_inv hl" "headers hl = take n (headers (indexed_headers st))"
      and d: "db_ok d" "db_view d = (db_view (txstore_db st))(TIP_KEY \<mapsto> hash_bytes (tip hl))" by blast
  have same: "db_view d k = db_view (txstore_db st) k" if "k \<noteq> TIP_KEY" for k using that by (simp add: d(2))
  have "prefix [0x44] k \<Longrightarrow> db_view d k = db_view (txstore_db st) k" for k by (rule same) auto
  then have marks: "marks_wf 0x44 (db_view d)" "marked 0x44 (db_view d) = marked 0x44 (db_view (txstore_db st))"
    using i(4) marks_cong(1) [of "0x44" "db_view d" "db_view (txstore_db st)"] marks_cong(2) [of "0x44" "db_view d" "db_view (txstore_db st)"]
    by simp_all
  show ?thesis
  proof (cases "headers (indexed_headers st) = []")
    case True
    with n assms(2) show ?thesis by simp
  next
    case False
    with n assms(2) have ne: "headers hl \<noteq> []" by (simp add: hl(2))
    have "store_inv st'" using rec(1) d(1) hl(1) marks by (simp add: store_inv_def st')
    moreover have "header_rows_wf B (db_view d)"
      using rec(2) unfolding header_rows_wf_def by (simp add: d(2))
    moreover have "publishable B st' e" if "e \<in> set (headers hl)" for e
    proof -
      from that have "publishable B st e" using rec(3) by (auto simp: hl(2) dest: in_set_takeD)
      then show ?thesis by (rule publishable_cong) (use \<open>publishable B st e\<close> in \<open>simp_all add: st' d(2) publishable_def\<close>)
    qed
    ultimately show ?thesis using ne by (simp add: recoverable_def st' d(2))
  qed
qed

lemma delete_recoverable:
  assumes "recoverable B st" and "av_ok B st av" and "delete_stale_rows B st av rows ms = Inr (st', av')"
    and "\<forall>m \<in> set ms. \<exists>h. row_key m = undo_marker_key h"
    and "done_hashes rows \<inter> he_hash ` set (headers (indexed_headers st)) = {}"
  shows "recoverable B (st'\<lparr>indexed_blockhashes := indexed_blockhashes st - done_hashes rows\<rparr>)" (is "recoverable B ?st'")
proof -
  have inv: "store_inv st" using assms(1) by (simp add: recoverable_def)
  note i = store_invD [OF inv]
  note v = delete_stale_rows_view [OF i(2,3) assms(2,3)]
  note m = delete_history_marks [OF v(3) assms(4) i(5,6)]
  from v(5) obtain h c where st': "st' = st\<lparr>history_db := h, cache_db := c\<rparr>" by blast
  have "store_inv ?st'" using inv v(1,2) m by (simp add: st' store_inv_def)
  moreover have "publishable B ?st' e" if "e \<in> set (headers (indexed_headers st))" for e
  proof -
    from assms(1) that have e: "publishable B st e" by (simp add: recoverable_def)
    moreover have "he_hash e \<notin> done_hashes rows" using assms(5) that by blast
    ultimately show ?thesis by (simp add: st' publishable_def)
  qed
  ultimately show ?thesis using assms(1) by (simp add: recoverable_def st')
qed

lemma cleanup_step_recoverable:
  assumes "cleanup_step B st st'" and "recoverable B st"
  shows "recoverable B st'"
  using assms
proof (induction rule: cleanup_step.induct)
  case (rewrite d st)
  then have "store_inv (st\<lparr>history_db := d\<rparr>)" by (intro store_inv_history) (simp_all add: recoverable_def)
  with rewrite.prems show ?case by (simp add: recoverable_def publishable_def)
next
  case (pop n st removed st')
  show ?case by (rule pop_recoverable [OF pop.prems pop.hyps])
next
  case (delete st av rows ms st' av')
  show ?case by (rule delete_recoverable [OF delete.prems delete.hyps])
qed

lemma cleanup_steps_recoverable: "cleanup_steps B st st' \<Longrightarrow> recoverable B st \<Longrightarrow> recoverable B st'"
  by (induction rule: rtranclp_induct) (auto intro: cleanup_step_recoverable)


subsection \<open>The caches stay valid\<close>

definition caches_valid :: "bitcoin_lib \<Rightarrow> 'db chain_query \<Rightarrow> bool" where
  "caches_valid B q \<longleftrightarrow> (\<forall>sh. utxo_cache_valid B q sh \<and> stats_cache_valid B q sh)"

lemma replay_cong: "\<forall>k \<in> set ks. confirmed hl' k = confirmed hl k \<Longrightarrow> replay hl' ks u = replay hl ks u"
  by (induction ks arbitrary: u) (simp_all add: replay1_def)

lemma stats_of_cong: "\<forall>k \<in> set ks. confirmed hl' k = confirmed hl k \<Longrightarrow> stats_of hl' ks = stats_of hl ks"
proof -
  assume "\<forall>k \<in> set ks. confirmed hl' k = confirmed hl k"
  then have "confirmed_rows hl' ks = confirmed_rows hl ks" unfolding confirmed_rows_def by (intro filter_cong) simp_all
  then show ?thesis by (simp add: stats_of_def)
qed

lemma confirmed_take: "headers hl' = take n (headers hl) \<Longrightarrow> hk_h k < n \<Longrightarrow> confirmed hl' k = confirmed hl k"
  by (simp add: confirmed_def)

text \<open>Headers may only be removed, cache rows only dropped, and the history of a script with a cache row stays.\<close>

lemma caches_valid_mono:
  assumes "caches_valid B q" and hl: "headers (q_headers q') = take n (headers (q_headers q))"
    and u: "\<And>sh raw. db_view (cache_db (cq_store q')) (utxo_cache_key sh) = Some raw \<Longrightarrow>
      db_view (cache_db (cq_store q)) (utxo_cache_key sh) = Some raw \<and> q_history q' sh = q_history q sh"
    and s: "\<And>sh raw. db_view (cache_db (cq_store q')) (stats_cache_key sh) = Some raw \<Longrightarrow>
      db_view (cache_db (cq_store q)) (stats_cache_key sh) = Some raw \<and> q_history q' sh = q_history q sh"
  shows "caches_valid B q'"
proof -
  have conf: "\<forall>k \<in> set (filter (\<lambda>k. hk_h k \<le> i) ks). confirmed (q_headers q') k = confirmed (q_headers q) k"
    if "i < length (headers (q_headers q'))" for i ks
    using that by (auto simp: hl intro: confirmed_take [OF hl])
  have "utxo_cache_valid B q' sh" for sh
    unfolding utxo_cache_valid_def
  proof (intro allI impI)
    fix raw assume "db_view (cache_db (cq_store q')) (utxo_cache_key sh) = Some raw"
    from u [OF this] have c: "db_view (cache_db (cq_store q)) (utxo_cache_key sh) = Some raw" and h: "q_history q' sh = q_history q sh"
      by simp_all
    from c assms(1) obtain m b where m: "raw = row_value (utxo_cache_row B sh m b)" "length m < 2 ^ 64"
      and at: "\<forall>i < length (headers (q_headers q)). he_hash (headers (q_headers q) ! i) = b \<longrightarrow> m = utxos_at q sh i"
      unfolding caches_valid_def utxo_cache_valid_def by blast
    have "m = utxos_at q' sh i" if i: "i < length (headers (q_headers q'))" "he_hash (headers (q_headers q') ! i) = b" for i
      using at i unfolding h replay_cong [OF conf [OF i(1)]] by (simp add: hl)
    with m show "\<exists>m b. raw = row_value (utxo_cache_row B sh m b) \<and> length m < 2 ^ 64 \<and>
        (\<forall>i < length (headers (q_headers q')). he_hash (headers (q_headers q') ! i) = b \<longrightarrow> m = utxos_at q' sh i)" by blast
  qed
  moreover have "stats_cache_valid B q' sh" for sh
    unfolding stats_cache_valid_def
  proof (intro allI impI)
    fix raw assume "db_view (cache_db (cq_store q')) (stats_cache_key sh) = Some raw"
    from s [OF this] have c: "db_view (cache_db (cq_store q)) (stats_cache_key sh) = Some raw" and h: "q_history q' sh = q_history q sh"
      by simp_all
    from c assms(1) obtain m b where m: "raw = row_value (stats_cache_row B sh m b)"
      and at: "\<forall>i < length (headers (q_headers q)). he_hash (headers (q_headers q) ! i) = b \<longrightarrow> m = stats_at q sh i"
      unfolding caches_valid_def stats_cache_valid_def by blast
    have "m = stats_at q' sh i" if i: "i < length (headers (q_headers q'))" "he_hash (headers (q_headers q') ! i) = b" for i
      using at i unfolding h stats_of_cong [OF conf [OF i(1)]] by (simp add: hl)
    with m show "\<exists>m b. raw = row_value (stats_cache_row B sh m b) \<and>
        (\<forall>i < length (headers (q_headers q')). he_hash (headers (q_headers q') ! i) = b \<longrightarrow> m = stats_at q' sh i)" by blast
  qed
  ultimately show ?thesis by (simp add: caches_valid_def)
qed

text \<open>The history of a script after rows were deleted.\<close>

lemma rows_of_restrict:
  assumes "\<And>k. P k \<Longrightarrow> m' k = (if k \<in> K then None else m k)" and "finite (dom m)"
  shows "rows_of m' P = filter (\<lambda>r. row_key r \<notin> K) (rows_of m P)"
proof -
  have dom: "{k \<in> dom m'. P k} = {k \<in> dom m. P k \<and> k \<notin> K}" using assms(1) by (auto split: if_splits)
  have "listing m' P = listing m (\<lambda>k. P k \<and> k \<notin> K)"
    unfolding listing_def dom
  proof (rule map_cong [OF refl])
    fix k assume "k \<in> set (sorted_list_of_set {k \<in> dom m. P k \<and> k \<notin> K})"
    then have "P k \<and> k \<notin> K" using assms(2) by simp
    with assms(1) show "(k, the (m' k)) = (k, the (m k))" by simp
  qed
  with rows_of_filter [OF assms(2), of "\<lambda>k. k \<notin> K" P] show ?thesis by (simp add: rows_of_def)
qed


lemma script_history_cong:
  assumes "db_ok d" and "\<And>k. prefix (history_filter 0x48 sh) k \<Longrightarrow> db_view d' k = db_view d k"
  shows "script_history d' sh = script_history d sh"
  using rows_of_restrict [of "prefix (history_filter 0x48 sh)" "db_view d'" "{}" "db_view d"] assms(2) db_reads(1) [OF assms(1)]
  by (simp add: script_history_def)

lemma cache_keys_history:
  assumes "k \<in> set ks" and "prefix (history_filter 0x48 sh) k"
  shows "utxo_cache_key sh \<in> cache_keys ks" and "stats_cache_key sh \<in> cache_keys ks"
proof -
  from assms(2) obtain r where "k = 0x48 # hash_bytes sh @ r" by (auto simp: history_filter_def prefix_def)
  then have "set (cache_keys_of k) = {stats_cache_key sh, utxo_cache_key sh}" by (simp add: cache_keys_of_def Let_def)
  with assms(1) show "utxo_cache_key sh \<in> cache_keys ks" and "stats_cache_key sh \<in> cache_keys ks"
    unfolding cache_keys_def by blast+
qed

lemma history_filter_code: "prefix (history_filter 0x48 sh) k \<Longrightarrow> k \<noteq> [] \<and> hd k = 0x48"
  by (auto simp: history_filter_def prefix_def)

definition caches_ok :: "bitcoin_lib \<Rightarrow> 'db chain_query \<Rightarrow> 'db store \<Rightarrow> bool" where
  "caches_ok B q st \<longleftrightarrow> history_wf (history_db st) \<and> caches_valid B (q\<lparr>cq_store := st\<rparr>)"

lemma rewrite_caches:
  assumes "store_inv st" and "caches_ok B q st"
    and "\<forall>k. db_view d k \<noteq> db_view (history_db st) k \<longrightarrow> k \<noteq> [] \<and> hd k \<in> {0x52, 0x43, 0x53}"
  shows "caches_ok B q (st\<lparr>history_db := d\<rparr>)"
proof -
  have same: "db_view d k = db_view (history_db st) k" if "k \<noteq> []" "hd k = 0x48" for k
    by (rule unchanged_code [OF assms(3)]) (simp add: that(2))
  have hist: "script_history d sh = script_history (history_db st) sh" for sh
    by (rule script_history_cong [OF store_invD(2) [OF assms(1)]]) (use same history_filter_code in blast)
  have "caches_valid B (q\<lparr>cq_store := st\<lparr>history_db := d\<rparr>\<rparr>)"
    by (rule caches_valid_mono [where q = "q\<lparr>cq_store := st\<rparr>" and n = "length (headers (indexed_headers st))"])
      (use assms(2) hist in \<open>simp_all add: caches_ok_def\<close>)
  moreover have "history_wf d"
    unfolding history_wf_def
  proof (intro ballI impI)
    fix k assume k: "k \<in> dom (db_view d)" "prefix [0x48] k"
    then have "db_view d k = db_view (history_db st) k" by (intro same) (auto simp: prefix_def)
    with k(1) have "k \<in> dom (db_view (history_db st))" by (simp add: domIff)
    with k(2) assms(2) show "\<exists>key. k = put_history_key key" by (simp add: caches_ok_def history_wf_def)
  qed
  ultimately show ?thesis by (simp add: caches_ok_def)
qed

lemma pop_caches:
  assumes "store_inv st" and "caches_ok B q st" and "pop_reorged_headers st n = Inr (removed, st')"
  shows "caches_ok B q st'"
proof -
  note i = store_invD [OF assms(1)]
  from pop_reorged_headers_spec [OF i(1,9) assms(3)] obtain d hl
    where st': "st' = st\<lparr>txstore_db := d, indexed_headers := hl\<rparr>" and hl: "headers hl = take n (headers (indexed_headers st))" by blast
  have "caches_valid B (q\<lparr>cq_store := st'\<rparr>)"
    by (rule caches_valid_mono [where q = "q\<lparr>cq_store := st\<rparr>" and n = n])
      (use assms(2) in \<open>simp_all add: caches_ok_def st' hl\<close>)
  with assms(2) show ?thesis by (simp add: caches_ok_def st')
qed

lemma delete_caches:
  assumes "store_inv st" and "caches_ok B q st" and "av_ok B st av" and "delete_stale_rows B st av rows ms = Inr (st', av')"
    and "\<forall>m \<in> set ms. \<exists>h. row_key m = undo_marker_key h"
  shows "caches_ok B q (st'\<lparr>indexed_blockhashes := S\<rparr>)"
proof -
  note i = store_invD [OF assms(1)]
  let ?K = "stale_keys B st av rows"
  note v = delete_stale_rows_view [OF i(2,3) assms(3,4)]
  from v(5) obtain h c where st': "st' = st\<lparr>history_db := h, cache_db := c\<rparr>" by blast
  have at: "db_view h k = (if k \<in> set ?K then None else db_view (history_db st) k)" if "k \<noteq> []" "hd k = 0x48" for k
  proof -
    have "rows_map (rev ms) k = None" using undo_marker_rows [OF assms(5), of k] that by (cases "rows_map (rev ms) k") auto
    with v(3) show ?thesis by (simp add: st' map_add_def restrict_map_def)
  qed
  have hist: "script_history h sh = script_history (history_db st) sh"
    if "utxo_cache_key sh \<notin> cache_keys ?K \<or> stats_cache_key sh \<notin> cache_keys ?K" for sh
  proof (rule script_history_cong [OF i(2)])
    fix k assume k: "prefix (history_filter 0x48 sh) k"
    then have "k \<notin> set ?K" using that cache_keys_history by blast
    with at history_filter_code [OF k] show "db_view h k = db_view (history_db st) k" by simp
  qed
  have cache: "db_view c k = (if k \<in> cache_keys ?K then None else db_view (cache_db st) k)" for k
    using v(4) by (simp add: st' restrict_map_def)
  have "caches_valid B (q\<lparr>cq_store := st'\<lparr>indexed_blockhashes := S\<rparr>\<rparr>)"
    by (rule caches_valid_mono [where q = "q\<lparr>cq_store := st\<rparr>" and n = "length (headers (indexed_headers st))"])
      (use assms(2) hist in \<open>simp_all add: caches_ok_def st' cache split: if_splits\<close>)
  moreover have "history_wf h"
    unfolding history_wf_def
  proof (intro ballI impI)
    fix k assume k: "k \<in> dom (db_view h)" "prefix [0x48] k"
    then have "k \<noteq> []" "hd k = 0x48" by (auto simp: prefix_def)
    from at [OF this] k(1) have "k \<in> dom (db_view (history_db st))" by (simp add: domIff split: if_splits)
    with k(2) assms(2) show "\<exists>key. k = put_history_key key" by (simp add: caches_ok_def history_wf_def)
  qed
  ultimately show ?thesis by (simp add: caches_ok_def st')
qed

lemma cleanup_steps_caches:
  assumes "cleanup_steps B st st'" and "recoverable B st" and "caches_ok B q st"
  shows "caches_ok B q st'"
  using assms
proof (induction rule: rtranclp_induct)
  case (step st1 st2)
  have inv: "store_inv st1" using cleanup_steps_recoverable [OF step.hyps(1) step.prems(1)] by (simp add: recoverable_def)
  note c = step.IH [OF step.prems]
  from step.hyps(2) show ?case
  proof cases
    case (rewrite d)
    then show ?thesis using rewrite_caches [OF inv c] by simp
  next
    case (pop n removed)
    then show ?thesis using pop_caches [OF inv c] by blast
  next
    case (delete av rows ms st3 av')
    then show ?thesis using delete_caches [OF inv c] by blast
  qed
qed

end
