(* ===== verification/Cleanup.thy ===== *)
theory Cleanup
  imports Undo
begin

text \<open>
  The operations of a cleanup are sequences of its durable steps, so the store stays recoverable
  and the caches valid whatever the outcome.
\<close>

section \<open>The deferred state\<close>

definition marker_ok :: "db_row \<Rightarrow> bool" where
  "marker_ok m \<longleftrightarrow> row_key m = [] \<or> (\<exists>h. row_key m = undo_marker_key h)"

text \<open>Blocks waiting for inputs are in \<open>H\<close>, and what they hold is their marker or nothing yet.\<close>

definition deferred_in :: "blockhash set \<Rightarrow> deferred_undo \<Rightarrow> bool" where
  "deferred_in H d \<longleftrightarrow> (\<forall>x \<in> set (du_blocks d). fst x \<in> H \<and> marker_ok (snd (snd x)))"

lemma deferred_inD:
  assumes "deferred_in H d" and "map_of (du_blocks d) h = Some (n, m)"
  shows "h \<in> H" and "marker_ok m"
  using assms(1) map_of_SomeD [OF assms(2)] unfolding deferred_in_def by (metis fst_conv, metis snd_conv)

lemma rfold_invariant:
  assumes "rfold f s xs = Inr s'" and "P s" and "\<And>s x s'. P s \<Longrightarrow> x \<in> set xs \<Longrightarrow> f s x = Inr s' \<Longrightarrow> P s'"
  shows "P s'"
  using assms
proof (induction xs arbitrary: s)
  case (Cons x xs)
  from Cons.prems(1) obtain s1 where s1: "f s x = Inr s1" "rfold f s1 xs = Inr s'" by (auto simp: res_iffs)
  have "P s1" by (rule Cons.prems(3) [OF Cons.prems(2) _ s1(1)]) simp
  then show ?case
  proof (rule Cons.IH [OF s1(2)])
    fix s x' s' assume "P s" "x' \<in> set xs" "f s x' = Inr s'"
    then show "P s'" by (intro Cons.prems(3) [of s x' s']) simp_all
  qed
qed simp

lemma set_update_subset: "set (AList.update k v al) \<subseteq> insert (k, v) (set al)"
  by (induction al) auto

lemma deferred_in_update:
  assumes "deferred_in H d" and "h \<in> H" and "marker_ok (snd e)" and "du_blocks d' = AList.update h e (du_blocks d)"
  shows "deferred_in H d'"
  unfolding deferred_in_def
proof
  fix x assume "x \<in> set (du_blocks d')"
  with assms(4) set_update_subset [of h e "du_blocks d"] have "x = (h, e) \<or> x \<in> set (du_blocks d)" by auto
  then show "fst x \<in> H \<and> marker_ok (snd (snd x))"
    using assms(1-3) by (auto simp: deferred_in_def)
qed

lemma spending_history_row_key:
  "row_key (spending_history_row B p h t v s) = put_history_key (spending_row B t h v s p)"
  by (simp add: spending_history_row_def spending_row_def history_into_row_def)

lemma history_key_head: "hk_code k = c \<Longrightarrow> hd (put_history_key k) = c \<and> put_history_key k \<noteq> []"
  by (simp add: put_history_key_def)

lemma spending_history_row_head: "hd (row_key (spending_history_row B p h t v s)) = 0x48"
  by (simp add: spending_history_row_key put_history_key_def spending_row_def tx_history_row_new_def)

definition resolved_ok :: "blockhash set \<Rightarrow> db_row list \<times> deferred_undo \<Rightarrow> bool" where
  "resolved_ok H s \<longleftrightarrow> deferred_in H (snd s) \<and> (\<forall>r \<in> set (fst s). hd (row_key r) = 0x48)"

lemma resolve_spend_ok:
  assumes "resolved_ok H s" and "resolve_spend B p out s sp = Inr s'"
  shows "resolved_ok H s'"
proof -
  obtain rows d where s: "s = (rows, d)" by (cases s)
  have P: "deferred_in H d" "\<forall>r \<in> set rows. hd (row_key r) = 0x48" using assms(1) by (simp_all add: s resolved_ok_def)
  obtain n m where nm: "map_of (du_blocks d) (ps_block sp) = Some (n, m)"
  proof (cases "map_of (du_blocks d) (ps_block sp)")
    case None
    with assms(2) show ?thesis by (simp add: s resolve_spend_def)
  next
    case (Some e)
    then show ?thesis using that by (cases e) simp
  qed
  have s': "s' = (rows @ [spending_history_row B out (ps_height sp) (ps_txid sp) (ps_vin sp) p],
      d\<lparr>du_blocks := AList.update (ps_block sp) (usize_dec n, m) (du_blocks d)\<rparr>)"
    using assms(2) by (simp add: s resolve_spend_def nm)
  note D = deferred_inD [OF P(1) nm]
  have "deferred_in H (d\<lparr>du_blocks := AList.update (ps_block sp) (usize_dec n, m) (du_blocks d)\<rparr>)"
    by (rule deferred_in_update [OF P(1) D(1), of "(usize_dec n, m)"]) (simp_all add: D(2))
  with P(2) show ?thesis by (simp add: s' resolved_ok_def spending_history_row_head)
qed

lemma resolve_output_ok:
  assumes "resolved_ok H s" and "resolve_output B s x = Inr s'"
  shows "resolved_ok H s'"
proof -
  obtain rows d where s: "s = (rows, d)" by (cases s)
  obtain p o' where x: "x = (p, o')" by (cases x)
  let ?spends = "case map_of (du_pending d) p of Some spends \<Rightarrow> spends | None \<Rightarrow> []"
  have r: "rfold (resolve_spend B p o') (rows, d\<lparr>du_pending := AList.delete p (du_pending d)\<rparr>) ?spends = Inr s'"
    using assms(2) by (simp add: resolve_output_def s x)
  have "resolved_ok H (rows, d\<lparr>du_pending := AList.delete p (du_pending d)\<rparr>)"
    using assms(1) by (simp add: s resolved_ok_def deferred_in_def)
  from rfold_invariant [where P = "resolved_ok H", OF r this] show ?thesis using resolve_spend_ok by blast
qed

lemma resolve_from_outputs_deferred:
  assumes "resolve_from_outputs B bs d = Inr (rows, d')" and "deferred_in H d"
  shows "deferred_in H d'" and "\<forall>r \<in> set rows. hd (row_key r) = 0x48"
proof -
  have start: "resolved_ok H ([], d)" using assms(2) by (simp add: resolved_ok_def)
  have "resolved_ok H (rows, d')"
  proof (cases "deferred_is_empty d")
    case True
    with assms(1) start show ?thesis by (simp add: resolve_from_outputs_def)
  next
    case False
    with assms(1) have "rfold (resolve_output B) ([], d) (blocks_outputs bs) = Inr (rows, d')"
      by (simp add: resolve_from_outputs_def)
    from rfold_invariant [where P = "resolved_ok H", OF this start] show ?thesis using resolve_output_ok by blast
  qed
  then show "deferred_in H d'" "\<forall>r \<in> set rows. hd (row_key r) = 0x48" by (simp_all add: resolved_ok_def)
qed

lemma blocks_inputs_mem: "(b, t, v, inp) \<in> set (blocks_inputs bs) \<Longrightarrow> b \<in> set bs"
  by (auto simp: blocks_inputs_def)

lemma record_pending_deferred:
  assumes "deferred_in H d" and "block_hash_of ` set bs \<subseteq> H"
  shows "deferred_in H (snd (record_pending B bs missing d)) \<and> (\<forall>k \<in> fst (record_pending B bs missing d). hd k = 0x48)"
proof -
  let ?P = "\<lambda>(keys :: bytes set, d). deferred_in H d \<and> (\<forall>k \<in> keys. hd k = 0x48)"
  have "?P (record_pending B bs missing d)"
    unfolding record_pending_def
  proof (rule fold_invariant [where Q = "\<lambda>x. x \<in> set (blocks_inputs bs)"])
    fix x s assume x: "x \<in> set (blocks_inputs bs)" and P: "?P s"
    obtain b t v inp keys d where xs: "x = (b, t, v, inp)" "s = (keys, d)" by (cases x, cases s) auto
    have b: "block_hash_of b \<in> H" using blocks_inputs_mem x assms(2) by (auto simp: xs)
    show "?P (record_input B missing x s)"
    proof (cases "map_of (du_blocks d) (block_hash_of b)")
      case None
      with P b show ?thesis
        by (auto simp: xs record_input_def Let_def spending_history_row_head marker_ok_def intro!: deferred_in_update [of H d])
    next
      case (Some e)
      obtain n m where e: "e = (n, m)" by (cases e)
      from P Some have "marker_ok m" by (intro deferred_inD(2) [of H d]) (simp_all add: xs e)
      with P b Some show ?thesis
        by (auto simp: xs e record_input_def Let_def spending_history_row_head intro!: deferred_in_update [of H d])
    qed
  qed (use assms(1) in simp_all)
  then show ?thesis by (simp add: case_prod_beta)
qed

lemma hold_markers_deferred:
  assumes "deferred_in H d" and "hold_markers bs d = (ms, ps, d')"
  shows "deferred_in H d'" and "\<forall>r \<in> set ms \<union> set ps. \<exists>b \<in> set bs. row_key r = undo_marker_key (block_hash_of b)"
proof -
  let ?P = "\<lambda>m. \<forall>x \<in> set m. fst x \<in> H \<and> marker_ok (snd (snd x))"
  have mk: "marker_ok (undo_marker b)" for b by (auto simp: marker_ok_def undo_marker_def)
  have "?P (fold (\<lambda>b m. case map_of m (block_hash_of b) of
            Some (n, _) \<Rightarrow> AList.update (block_hash_of b) (n, undo_marker b) m | None \<Rightarrow> m) bs (du_blocks d))"
  proof (rule fold_invariant [where Q = "\<lambda>_. True"])
    fix b m assume P: "?P m"
    show "?P (case map_of m (block_hash_of b) of
            Some (n, _) \<Rightarrow> AList.update (block_hash_of b) (n, undo_marker b) m | None \<Rightarrow> m)"
    proof (cases "map_of m (block_hash_of b)")
      case None
      with P show ?thesis by simp
    next
      case (Some e)
      obtain n mm where e: "e = (n, mm)" by (cases e)
      from map_of_SomeD [OF Some] P have "block_hash_of b \<in> H" by fastforce
      with P mk set_update_subset [of "block_hash_of b" "(n, undo_marker b)" m] Some show ?thesis by (auto simp: e)
    qed
  qed (use assms(1) in \<open>simp_all add: deferred_in_def\<close>)
  with assms(2) show "deferred_in H d'" by (auto simp: hold_markers_def deferred_in_def)
  show "\<forall>r \<in> set ms \<union> set ps. \<exists>b \<in> set bs. row_key r = undo_marker_key (block_hash_of b)"
  proof
    fix r assume "r \<in> set ms \<union> set ps"
    with assms(2) obtain b where "b \<in> set bs" "r = undo_marker b" by (auto simp: hold_markers_def)
    then show "\<exists>b \<in> set bs. row_key r = undo_marker_key (block_hash_of b)" by (intro bexI [of _ b]) (simp_all add: undo_marker_def)
  qed
qed

lemma release_resolved_deferred:
  assumes "deferred_in H d" and "release_resolved d = (hs, ms, d')"
  shows "deferred_in H d'" and "set hs \<subseteq> H" and "\<forall>m \<in> set ms. \<exists>h. row_key m = undo_marker_key h"
proof -
  have in_d: "fst x \<in> H" "marker_ok (snd (snd x))" if "x \<in> set (du_blocks d)" for x
    using assms(1) that by (simp_all add: deferred_in_def)
  show "deferred_in H d'" "set hs \<subseteq> H"
    using assms(2) in_d by (auto simp: release_resolved_def Let_def deferred_in_def)
  show "\<forall>m \<in> set ms. \<exists>h. row_key m = undo_marker_key h"
  proof
    fix m assume "m \<in> set ms"
    with assms(2) obtain x where "x \<in> set (du_blocks d)" "snd (snd x) = m" "row_key m \<noteq> []"
      by (auto simp: release_resolved_def Let_def)
    with in_d(2) [of x] show "\<exists>h. row_key m = undo_marker_key h" by (simp add: marker_ok_def)
  qed
qed

section \<open>One batch\<close>

lemma deferred_in_mono: "deferred_in H d \<Longrightarrow> H \<subseteq> H' \<Longrightarrow> deferred_in H' d"
  unfolding deferred_in_def by blast

lemma av_ok_cong: "txstore_db st' = txstore_db st \<Longrightarrow> av_ok B st' av = av_ok B st av"
  by (simp add: av_ok_def active_txids_def)

abbreviation published :: "'db store \<Rightarrow> blockhash set" where
  "published st \<equiv> he_hash ` set (headers (indexed_headers st))"

text \<open>
  Between two batches: the store is recoverable, the memo of the view is right, and the blocks that
  wait for inputs are neither published nor counted as indexed.
\<close>

definition undo_ok :: "bitcoin_lib \<Rightarrow> 'db undo_state \<Rightarrow> bool" where
  "undo_ok B = (\<lambda>(ix, d, av). recoverable B (ix_store ix) \<and> av_ok B (ix_store ix) av \<and>
     deferred_in (- published (ix_store ix) - indexed_blockhashes (ix_store ix)) d)"

text \<open>What an undo leaves alone besides the two databases and the two hash sets.\<close>

definition undo_frame :: "'db indexer \<Rightarrow> 'db indexer \<Rightarrow> bool" where
  "undo_frame ix ix' \<longleftrightarrow> txstore_db (ix_store ix') = txstore_db (ix_store ix) \<and>
     indexed_headers (ix_store ix') = indexed_headers (ix_store ix) \<and>
     uncommitted_blocks ix' \<subseteq> uncommitted_blocks ix \<and> iconfig ix' = iconfig ix"

lemma undo_frame_refl [simp]: "undo_frame ix ix"
  by (simp add: undo_frame_def)

lemma undo_frame_trans: "undo_frame ix ix' \<Longrightarrow> undo_frame ix' ix'' \<Longrightarrow> undo_frame ix ix''"
  unfolding undo_frame_def by auto

lemma done_hashes_append [simp]: "done_hashes (xs @ ys) = done_hashes xs \<union> done_hashes ys"
  by (auto simp: done_hashes_def)

lemma done_hashes_none: "\<forall>r \<in> set rows. hd (row_key r) \<noteq> 0x44 \<or> row_key r = [] \<Longrightarrow> done_hashes rows = {}"
  unfolding done_hashes_def by (auto simp: image_iff) (metis list.distinct(1) list.sel(1))

lemma undo_key_head [simp]: "hd (undo_marker_key h) = 0x75"
  by (simp add: undo_marker_key_def)

lemma done_hashes_markers: "\<forall>r \<in> set rows. \<exists>h. row_key r = undo_marker_key h \<Longrightarrow> done_hashes rows = {}"
proof (rule done_hashes_none, rule ballI, rule disjI1)
  fix r assume "\<forall>r \<in> set rows. \<exists>h. row_key r = undo_marker_key h" "r \<in> set rows"
  then obtain h where "row_key r = undo_marker_key h" by blast
  then show "hd (row_key r) \<noteq> 0x44" by simp
qed

lemma done_hashes_index:
  assumes "index_blocks B c bs m = Inr rows" and "\<forall>k \<in> K. hd k = 0x48"
  shows "done_hashes (filter (\<lambda>r. row_key r \<notin> K) rows) = block_hash_of ` set bs"
proof (intro equalityI subsetI)
  fix h assume "h \<in> done_hashes (filter (\<lambda>r. row_key r \<notin> K) rows)"
  then obtain r where r: "r \<in> set rows" "row_key r = 0x44 # hash_bytes h" by (auto simp: done_hashes_def)
  from r(1) obtain b where b: "b \<in> set bs" "is_index_row B c m b r" by (auto simp: set_index_blocks [OF assms(1)])
  have "row_key r = 0x44 # hash_bytes (block_hash_of b)" by (rule index_row_codes(1) [OF b(2)]) (simp add: r(2))
  with r(2) have "h = block_hash_of b" by simp
  with b(1) show "h \<in> block_hash_of ` set bs" by blast
next
  fix h assume "h \<in> block_hash_of ` set bs"
  then have "0x44 # hash_bytes h \<in> row_key ` set rows" using done_row_in_index [OF assms(1)] by blast
  moreover have "0x44 # hash_bytes h \<notin> K" using assms(2) by fastforce
  ultimately show "h \<in> done_hashes (filter (\<lambda>r. row_key r \<notin> K) rows)" by (auto simp: done_hashes_def)
qed


lemma undo_index_or_defer_parts:
  assumes "undo_index_or_defer B (ix, d, av) bs = Inr (ix', d', av')"
  obtains resolved d1 prevouts missing indexed keys d2 ms ps d3 rel rms st where
    "resolve_from_outputs B bs d = Inr (resolved, d1)"
    "index_blocks B (iconfig ix) bs prevouts = Inr indexed"
    "(keys, d2) = (if missing \<noteq> {} then record_pending B bs missing d1 else ({}, d1))"
    "hold_markers bs d2 = (ms, ps, d3)" "release_resolved d3 = (rel, rms, d')"
    "delete_stale_rows B (ix_store ix) av (resolved @ ms @ filter (\<lambda>r. row_key r \<notin> keys) indexed @ rms) ps = Inr (st, av')"
    "ix' = forget_indexed (ix\<lparr>ix_store := st\<lparr>indexed_blockhashes := indexed_blockhashes st - block_hash_of ` set bs\<rparr>\<rparr>)
       (filter (\<lambda>h. map_of (du_blocks d') h = None) (map block_hash_of bs) @ rel)"
proof -
  from assms obtain x where x: "resolve_from_outputs B bs d = Inr x"
    by (cases "resolve_from_outputs B bs d") (simp_all add: undo_index_or_defer_def)
  obtain resolved d1 where x': "x = (resolved, d1)" by (cases x)
  from assms x obtain y where y: "lookup_undo_prevouts B (ix_store ix) bs = Inr y"
    by (cases "lookup_undo_prevouts B (ix_store ix) bs") (simp_all add: undo_index_or_defer_def x')
  obtain prevouts missing where y': "y = (prevouts, missing)" by (cases y)
  from assms x y obtain indexed where i: "index_blocks B (iconfig ix) bs prevouts = Inr indexed"
    by (cases "index_blocks B (iconfig ix) bs prevouts") (simp_all add: undo_index_or_defer_def x' y')
  obtain keys d2 where k: "(if missing \<noteq> {} then record_pending B bs missing d1 else ({}, d1)) = (keys, d2)"
    by (cases "if missing \<noteq> {} then record_pending B bs missing d1 else ({}, d1)")
  obtain ms ps d3 where h: "hold_markers bs d2 = (ms, ps, d3)" by (cases "hold_markers bs d2")
  obtain rel rms d4 where r: "release_resolved d3 = (rel, rms, d4)" by (cases "release_resolved d3")
  from assms have "rmap (\<lambda>(st, av). (forget_indexed (ix\<lparr>ix_store := st\<lparr>indexed_blockhashes := indexed_blockhashes st - set (map block_hash_of bs)\<rparr>\<rparr>)
       (filter (\<lambda>h. map_of (du_blocks d4) h = None) (map block_hash_of bs) @ rel), d4, av))
     (delete_stale_rows B (ix_store ix) av (resolved @ ms @ filter (\<lambda>r. row_key r \<notin> keys) indexed @ rms) ps) = Inr (ix', d', av')"
    unfolding undo_index_or_defer_def prod.case x x' rbind_simps y y' i k Let_def h r by simp
  then obtain z where z: "delete_stale_rows B (ix_store ix) av (resolved @ ms @ filter (\<lambda>r. row_key r \<notin> keys) indexed @ rms) ps = Inr z"
    and z': "(case z of (st, av) \<Rightarrow> (forget_indexed (ix\<lparr>ix_store := st\<lparr>indexed_blockhashes := indexed_blockhashes st - set (map block_hash_of bs)\<rparr>\<rparr>)
       (filter (\<lambda>h. map_of (du_blocks d4) h = None) (map block_hash_of bs) @ rel), d4, av)) = (ix', d', av')"
    unfolding rmap_Inr_iff by blast
  obtain st av2 where zz: "z = (st, av2)" by (cases z)
  from z' have e: "d4 = d'" "av2 = av'" "ix' = forget_indexed (ix\<lparr>ix_store := st\<lparr>indexed_blockhashes := indexed_blockhashes st - block_hash_of ` set bs\<rparr>\<rparr>)
       (filter (\<lambda>h. map_of (du_blocks d') h = None) (map block_hash_of bs) @ rel)" by (auto simp: zz)
  show thesis
    by (rule that [OF x [unfolded x'] i k [symmetric] h r [unfolded e(1)] z [unfolded zz e(2)] e(3)])
qed


text \<open>One batch is one durable step.\<close>

lemma undo_index_or_defer_step:
  assumes "undo_index_or_defer B (ix, d, av) bs = Inr (ix', d', av')" and "undo_ok B (ix, d, av)"
    and "block_hash_of ` set bs \<inter> published (ix_store ix) = {}"
  shows "cleanup_step B (ix_store ix) (ix_store ix')" and "undo_ok B (ix', d', av')" and "undo_frame ix ix'"
proof -
  let ?st = "ix_store ix" and ?bs = "block_hash_of ` set bs"
  let ?P = "- published ?st - indexed_blockhashes ?st" and ?H = "(- published ?st - indexed_blockhashes ?st) \<union> ?bs"
  from assms(2) have rec: "recoverable B ?st" and av: "av_ok B ?st av" and d: "deferred_in ?P d" by (simp_all add: undo_ok_def)
  from undo_index_or_defer_parts [OF assms(1)] obtain resolved d1 prevouts missing indexed keys d2 ms ps d3 rel rms st where
    1: "resolve_from_outputs B bs d = Inr (resolved, d1)" and 2: "index_blocks B (iconfig ix) bs prevouts = Inr indexed"
    and 3: "(keys, d2) = (if missing \<noteq> {} then record_pending B bs missing d1 else ({}, d1))"
    and 4: "hold_markers bs d2 = (ms, ps, d3)" and 5: "release_resolved d3 = (rel, rms, d')"
    and 6: "delete_stale_rows B ?st av (resolved @ ms @ filter (\<lambda>r. row_key r \<notin> keys) indexed @ rms) ps = Inr (st, av')"
    and ix': "ix' = forget_indexed (ix\<lparr>ix_store := st\<lparr>indexed_blockhashes := indexed_blockhashes st - ?bs\<rparr>\<rparr>)
       (filter (\<lambda>h. map_of (du_blocks d') h = None) (map block_hash_of bs) @ rel)" .
  have dH: "deferred_in ?H d" by (rule deferred_in_mono [OF d]) blast
  note r = resolve_from_outputs_deferred [OF 1 dH]
  have k: "deferred_in ?H d2" "\<forall>k \<in> keys. hd k = 0x48"
  proof -
    have "deferred_in ?H (snd (keys, d2)) \<and> (\<forall>k \<in> fst (keys, d2). hd k = 0x48)"
      unfolding 3 using record_pending_deferred [OF r(1), of bs B missing] r(1) by simp
    then show "deferred_in ?H d2" "\<forall>k \<in> keys. hd k = 0x48" by simp_all
  qed
  note h = hold_markers_deferred [OF k(1) 4]
  note rel = release_resolved_deferred [OF h(1) 5]
  let ?rows = "resolved @ ms @ filter (\<lambda>r. row_key r \<notin> keys) indexed @ rms"
  have rows: "done_hashes ?rows = ?bs"
  proof -
    have "done_hashes resolved = {}" by (rule done_hashes_none) (simp add: r(2))
    moreover have "done_hashes ms = {}" by (rule done_hashes_markers) (use h(2) in blast)
    moreover have "done_hashes rms = {}" by (rule done_hashes_markers [OF rel(3)])
    ultimately show ?thesis by (simp add: done_hashes_index [OF 2 k(2)])
  qed
  have ps: "\<forall>m \<in> set ps. \<exists>h. row_key m = undo_marker_key h" using h(2) by blast
  note inv = store_invD [OF rec [unfolded recoverable_def, THEN conjunct1]]
  note v = delete_stale_rows_view [OF inv(2,3) av 6]
  from v(5) obtain hd' c' where st: "st = ?st\<lparr>history_db := hd', cache_db := c'\<rparr>" by blast
  have sub: "indexed_blockhashes ?st - ?bs - set (filter (\<lambda>h. map_of (du_blocks d') h = None) (map block_hash_of bs) @ rel) =
      indexed_blockhashes ?st - ?bs" using rel(2) by auto
  have store: "ix_store ix' = st\<lparr>indexed_blockhashes := indexed_blockhashes ?st - done_hashes ?rows\<rparr>"
    unfolding rows using sub by (simp add: ix' forget_indexed_def st)
  show step: "cleanup_step B ?st (ix_store ix')"
    unfolding store by (rule cleanup_step.delete [OF av 6 ps]) (use assms(3) in \<open>unfold rows, assumption\<close>)
  have "deferred_in (- published (ix_store ix') - indexed_blockhashes (ix_store ix')) d'"
    by (rule deferred_in_mono [OF rel(1)]) (use assms(3) in \<open>unfold store rows, auto simp: st\<close>)
  moreover have "av_ok B (ix_store ix') av'"
    using v(6) av_ok_cong [of "ix_store ix'" ?st] by (simp add: store st)
  ultimately show "undo_ok B (ix', d', av')"
    using cleanup_step_recoverable [OF step rec] by (simp add: undo_ok_def)
  show "undo_frame ix ix'" by (auto simp: undo_frame_def store st) (auto simp: ix' forget_indexed_def)
qed

text \<open>The scan of the whole history is one step too.\<close>

lemma undo_by_history_scan_step:
  assumes "undo_by_history_scan B (ix, d, av) = Inr (ix', d', av')" and "undo_ok B (ix, d, av)"
  shows "cleanup_step B (ix_store ix) (ix_store ix')" and "undo_ok B (ix', d', av')" and "undo_frame ix ix'"
proof -
  let ?st = "ix_store ix"
  let ?P = "- published ?st - indexed_blockhashes ?st"
  from assms(2) have rec: "recoverable B ?st" and av: "av_ok B ?st av" and d: "deferred_in ?P d" by (simp_all add: undo_ok_def)
  note inv = store_invD [OF rec [unfolded recoverable_def, THEN conjunct1]]
  from assms(1) obtain found where
    found: "collect (map (scan_row_stale (pending_spends d)) (iter_scan (history_db ?st) [0x48])) = Inr found"
    by (cases "collect (map (scan_row_stale (pending_spends d)) (iter_scan (history_db ?st) [0x48]))")
      (simp_all add: undo_by_history_scan_def)
  let ?found = "concat (map (\<lambda>r. case r of Some row \<Rightarrow> [row] | None \<Rightarrow> []) found)"
  let ?rows = "?found @ map (snd \<circ> snd) (du_blocks d)"
  from assms(1) obtain z where z: "delete_stale_rows B ?st av ?rows [] = Inr z"
    by (cases "delete_stale_rows B ?st av ?rows []") (simp_all add: undo_by_history_scan_def found)
  obtain st av2 where z': "z = (st, av2)" by (cases z)
  from assms(1) have e: "ix' = forget_indexed (ix\<lparr>ix_store := st\<rparr>) (map fst (du_blocks d))" "d' = d" "av2 = av'"
    by (auto simp: undo_by_history_scan_def found z z')
  note v = delete_stale_rows_view [OF inv(2,3) av z [unfolded z' e(3)]]
  from v(5) obtain hd' c' where st: "st = ?st\<lparr>history_db := hd', cache_db := c'\<rparr>" by blast
  have "hd (row_key r) = 0x48" if "r \<in> set ?found" for r
  proof -
    from that have "Some r \<in> set found" by (auto split: option.splits)
    then obtain x where x: "x \<in> set (iter_scan (history_db ?st) [0x48])" "scan_row_stale (pending_spends d) x = Inr (Some r)"
      unfolding collect_map_mem [OF found] by blast
    from x(2) have "x = Inr r"
      by (auto simp: scan_row_stale_def res_iffs) (auto split: tx_history_info.splits if_splits)
    with x(1) have "r \<in> set (rows_of (db_view (history_db ?st)) (prefix [0x48]))" by (auto simp: iter_scan_view [OF inv(2)])
    then have "prefix [0x48] (row_key r)" using rows_of_key [OF db_reads(1) [OF inv(2)]] by blast
    then show ?thesis by (auto simp: prefix_def)
  qed
  moreover have "hd (row_key m) \<noteq> 0x44 \<or> row_key m = []" if "m \<in> set (map (snd \<circ> snd) (du_blocks d))" for m
  proof -
    from that d have "marker_ok m" by (auto simp: deferred_in_def)
    then show ?thesis by (auto simp: marker_ok_def)
  qed
  ultimately have none: "done_hashes ?rows = {}" by (intro done_hashes_none) auto
  have "indexed_blockhashes ?st - fst ` set (du_blocks d) = indexed_blockhashes ?st" using d by (auto simp: deferred_in_def)
  then have store: "ix_store ix' = st\<lparr>indexed_blockhashes := indexed_blockhashes ?st - done_hashes ?rows\<rparr>"
    unfolding none by (simp add: e(1) forget_indexed_def st)
  show step: "cleanup_step B ?st (ix_store ix')"
    unfolding store by (rule cleanup_step.delete [OF av z [unfolded z']]) (simp_all only: none set_simps ball_empty Int_empty_left)
  have "av_ok B (ix_store ix') av'" using v(6) av_ok_cong [of "ix_store ix'" ?st] by (simp add: store st)
  moreover have "deferred_in (- published (ix_store ix') - indexed_blockhashes (ix_store ix')) d'"
    using d unfolding store none by (simp add: st e(2))
  ultimately show "undo_ok B (ix', d', av')"
    using cleanup_step_recoverable [OF step rec] by (simp add: undo_ok_def)
  show "undo_frame ix ix'" by (auto simp: undo_frame_def e(1) forget_indexed_def st)
qed


section \<open>Undoing a list of blocks\<close>

definition undo_run :: "bitcoin_lib \<Rightarrow> 'db undo_state \<Rightarrow> 'db undo_state \<Rightarrow> bool" where
  "undo_run B s s' \<longleftrightarrow> cleanup_steps B (ix_store (fst s)) (ix_store (fst s')) \<and> undo_ok B s' \<and> undo_frame (fst s) (fst s')"

lemma undo_run_refl: "undo_ok B s \<Longrightarrow> undo_run B s s"
  by (simp add: undo_run_def)

lemma undo_run_trans: "undo_run B s s' \<Longrightarrow> undo_run B s' s'' \<Longrightarrow> undo_run B s s''"
  unfolding undo_run_def by (auto intro: rtranclp_trans undo_frame_trans)

lemma undo_run_ok: "undo_run B s s' \<Longrightarrow> undo_ok B s'" and undo_run_published: "undo_run B s s' \<Longrightarrow> published (ix_store (fst s')) = published (ix_store (fst s))"
  by (simp_all add: undo_run_def undo_frame_def)

lemma undo_batch_run:
  assumes "undo_ok B s" and "block_hash_of ` set bs \<inter> published (ix_store (fst s)) = {}" and "undo_batch B s bs = (s', r)"
  shows "undo_run B s s'"
proof (cases "undo_index_or_defer B s bs")
  case (Inl e)
  with assms show ?thesis by (simp add: undo_step_def undo_run_refl)
next
  case (Inr t)
  with assms(3) have t: "t = s'" by (simp add: undo_step_def)
  obtain ix d av ix' d' av' where s: "s = (ix, d, av)" "s' = (ix', d', av')" by (cases s, cases s')
  from undo_index_or_defer_step [OF Inr [unfolded t s] assms(1) [unfolded s]] assms(2) show ?thesis
    by (simp add: undo_run_def s r_into_rtranclp)
qed

lemma finish_deferred_run:
  assumes "undo_ok B s" and "undo_step (finish_deferred_undo B) s = (s', r)"
  shows "undo_run B s s'"
proof (cases "finish_deferred_undo B s")
  case (Inl e)
  with assms show ?thesis by (simp add: undo_step_def undo_run_refl)
next
  case (Inr t)
  with assms(2) have t: "t = s'" by (simp add: undo_step_def)
  obtain ix d av ix' d' av' where s: "s = (ix, d, av)" "s' = (ix', d', av')" by (cases s, cases s')
  show ?thesis
  proof (cases "deferred_is_empty d")
    case True
    with Inr t assms(1) show ?thesis by (simp add: s finish_deferred_undo_def undo_run_refl)
  next
    case False
    with Inr have "undo_by_history_scan B (ix, d, av) = Inr (ix', d', av')" by (simp add: finish_deferred_undo_def t s)
    from undo_by_history_scan_step [OF this assms(1) [unfolded s]] show ?thesis by (simp add: undo_run_def s r_into_rtranclp)
  qed
qed

lemma consume_run:
  assumes "undo_ok B s" and "consume (undo_batch B) s bss = (s', e)"
    and "\<forall>bs \<in> set bss. block_hash_of ` set bs \<inter> published (ix_store (fst s)) = {}"
  shows "undo_run B s s'"
  using assms
proof (induction bss arbitrary: s)
  case Nil
  then show ?case by (simp add: undo_run_refl)
next
  case (Cons bs bss)
  obtain s1 r where u: "undo_batch B s bs = (s1, r)" by (cases "undo_batch B s bs")
  have run: "undo_run B s s1" by (rule undo_batch_run [OF Cons.prems(1) _ u]) (use Cons.prems(3) in simp)
  show ?case
  proof (cases r)
    case (Inl e)
    with Cons.prems(2) u run show ?thesis by simp
  next
    case (Inr x)
    with Cons.prems(2) u have "consume (undo_batch B) s1 bss = (s', e)" by simp
    from Cons.IH [OF undo_run_ok [OF run] this] Cons.prems(3) undo_run_published [OF run] have "undo_run B s1 s'" by simp
    with run show ?thesis by (rule undo_run_trans)
  qed
qed

lemma stored_block_entry: "stored_block B st h = Inr (Some b) \<Longrightarrow> be_entry b = h"
  by (auto simp: stored_block_def res_iffs Let_def)

lemma undo_stored_run:
  assumes "undo_ok B s" and "undo_stored B n batch remote s hs = (s', r)"
    and "block_hash_of ` set batch \<inter> published (ix_store (fst s)) = {}"
    and "he_hash ` set hs \<inter> published (ix_store (fst s)) = {}"
  shows "undo_run B s s' \<and> (\<forall>rem. r = Inr rem \<longrightarrow> set rem \<subseteq> set remote \<union> set hs)"
  using assms
proof (induction B n batch remote s hs rule: undo_stored.induct)
  case (1 B n batch remote s)
  then show ?case
    by (auto simp: undo_run_refl split: if_splits prod.splits sum.splits dest!: undo_batch_run [rotated 2])
next
  case (2 B n batch remote s h hs)
  note hash = "2.prems"(4)
  then have hs: "he_hash ` set hs \<inter> published (ix_store (fst s)) = {}" by simp
  show ?case
  proof (cases "stored_block B (ix_store (fst s)) h")
    case (Inl e)
    with "2.prems" show ?thesis by (auto simp: undo_run_refl)
  next
    case (Inr x)
    show ?thesis
    proof (cases x)
      case None
      with "2.prems"(2) Inr have "undo_stored B n batch (remote @ [h]) s hs = (s', r)" by simp
      from "2.IH"(1) [OF Inr None "2.prems"(1) this "2.prems"(3) hs] show ?thesis by auto
    next
      case (Some b)
      have b: "block_hash_of b = he_hash h" using stored_block_entry Inr Some by blast
      have batch: "block_hash_of ` set (batch @ [b]) \<inter> published (ix_store (fst s)) = {}" using "2.prems"(3) hash b by auto
      show ?thesis
      proof (cases "length (batch @ [b]) = n")
        case True
        obtain s1 r1 where u: "undo_batch B s (batch @ [b]) = (s1, r1)" by (cases "undo_batch B s (batch @ [b])")
        have run: "undo_run B s s1" by (rule undo_batch_run [OF "2.prems"(1) batch u])
        show ?thesis
        proof (cases r1)
          case (Inl e)
          with "2.prems"(2) Inr Some True u run show ?thesis by auto
        next
          case (Inr y)
          with "2.prems"(2) \<open>stored_block B (ix_store (fst s)) h = Inr x\<close> Some True u
          have "undo_stored B n [] remote s1 hs = (s', r)" by simp
          moreover have "he_hash ` set hs \<inter> published (ix_store (fst s1)) = {}" "block_hash_of ` set [] \<inter> published (ix_store (fst s1)) = {}"
            unfolding undo_run_published [OF run] using hs by simp_all
          ultimately have "undo_run B s1 s' \<and> (\<forall>rem. r = Inr rem \<longrightarrow> set rem \<subseteq> set remote \<union> set hs)"
            by (intro "2.IH"(2) [OF \<open>stored_block B (ix_store (fst s)) h = Inr x\<close> Some True u [symmetric] Inr undo_run_ok [OF run]])
          with undo_run_trans [OF run] show ?thesis by auto
        qed
      next
        case False
        with "2.prems"(2) Inr Some have "undo_stored B n (batch @ [b]) remote s hs = (s', r)" by simp
        from "2.IH"(3) [OF Inr Some False "2.prems"(1) this batch hs] show ?thesis by auto
      qed
    qed
  qed
qed


lemma undo_remote_run:
  assumes "undo_ok B s" and "he_hash ` set remote \<inter> published (ix_store (fst s)) = {}"
    and "(if remote = [] then (s, Inr ())
          else case start_fetcher B D F FromBitcoind remote n of
            Inl e \<Rightarrow> (s, Inl e)
          | Inr ft \<Rightarrow> fetcher_map (undo_batch B) s ft) = (s', r)"
  shows "undo_run B s s'"
proof (cases "remote = []")
  case True
  with assms show ?thesis by (simp add: undo_run_refl)
next
  case False
  show ?thesis
  proof (cases "start_fetcher B D F FromBitcoind remote n")
    case (Inl e)
    with assms False show ?thesis by (simp add: undo_run_refl)
  next
    case (Inr ft)
    then have "prefix (map be_entry (concat (ft_items ft))) remote"
      using bitcoind_fetcher_entries [of B D remote n ft] by (simp add: start_fetcher_def)
    then have sub: "set (map be_entry (concat (ft_items ft))) \<subseteq> set remote" by (rule set_mono_prefix)
    have "\<forall>bs \<in> set (ft_items ft). block_hash_of ` set bs \<inter> published (ix_store (fst s)) = {}"
    proof
      fix bs assume "bs \<in> set (ft_items ft)"
      then have "be_entry ` set bs \<subseteq> set remote" using sub by auto
      then have "block_hash_of ` set bs \<subseteq> he_hash ` set remote" by blast
      with assms(2) show "block_hash_of ` set bs \<inter> published (ix_store (fst s)) = {}" by blast
    qed
    moreover obtain s1 e where c: "consume (undo_batch B) s (ft_items ft) = (s1, e)"
      by (cases "consume (undo_batch B) s (ft_items ft)")
    ultimately have "undo_run B s s1" using consume_run [OF assms(1) c] by blast
    moreover have "s' = s1" using assms(3) False Inr c by (cases e) (simp_all add: fetcher_map_def)
    ultimately show ?thesis by simp
  qed
qed

text \<open>From here on without the deferred state, which is empty at both ends.\<close>

definition view_ok :: "bitcoin_lib \<Rightarrow> 'db indexer \<times> active_chain_view \<Rightarrow> bool" where
  "view_ok B = (\<lambda>(ix, av). recoverable B (ix_store ix) \<and> av_ok B (ix_store ix) av)"

lemma undo_blocks_run:
  assumes "view_ok B (ix, av)" and "he_hash ` set hs \<inter> published (ix_store ix) = {}"
    and "undo_blocks B D F av ix hs = ((ix', av'), r)"
  shows "cleanup_steps B (ix_store ix) (ix_store ix')" and "view_ok B (ix', av')" and "undo_frame ix ix'"
proof -
  let ?s = "(ix, deferred_default, av)"
  have ok: "undo_ok B ?s" using assms(1) by (simp add: undo_ok_def view_ok_def deferred_in_def deferred_default_def)
  obtain s1 r1 where st: "undo_stored B (max (block_batch_size (iconfig ix)) 1) [] [] ?s hs = (s1, r1)"
    by (cases "undo_stored B (max (block_batch_size (iconfig ix)) 1) [] [] ?s hs")
  obtain ix1 d1 av1 where s1: "s1 = (ix1, d1, av1)" by (cases s1)
  have run1: "undo_run B ?s s1" and rem: "r1 = Inr remote \<Longrightarrow> set remote \<subseteq> set hs" for remote
    using undo_stored_run [OF ok st] assms(2) by auto
  have "\<exists>d'. undo_run B ?s (ix', d', av')"
  proof (cases r1)
    case (Inl e)
    with assms(3) st s1 have "ix1 = ix'" "av1 = av'" by (simp_all add: undo_blocks_def)
    with run1 show ?thesis by (intro exI [of _ d1]) (simp add: s1)
  next
    case (Inr remote)
    let ?f = "if remote = [] then (s1, Inr ())
          else case start_fetcher B D F FromBitcoind remote (block_batch_size (iconfig ix)) of
            Inl e \<Rightarrow> (s1, Inl e) | Inr ft \<Rightarrow> fetcher_map (undo_batch B) s1 ft"
    obtain s2 r2 where f: "?f = (s2, r2)" by (cases ?f)
    have "he_hash ` set remote \<inter> published (ix_store (fst s1)) = {}"
      using assms(2) rem [OF Inr] undo_run_published [OF run1] by auto
    from undo_remote_run [OF undo_run_ok [OF run1] this f] have run2: "undo_run B ?s s2" by (rule undo_run_trans [OF run1])
    obtain s3 r3 where g: "and_then (s2, r2) (undo_step (finish_deferred_undo B)) = (s3, r3)"
      by (cases "and_then (s2, r2) (undo_step (finish_deferred_undo B))")
    have run3: "undo_run B ?s s3"
    proof (cases r2)
      case (Inl e)
      with g run2 show ?thesis by (simp add: and_then_def)
    next
      case (Inr u)
      with g have "undo_step (finish_deferred_undo B) s2 = (s3, r3)" by (simp add: and_then_def)
      from finish_deferred_run [OF undo_run_ok [OF run2] this] show ?thesis by (rule undo_run_trans [OF run2])
    qed
    obtain ix3 d3 av3 where s3: "s3 = (ix3, d3, av3)" by (cases s3)
    have "undo_blocks B D F av ix hs = ((ix3, av3), r3)"
      unfolding undo_blocks_def st [unfolded s1 Inr] prod.case sum.case f [unfolded s1] g s3 by (rule refl)
    with assms(3) have "ix3 = ix'" "av3 = av'" by simp_all
    with run3 show ?thesis by (intro exI [of _ d3]) (simp add: s3)
  qed
  then show "cleanup_steps B (ix_store ix) (ix_store ix')" and "view_ok B (ix', av')" and "undo_frame ix ix'"
    by (simp_all add: undo_run_def undo_ok_def view_ok_def)
qed


section \<open>The rewrite\<close>

abbreviation REWRITE_CODES :: "u8 set" where "REWRITE_CODES \<equiv> {0x52, 0x43, 0x53}"

definition op_key_in :: "u8 set \<Rightarrow> batch_op \<Rightarrow> bool" where
  "op_key_in C op = (case op of Put k _ \<Rightarrow> k \<noteq> [] \<and> hd k \<in> C | Delete k \<Rightarrow> k \<noteq> [] \<and> hd k \<in> C | DeleteRange _ _ \<Rightarrow> False)"

definition only_rewrites :: "'db DB \<Rightarrow> 'db DB \<Rightarrow> bool" where
  "only_rewrites d d' \<longleftrightarrow> db_ok d' \<and> (\<forall>k. db_view d' k \<noteq> db_view d k \<longrightarrow> k \<noteq> [] \<and> hd k \<in> REWRITE_CODES)"

lemma only_rewrites_refl: "db_ok d \<Longrightarrow> only_rewrites d d"
  by (simp add: only_rewrites_def)

lemma only_rewrites_trans: "only_rewrites d d' \<Longrightarrow> only_rewrites d' d'' \<Longrightarrow> only_rewrites d d''"
  unfolding only_rewrites_def by metis

lemma only_rewrites_ok: "only_rewrites d d' \<Longrightarrow> db_ok d'"
  by (simp add: only_rewrites_def)

lemma fold_ops_elsewhere:
  assumes "\<forall>op \<in> set ops. op_key_in C op" and "fold apply_op ops m k \<noteq> m k"
  shows "k \<noteq> [] \<and> hd k \<in> C"
  using assms
proof (induction ops arbitrary: m)
  case (Cons op ops)
  show ?case
  proof (cases "apply_op op m k = m k")
    case True
    with Cons.prems(2) have "fold apply_op ops (apply_op op m) k \<noteq> apply_op op m k" by simp
    with Cons.IH [of "apply_op op m"] Cons.prems(1) show ?thesis by simp
  next
    case False
    with Cons.prems(1) show ?thesis by (auto simp: op_key_in_def split: batch_op.splits if_splits)
  qed
qed simp

lemma write_batch_rewrites:
  assumes "db_ok d" and "\<forall>op \<in> set ops. op_key_in REWRITE_CODES op" and "write_batch d ops fl = Inr d'"
  shows "only_rewrites d d'"
  using write_batch_Inr [OF assms(3,1)] fold_ops_elsewhere [OF assms(2)] unfolding only_rewrites_def by simp

lemma single_value_row_keys:
  "r \<in> set (single_value_rows B h tx) \<Longrightarrow> op_key_in REWRITE_CODES (Put (row_key r) (row_value r))"
  by (auto simp: single_value_rows_def Let_def tx_conf_row_def tx_conf_key_def tx_edge_row_def tx_edge_key_def op_key_in_def)

lemma rewrite_rows_rewrites:
  assumes "rewrite_rows size_of d batch rows = Inr (d', batch')" and "db_ok d"
    and "\<forall>op \<in> set batch. op_key_in REWRITE_CODES op"
    and "\<forall>r \<in> set rows. op_key_in REWRITE_CODES (Put (row_key r) (row_value r))"
  shows "only_rewrites d d' \<and> (\<forall>op \<in> set batch'. op_key_in REWRITE_CODES op)"
  using assms
proof (induction size_of d batch rows rule: rewrite_rows.induct)
  case (1 size_of d batch)
  then show ?case by (simp add: only_rewrites_refl)
next
  case (2 size_of d batch row rows)
  let ?b = "batch @ [Put (row_key row) (row_value row)]"
  have b: "\<forall>op \<in> set ?b. op_key_in REWRITE_CODES op" and rs: "\<forall>r \<in> set rows. op_key_in REWRITE_CODES (Put (row_key r) (row_value r))"
    using "2.prems"(3,4) by simp_all
  show ?case
  proof (cases "size_of ?b \<ge> REWRITE_BATCH_BYTES")
    case True
    with "2.prems"(1) obtain d1 where d1: "write_batch d ?b FlushEnable = Inr d1" "rewrite_rows size_of d1 [] rows = Inr (d', batch')"
      by (auto simp: Let_def res_iffs)
    have w: "only_rewrites d d1" by (rule write_batch_rewrites [OF "2.prems"(2) b d1(1)])
    from "2.IH"(1) [OF refl True d1(2) only_rewrites_ok [OF w] _ rs] only_rewrites_trans [OF w] show ?thesis by simp
  next
    case False
    with "2.prems"(1) have "rewrite_rows size_of d ?b rows = Inr (d', batch')" by (simp add: Let_def)
    from "2.IH"(2) [OF refl False this "2.prems"(2) b rs] show ?thesis .
  qed
qed

lemma build_rows_keys:
  assumes "build_single_value_rows B st av h hash = Inr rows"
  shows "\<forall>r \<in> set rows. op_key_in REWRITE_CODES (Put (row_key r) (row_value r))"
  using assms single_value_row_keys by (auto simp: build_single_value_rows_def rmap_Inr_iff)

lemma rewrite_heights_rewrites:
  assumes "rewrite_heights size_of B n st av d batch m hts = (d', r)" and "db_ok d"
    and "\<forall>op \<in> set batch. op_key_in REWRITE_CODES op"
  shows "only_rewrites d d' \<and> (\<forall>batch'. r = Inr batch' \<longrightarrow> (\<forall>op \<in> set batch'. op_key_in REWRITE_CODES op))"
  using assms
proof (induction hts arbitrary: d batch m)
  case Nil
  then show ?case by (auto simp: only_rewrites_refl)
next
  case (Cons h hts)
  show ?case
  proof (cases "active_block_at st av h")
    case (Inl e)
    with Cons.prems show ?thesis by (auto simp: only_rewrites_refl)
  next
    case (Inr x)
    show ?thesis
    proof (cases x)
      case None
      with Inr Cons.prems(1) have "rewrite_heights size_of B n st av d batch m hts = (d', r)" by simp
      from Cons.IH [OF this Cons.prems(2,3)] show ?thesis .
    next
      case (Some hash)
      let ?rows = "rbind (build_single_value_rows B st av h hash) (rewrite_rows size_of d batch)"
      show ?thesis
      proof (cases ?rows)
        case (Inl e)
        with Inr Some Cons.prems show ?thesis by (auto simp: only_rewrites_refl)
      next
        case (Inr y)
        obtain d1 batch1 where y: "y = (d1, batch1)" by (cases y)
        from Inr obtain rows where rows: "build_single_value_rows B st av h hash = Inr rows" "rewrite_rows size_of d batch rows = Inr (d1, batch1)"
          unfolding rbind_Inr_iff y by blast
        from rewrite_rows_rewrites [OF rows(2) Cons.prems(2,3) build_rows_keys [OF rows(1)]]
        have 1: "only_rewrites d d1" "\<forall>op \<in> set batch1. op_key_in REWRITE_CODES op" by blast+
        note eq = Cons.prems(1) [unfolded rewrite_heights.simps \<open>active_block_at st av h = Inr x\<close> Some sum.case option.case Inr y prod.case]
        show ?thesis
        proof (cases "(m + 1) mod n = 0")
          case False
          with eq have "rewrite_heights size_of B n st av d1 batch1 (m + 1) hts = (d', r)" by simp
          from Cons.IH [OF this only_rewrites_ok [OF 1(1)] 1(2)] only_rewrites_trans [OF 1(1)] show ?thesis by blast
        next
          case True
          show ?thesis
          proof (cases "write_batch d1 batch1 FlushEnable")
            case (Inl e)
            with eq True have "d' = d1" "r = Inl e" by simp_all
            with 1 show ?thesis by simp
          next
            case (Inr d2)
            with eq True have 2: "rewrite_heights size_of B n st av d2 [] (m + 1) hts = (d', r)" by simp
            have w: "only_rewrites d d2" by (rule only_rewrites_trans [OF 1(1) write_batch_rewrites [OF only_rewrites_ok [OF 1(1)] 1(2) Inr]])
            have "\<forall>op \<in> set []. op_key_in REWRITE_CODES op" by simp
            from Cons.IH [OF 2 only_rewrites_ok [OF w] this] only_rewrites_trans [OF w] show ?thesis by blast
          qed
        qed
      qed
    qed
  qed
qed

lemma finish_rewrite_step:
  assumes "db_ok (history_db st)" and "finish_rewrite size_of B c av st = (st', r)"
  shows "cleanup_step B st st' \<and> st' = st\<lparr>history_db := history_db st'\<rparr>"
proof -
  have step: ?thesis if "st' = st\<lparr>history_db := d\<rparr>" "only_rewrites (history_db st) d" for d
    using that cleanup_step.rewrite [of d st B] by (simp add: only_rewrites_def)
  have id: ?thesis if "st' = st" using that step [of "history_db st"] only_rewrites_refl [OF assms(1)] by simp
  show ?thesis
  proof (cases "pending_rewrite st")
    case (Inl e)
    with assms(2) show ?thesis by (intro id) (simp add: finish_rewrite_def)
  next
    case (Inr p)
    show ?thesis
    proof (cases p)
      case None
      with Inr assms(2) show ?thesis by (intro id) (simp add: finish_rewrite_def)
    next
      case (Some n)
      obtain d r1 where h: "rewrite_heights size_of B (max (block_batch_size c) 1) st av (history_db st) [] 0 [n ..< Suc (top_height av)] = (d, r1)"
        by (cases "rewrite_heights size_of B (max (block_batch_size c) 1) st av (history_db st) [] 0 [n ..< Suc (top_height av)]")
      have none: "\<forall>op \<in> set []. op_key_in REWRITE_CODES op" by simp
      note rw = rewrite_heights_rewrites [OF h assms(1) none]
      note eq = assms(2) [unfolded finish_rewrite_def Inr Some sum.case option.case h prod.case]
      show ?thesis
      proof (cases r1)
        case (Inl e)
        with eq rw show ?thesis by (intro step [of d]) simp_all
      next
        case (Inr batch)
        have ops: "\<forall>op \<in> set (batch @ [Delete PENDING_REWRITE_KEY]). op_key_in REWRITE_CODES op"
          using rw Inr by (auto simp: op_key_in_def)
        show ?thesis
        proof (cases "write_batch d (batch @ [Delete PENDING_REWRITE_KEY]) FlushEnable")
          case (Inl e)
          with eq rw \<open>r1 = Inr batch\<close> show ?thesis by (intro step [of d]) simp_all
        next
          case (Inr d2)
          with eq \<open>r1 = Inr batch\<close> have "st' = st\<lparr>history_db := d2\<rparr>" by simp
          moreover have "only_rewrites (history_db st) d2"
            using rw only_rewrites_trans write_batch_rewrites [OF _ ops Inr] only_rewrites_ok by blast
          ultimately show ?thesis by (rule step)
        qed
      qed
    qed
  qed
qed


section \<open>The whole cleanup\<close>

definition indexer_ok :: "bitcoin_lib \<Rightarrow> 'db indexer \<Rightarrow> bool" where
  "indexer_ok B ix \<longleftrightarrow> recoverable B (ix_store ix) \<and> uncommitted_blocks ix \<inter> published (ix_store ix) = {}"

lemma recoverable_history_ok: "recoverable B st \<Longrightarrow> db_ok (history_db st)"
  by (auto simp: recoverable_def intro: store_invD)

lemma begin_rewrite_step:
  assumes "db_ok (history_db st)" and "begin_rewrite st n = Inr st'"
  shows "cleanup_step B st st' \<and> st' = st\<lparr>history_db := history_db st'\<rparr>"
proof -
  from assms(2) obtain m d where d: "put_sync (history_db st) PENDING_REWRITE_KEY m = Inr d" "st' = st\<lparr>history_db := d\<rparr>"
    by (auto simp: begin_rewrite_def res_iffs Let_def)
  from put_sync_view [OF assms(1), of PENDING_REWRITE_KEY m] d(1)
  have "db_ok d" "db_view d = (db_view (history_db st))(PENDING_REWRITE_KEY \<mapsto> m)" by auto
  then have "cleanup_step B st (st\<lparr>history_db := d\<rparr>)" by (intro cleanup_step.rewrite) auto
  with d(2) show ?thesis by simp
qed

text \<open>How a phase of the cleanup changes the indexer.\<close>

definition phase :: "bitcoin_lib \<Rightarrow> 'db indexer \<times> active_chain_view \<Rightarrow> 'db indexer \<times> active_chain_view \<Rightarrow> bool" where
  "phase B s s' \<longleftrightarrow> cleanup_steps B (ix_store (fst s)) (ix_store (fst s')) \<and> view_ok B s' \<and>
     published (ix_store (fst s')) \<subseteq> published (ix_store (fst s)) \<and>
     (uncommitted_blocks (fst s) \<inter> published (ix_store (fst s)) = {} \<longrightarrow>
        uncommitted_blocks (fst s') \<inter> published (ix_store (fst s')) = {})"

lemma phase_refl: "view_ok B s \<Longrightarrow> phase B s s"
  by (simp add: phase_def)

lemma phase_trans: "phase B s s' \<Longrightarrow> phase B s' s'' \<Longrightarrow> phase B s s''"
  unfolding phase_def
  by (elim conjE) (intro conjI, erule (1) rtranclp_trans, assumption, erule (1) subset_trans, blast)

lemma undo_blocks_phase:
  assumes "view_ok B (ix, av)" and "he_hash ` set hs \<inter> published (ix_store ix) = {}"
    and "undo_blocks B D F av ix hs = (s', r)"
  shows "phase B (ix, av) s'"
proof -
  obtain ix' av' where s': "s' = (ix', av')" by (cases s')
  from undo_blocks_run [OF assms(1,2) assms(3) [unfolded s']] show ?thesis
    by (auto simp: phase_def s' undo_frame_def)
qed

text \<open>A step of the store alone that keeps the transaction store.\<close>

lemma store_step_phase:
  assumes "view_ok B (ix, av)" and "cleanup_step B (ix_store ix) st" and "txstore_db st = txstore_db (ix_store ix)"
    and "indexed_headers st = indexed_headers (ix_store ix)"
  shows "phase B (ix, av) (ix\<lparr>ix_store := st\<rparr>, av)"
  using assms cleanup_step_recoverable [OF assms(2)] av_ok_cong [OF assms(3)]
  by (simp add: phase_def view_ok_def r_into_rtranclp)

lemma undo_reorged_phase:
  assumes "view_ok B (ix, av)" and "0 < n" and "transactions av = []" and "undo_reorged_blocks B D F n (ix, av) = (s', r)"
  shows "phase B (ix, av) s'"
proof -
  have rec: "recoverable B (ix_store ix)" using assms(1) by (simp add: view_ok_def)
  have fresh: "av_ok B st av" for st :: "'a store" using assms(3) by (simp add: av_ok_def)
  show ?thesis
  proof (cases "begin_rewrite (ix_store ix) n")
    case (Inl e)
    with assms show ?thesis by (auto simp: undo_reorged_blocks_def phase_refl)
  next
    case (Inr st1)
    note b = begin_rewrite_step [OF recoverable_history_ok [OF rec] Inr, of B]
    then obtain h where h: "st1 = ix_store ix\<lparr>history_db := h\<rparr>" by blast
    have p1: "phase B (ix, av) (ix\<lparr>ix_store := st1\<rparr>, av)"
      by (rule store_step_phase [OF assms(1)]) (use b h in simp_all)
    then have rec1: "recoverable B st1" by (simp add: phase_def view_ok_def)
    note inv = store_invD [OF rec1 [unfolded recoverable_def, THEN conjunct1]]
    show ?thesis
    proof (cases "pop_reorged_headers st1 n")
      case (Inl e)
      with assms(4) Inr p1 show ?thesis by (auto simp: undo_reorged_blocks_def)
    next
      case (Inr y)
      obtain removed st2 where y: "y = (removed, st2)" by (cases y)
      let ?ix = "ix\<lparr>ix_store := st2, uncommitted_blocks := uncommitted_blocks ix \<union> he_hash ` set removed\<rparr>"
      from pop_reorged_headers_spec [OF inv(1,9) Inr [unfolded y]] obtain d hl
        where st2: "st2 = st1\<lparr>txstore_db := d, indexed_headers := hl\<rparr>" and rem: "removed = drop n (headers (indexed_headers st1))"
          and hl: "headers hl = take n (headers (indexed_headers st1))" by blast
      have "distinct (map he_hash (take n (headers (indexed_headers st1)) @ drop n (headers (indexed_headers st1))))"
        using inv(9) by (simp add: hl_inv_def)
      then have dis: "he_hash ` set removed \<inter> published st2 = {}" 
        unfolding st2 rem map_append distinct_append by (simp add: hl Int_commute)
      have sub: "published st2 \<subseteq> published st1" by (simp add: st2 hl image_mono set_take_subset)
      have step: "cleanup_step B st1 st2" by (rule cleanup_step.pop [OF assms(2) Inr [unfolded y]])
      have "uncommitted_blocks ix \<inter> published st1 = {} \<longrightarrow> (uncommitted_blocks ix \<union> he_hash ` set removed) \<inter> published st2 = {}"
        using sub dis by blast
      then have p2: "phase B (ix\<lparr>ix_store := st1\<rparr>, av) (?ix, av)"
        using step cleanup_step_recoverable [OF step rec1] fresh sub
        by (simp add: phase_def view_ok_def r_into_rtranclp)
      have "undo_blocks B D F av ?ix (rev removed) = (s', r)"
        using assms(4) \<open>begin_rewrite (ix_store ix) n = Inr st1\<close> Inr y by (simp add: undo_reorged_blocks_def)
      moreover have "view_ok B (?ix, av)" using p2 by (simp add: phase_def)
      ultimately have "phase B (?ix, av) s'" using dis by (intro undo_blocks_phase) simp_all
      with p2 have "phase B (ix\<lparr>ix_store := st1\<rparr>, av) s'" by (rule phase_trans)
      then show ?thesis by (rule phase_trans [OF p1])
    qed
  qed
qed

lemma uncommitted_headers_hashes:
  assumes "collect (map (uncommitted_header B D st) stale) = Inr hs"
  shows "he_hash ` set hs \<subseteq> set stale"
proof
  fix x assume "x \<in> he_hash ` set hs"
  then obtain h where h: "h \<in> set hs" "x = he_hash h" by blast
  then obtain s where s: "s \<in> set stale" "uncommitted_header B D st s = Inr h" unfolding collect_map_mem [OF assms] by blast
  then have "he_hash h = s" by (auto simp: uncommitted_header_def res_iffs)
  with s(1) h(2) show "x \<in> set stale" by simp
qed

lemma undo_uncommitted_phase:
  assumes "view_ok B (ix, av)" and "set stale \<inter> published (ix_store ix) = {}"
    and "undo_uncommitted_blocks B D F stale (ix, av) = (s', r)"
  shows "phase B (ix, av) s'"
proof -
  let ?st = "ix_store ix"
  have rec: "recoverable B ?st" using assms(1) by (simp add: view_ok_def)
  let ?pre = "rbind (collect (map (uncommitted_header B D ?st) stale)) (\<lambda>hdrs.
         let hdrs = sort_key (\<lambda>h. - int (he_height h)) hdrs in
         rbind (fork_boundary B D ?st av hdrs) (\<lambda>boundary.
           rmap (\<lambda>st. (st, hdrs)) (case boundary of Some height \<Rightarrow> begin_rewrite ?st height | None \<Rightarrow> Inr ?st)))"
  show ?thesis
  proof (cases ?pre)
    case (Inl e)
    with assms(1,3) show ?thesis by (auto simp: undo_uncommitted_blocks_def phase_refl)
  next
    case (Inr y)
    obtain st hs where y: "y = (st, hs)" by (cases y)
    from Inr [unfolded y] obtain hs0 boundary where hs0: "collect (map (uncommitted_header B D ?st) stale) = Inr hs0"
      and hs: "hs = sort_key (\<lambda>h. - int (he_height h)) hs0"
      and st: "(case boundary of Some height \<Rightarrow> begin_rewrite ?st height | None \<Rightarrow> Inr ?st) = Inr st"
      unfolding rbind_Inr_iff rmap_Inr_iff Let_def prod.inject by blast
    have p: "phase B (ix, av) (ix\<lparr>ix_store := st\<rparr>, av)"
    proof (cases boundary)
      case None
      with st have "st = ?st" by simp
      then show ?thesis using phase_refl [OF assms(1)] by simp
    next
      case (Some n)
      with st have bg: "begin_rewrite ?st n = Inr st" by simp
      note b = begin_rewrite_step [OF recoverable_history_ok [OF rec] bg, of B]
      then obtain h where h: "st = ?st\<lparr>history_db := h\<rparr>" by blast
      show ?thesis by (rule store_step_phase [OF assms(1)]) (use b h in simp_all)
    qed
    have "published st \<subseteq> published ?st" using p by (simp add: phase_def)
    moreover have "he_hash ` set hs \<subseteq> set stale" using uncommitted_headers_hashes [OF hs0] by (simp add: hs)
    ultimately have dis: "he_hash ` set hs \<inter> published st = {}" using assms(2) by blast
    have "undo_blocks B D F av (ix\<lparr>ix_store := st\<rparr>) hs = (s', r)"
      using assms(3) Inr y by (simp add: undo_uncommitted_blocks_def)
    moreover have "view_ok B (ix\<lparr>ix_store := st\<rparr>, av)" using p by (simp add: phase_def)
    ultimately have "phase B (ix\<lparr>ix_store := st\<rparr>, av) s'" using dis by (intro undo_blocks_phase) simp_all
    with p show ?thesis by (rule phase_trans)
  qed
qed


lemma stale_not_published:
  assumes "indexer_ok B ix" and "\<forall>S. set (ord S) \<subseteq> S"
  shows "set (stale_uncommitted ord ix hs) \<inter> published (ix_store ix) = {}"
proof -
  have "set (stale_uncommitted ord ix hs) \<subseteq> uncommitted_blocks ix" using assms(2) by (auto simp: stale_uncommitted_def)
  with assms(1) show ?thesis by (auto simp: indexer_ok_def)
qed

text \<open>Whatever the outcome, the cleanup ran a sequence of durable steps.\<close>

lemma clean_up_steps:
  assumes "indexer_ok B ix" and "\<forall>S. set (ord S) \<subseteq> S" and "reorged_since \<noteq> Some 0"
    and "clean_up_stale_blocks size_of ord B D F ix hs reorged_since = (ix', r)"
  shows "cleanup_steps B (ix_store ix) (ix_store ix')" and "indexer_ok B ix'"
proof -
  let ?stale = "stale_uncommitted ord ix hs"
  let ?av = "active_chain_view_new (ix_store ix) hs reorged_since (Some D)"
  note stale = stale_not_published [OF assms(1,2), of hs]
  have "\<exists>av'. phase B (ix, ?av) (ix', av')"
  proof (cases "\<exists>e. pending_rewrite (ix_store ix) = Inl e \<or> reorged_since = None \<and> ?stale = [] \<and> pending_rewrite (ix_store ix) = Inr None")
    case True
    then have "ix' = ix" using assms(4) by (auto simp: clean_up_stale_blocks_def Let_def)
    moreover have "view_ok B (ix, ?av)" using assms(1) by (simp add: view_ok_def indexer_ok_def)
    ultimately show ?thesis using phase_refl by blast
  next
    case False
    then obtain p where p: "pending_rewrite (ix_store ix) = Inr p" by (cases "pending_rewrite (ix_store ix)") auto
    with False have go: "\<not> (reorged_since = None \<and> ?stale = [] \<and> p = None)" by auto
    have v0: "view_ok B (ix, ?av)" using assms(1) by (simp add: view_ok_def indexer_ok_def)
    let ?u1 = "case reorged_since of Some height \<Rightarrow> undo_reorged_blocks B D F height (ix, ?av) | None \<Rightarrow> ((ix, ?av), Inr ())"
    obtain s1 r1 where u1: "?u1 = (s1, r1)" by (cases ?u1)
    have ph1: "phase B (ix, ?av) s1"
    proof (cases reorged_since)
      case None
      with u1 phase_refl [OF v0] show ?thesis by simp
    next
      case (Some n)
      with u1 assms(3) show ?thesis by (intro undo_reorged_phase [OF v0, of n]) (simp_all add: active_chain_view_new_def)
    qed
    let ?f = "\<lambda>s. if ?stale \<noteq> [] then undo_uncommitted_blocks B D F ?stale s else (s, Inr ())"
    obtain s2 r2 where u2: "and_then (s1, r1) ?f = (s2, r2)" by (cases "and_then (s1, r1) ?f")
    have ph2: "phase B (ix, ?av) s2"
    proof (cases "(\<exists>e. r1 = Inl e) \<or> ?stale = []")
      case True
      with u2 have "s2 = s1" by (auto simp: and_then_def split: sum.splits)
      with ph1 show ?thesis by simp
    next
      case False
      then have u: "undo_uncommitted_blocks B D F ?stale s1 = (s2, r2)" using u2 by (cases r1) (simp_all add: and_then_def)
      obtain ix1 av1 where s1: "s1 = (ix1, av1)" by (cases s1)
      from ph1 have v1: "view_ok B (ix1, av1)" and sub: "published (ix_store ix1) \<subseteq> published (ix_store ix)"
        by (simp_all add: phase_def s1)
      have "set ?stale \<inter> published (ix_store ix1) = {}" using stale sub by blast
      from undo_uncommitted_phase [OF v1 this u [unfolded s1]] show ?thesis by (rule phase_trans [OF ph1 [unfolded s1]])
    qed
    obtain ix2 av2 where s2: "s2 = (ix2, av2)" by (cases s2)
    note eq = assms(4) [unfolded clean_up_stale_blocks_def Let_def p sum.case if_not_P [OF go] u1 u2 s2 prod.case]
    show ?thesis
    proof (cases r2)
      case (Inl e)
      with eq ph2 show ?thesis by (auto simp: s2)
    next
      case (Inr u)
      obtain st r3 where f: "finish_rewrite size_of B (iconfig ix2) av2 (ix_store ix2) = (st, r3)"
        by (cases "finish_rewrite size_of B (iconfig ix2) av2 (ix_store ix2)")
      have v2: "view_ok B (ix2, av2)" using ph2 by (simp add: phase_def s2)
      then have "recoverable B (ix_store ix2)" by (simp add: view_ok_def)
      then have "db_ok (history_db (ix_store ix2))" by (rule recoverable_history_ok)
      note fr = finish_rewrite_step [OF this f]
      then obtain h where h: "st = ix_store ix2\<lparr>history_db := h\<rparr>" by blast
      have "phase B (ix2, av2) (ix2\<lparr>ix_store := st\<rparr>, av2)" by (rule store_step_phase [OF v2]) (use fr h in simp_all)
      moreover have "ix' = ix2\<lparr>ix_store := st\<rparr>" using eq Inr f by simp
      ultimately have "phase B (ix2, av2) (ix', av2)" by simp
      then show ?thesis by (intro exI [of _ av2]) (rule phase_trans [OF ph2 [unfolded s2]])
    qed
  qed
  then obtain av' where ph: "phase B (ix, ?av) (ix', av')" ..
  then show "cleanup_steps B (ix_store ix) (ix_store ix')" by (simp add: phase_def)
  from ph assms(1) show "indexer_ok B ix'" by (simp add: phase_def indexer_ok_def view_ok_def)
qed

text \<open>
  Claim C2. The cleanup of stale blocks is crash safe: whether it succeeds or stops with an error
  half way, the store can be reopened with exactly the in-memory sets and headers it has, no
  uncommitted block is published, and every cache row that is left is still right for the blocks
  that stay.
\<close>

theorem cleanup_crash_safe:
  assumes "indexer_ok B ix" and "\<forall>S. set (ord S) \<subseteq> S" and "reorged_since \<noteq> Some 0" and "bitcoin_laws B"
    and "clean_up_stale_blocks size_of ord B D F ix hs reorged_since = (ix', r)"
  shows "indexer_ok B ix' \<and> (\<forall>q. caches_ok B q (ix_store ix) \<longrightarrow> caches_ok B q (ix_store ix')) \<and>
    store_open B c False (txstore_db (ix_store ix')) (history_db (ix_store ix')) (cache_db (ix_store ix')) = Some (Inr (ix_store ix'))"
proof -
  note steps = clean_up_steps [OF assms(1-3,5)]
  have "recoverable B (ix_store ix)" "recoverable B (ix_store ix')" using assms(1) steps(2) by (simp_all add: indexer_ok_def)
  with steps cleanup_steps_caches store_open_restores [OF _ assms(4)] show ?thesis by blast
qed


definition example_indexer :: "(bytes \<times> bytes) list store \<Rightarrow> (bytes \<times> bytes) list indexer" where
  "example_indexer st = \<lparr>ix_store = st, ix_flush = FlushEnable, ix_from = FromBitcoind, uncommitted_blocks = {5},
     iconfig = example_config, stale_cleanup_failing = False, ix_retry = retry_default\<rparr>"

theorem cleanup_crash_safe_witness:
  "\<exists>st. indexed_blockhashes st = {5} \<and>
     (\<forall>size_of D F. case clean_up_stale_blocks size_of (\<lambda>S. if 5 \<in> S then [5] else []) example_lib D F (example_indexer st) [] None of
        (ix', r) \<Rightarrow> indexer_ok example_lib ix' \<and>
          (\<forall>c. store_open example_lib c False (txstore_db (ix_store ix')) (history_db (ix_store ix')) (cache_db (ix_store ix')) =
             Some (Inr (ix_store ix'))))"
proof -
  obtain st :: "(bytes \<times> bytes) list store"
    where st: "process_block_batch example_lib example_config FlushDisable empty_store [example_entry] = Inr st"
      "recoverable example_lib st" "indexed_headers st = hl_empty" by (rule example_indexed)
  have "indexed_blockhashes st = {5}"
    using process_block_batch_sets(3) [OF empty_store_inv st(1)] by (simp add: empty_store_def example_txs)
  moreover have ok: "indexer_ok example_lib (example_indexer st)"
    using st(2,3) by (simp add: indexer_ok_def example_indexer_def hl_empty_def)
  have ord: "\<forall>S. set (if (5 :: blockhash) \<in> S then [5] else []) \<subseteq> S" by auto
  note safe = cleanup_crash_safe [OF ok ord _ example_lib_laws, where reorged_since = None]
  ultimately show ?thesis by (intro exI [of _ st]) (use safe in \<open>auto split: prod.split\<close>)
qed

end
