(* ===== verification/Rewrite.thy ===== *)
theory Rewrite
  imports Cleanup
begin

text \<open>
  The rewrite of the \<open>C\<close> and \<open>S\<close> rows at the end of a cleanup: its batched writes have the effect of
  one pass over the active blocks, and an interrupted rewrite is finished by the next one.
\<close>

section \<open>The rows to restore\<close>

definition height_rows :: "bitcoin_lib \<Rightarrow> 'db store \<Rightarrow> active_chain_view \<Rightarrow> nat \<Rightarrow> db_row list res" where
  "height_rows B st av h = rbind (active_block_at st av h) (\<lambda>b. case b of
     None \<Rightarrow> Inr [] | Some hash \<Rightarrow> build_single_value_rows B st av h hash)"

definition active_rows :: "bitcoin_lib \<Rightarrow> 'db store \<Rightarrow> active_chain_view \<Rightarrow> nat list \<Rightarrow> db_row list res" where
  "active_rows B st av hts = rmap concat (collect (map (height_rows B st av) hts))"

lemma active_rows_simps [simp]:
  "active_rows B st av [] = Inr []"
  "active_rows B st av (h # hts) = rbind (height_rows B st av h) (\<lambda>rows. rmap ((@) rows) (active_rows B st av hts))"
  by (simp add: active_rows_def)
    (cases "height_rows B st av h"; cases "collect (map (height_rows B st av) hts)"; simp add: active_rows_def)

text \<open>The rows do not depend on the history database.\<close>

lemma load_history [simp]:
  "active_block_at (st\<lparr>history_db := d\<rparr>) av h = active_block_at st av h"
  "load_block B (st\<lparr>history_db := d\<rparr>) av hash = load_block B st av hash"
  by (cases "map_of (new_blocks av) h")
    (simp_all add: active_block_at_def load_block_def stored_header_def stored_transactions_def cong: option.case_cong)

lemma height_rows_history [simp]: "height_rows B (st\<lparr>history_db := d\<rparr>) av h = height_rows B st av h"
  by (simp add: height_rows_def build_single_value_rows_def cong: option.case_cong)

lemma active_rows_history [simp]: "active_rows B (st\<lparr>history_db := d\<rparr>) av hts = active_rows B st av hts"
  by (induction hts) simp_all

lemma height_rows_keys:
  assumes "height_rows B st av h = Inr rows"
  shows "PENDING_REWRITE_KEY \<notin> row_key ` set rows"
proof -
  have key: "row_key r \<noteq> PENDING_REWRITE_KEY" if "r \<in> set (single_value_rows B n tx)" for r n tx
    using that by (auto simp: single_value_rows_def Let_def tx_conf_row_def tx_conf_key_def tx_edge_row_def tx_edge_key_def)
  from assms obtain b where b: "active_block_at st av h = Inr b" by (auto simp: height_rows_def res_iffs)
  show ?thesis
  proof (cases b)
    case None
    with assms b show ?thesis by (simp add: height_rows_def)
  next
    case (Some hash)
    with assms b have "build_single_value_rows B st av h hash = Inr rows" by (simp add: height_rows_def)
    then obtain block :: block where "concat (map (single_value_rows B (of_nat h)) (txdata block)) = rows"
      unfolding build_single_value_rows_def rmap_Inr_iff by blast
    then show ?thesis using key [of _ "of_nat h"] by (auto simp: eq_commute [of PENDING_REWRITE_KEY])
  qed
qed

lemma active_rows_keys: "active_rows B st av hts = Inr rows \<Longrightarrow> PENDING_REWRITE_KEY \<notin> row_key ` set rows"
proof (induction hts arbitrary: rows)
  case (Cons h hts)
  then obtain xs ys where "height_rows B st av h = Inr xs" "active_rows B st av hts = Inr ys" "rows = xs @ ys"
    by (auto simp: res_iffs)
  with Cons.IH height_rows_keys show ?case by (metis Un_iff image_Un set_append)
qed simp

abbreviation puts :: "db_row list \<Rightarrow> batch_op list" where
  "puts rows \<equiv> map (\<lambda>r. Put (row_key r) (row_value r)) rows"

section \<open>Batched writes\<close>

text \<open>\<open>wrote d d' ops batch\<close>: of \<open>ops\<close> a first part is written and the rest is the pending batch.\<close>

definition wrote :: "'db DB \<Rightarrow> 'db DB \<Rightarrow> batch_op list \<Rightarrow> batch_op list \<Rightarrow> bool" where
  "wrote d d' ops batch \<longleftrightarrow> db_ok d' \<and> (\<exists>w. ops = w @ batch \<and> db_view d' = fold apply_op w (db_view d))"

lemma wrote_trans: "wrote d d1 ops batch \<Longrightarrow> wrote d1 d2 (batch @ ops') batch' \<Longrightarrow> wrote d d2 (ops @ ops') batch'"
proof -
  assume 1: "wrote d d1 ops batch" and 2: "wrote d1 d2 (batch @ ops') batch'"
  then obtain w w' where w: "ops = w @ batch" "db_view d1 = fold apply_op w (db_view d)"
    and w': "batch @ ops' = w' @ batch'" "db_view d2 = fold apply_op w' (db_view d1)" by (auto simp: wrote_def)
  have "ops @ ops' = (w @ w') @ batch'" using w(1) w'(1) by simp
  moreover have "db_view d2 = fold apply_op (w @ w') (db_view d)" using w(2) w'(2) by simp
  ultimately show ?thesis using 2 by (auto simp: wrote_def)
qed

lemma wrote_none: "db_ok d \<Longrightarrow> wrote d d ops ops"
  by (simp add: wrote_def)

lemma wrote_batch: "db_ok d \<Longrightarrow> \<exists>d'. write_batch d batch fl = Inr d' \<and> wrote d d' batch []"
  using write_batch_view [of d batch fl] by (auto simp: wrote_def)

lemma wrote_ok: "wrote d d' ops batch \<Longrightarrow> db_ok d'"
  by (simp add: wrote_def)

lemma rewrite_rows_wrote:
  assumes "db_ok d"
  shows "\<exists>d' batch'. rewrite_rows size_of d batch rows = Inr (d', batch') \<and> wrote d d' (batch @ puts rows) batch'"
  using assms
proof (induction size_of d batch rows rule: rewrite_rows.induct)
  case (1 size_of d batch)
  then show ?case by (simp add: wrote_none)
next
  case (2 size_of d batch row rows)
  let ?b = "batch @ [Put (row_key row) (row_value row)]"
  show ?case
  proof (cases "size_of ?b \<ge> REWRITE_BATCH_BYTES")
    case True
    from wrote_batch [OF "2.prems"] obtain d1 where d1: "write_batch d ?b FlushEnable = Inr d1" "wrote d d1 ?b []" by blast
    from "2.IH"(1) [OF refl True wrote_ok [OF d1(2)]] obtain d' batch'
      where r: "rewrite_rows size_of d1 [] rows = Inr (d', batch')" "wrote d1 d' ([] @ puts rows) batch'" by blast
    from wrote_trans [OF d1(2) r(2)] r(1) d1(1) True show ?thesis by (simp add: Let_def)
  next
    case False
    from "2.IH"(2) [OF refl False "2.prems"] False show ?thesis by (simp add: Let_def)
  qed
qed

text \<open>
  A run over the heights. After success every row is written or in the pending batch; an error
  leaves the rows of some of the heights written or lost with the batch.
\<close>

lemma rewrite_heights_wrote:
  assumes "db_ok d" and "rewrite_heights size_of B n st av d batch m hts = (d', r)"
  shows "\<exists>k rows batch'. k \<le> length hts \<and> active_rows B st av (take k hts) = Inr rows \<and>
    wrote d d' (batch @ puts rows) batch' \<and> (\<forall>b. r = Inr b \<longrightarrow> k = length hts \<and> b = batch')"
  using assms
proof (induction hts arbitrary: d batch m)
  case Nil
  then show ?case by (auto intro!: exI [of _ batch] simp: wrote_none)
next
  case (Cons h hts)
  have stop: ?case if "d' = d" "r = Inl e" for e
    using Cons.prems(1) that by (intro exI [of _ 0] exI [of _ "[] :: db_row list"] exI [of _ batch]) (simp add: wrote_none)
  have go: ?case if rows: "height_rows B st av h = Inr rows" and d1: "wrote d d1 (batch @ puts rows) batch1"
      and rest: "rewrite_heights size_of B n st av d1 batch1 m1 hts = (d', r)" for rows d1 batch1 m1
  proof -
    from Cons.IH [OF wrote_ok [OF d1] rest] obtain k rows' batch' where k: "k \<le> length hts"
      "active_rows B st av (take k hts) = Inr rows'" "wrote d1 d' (batch1 @ puts rows') batch'"
      "\<forall>b. r = Inr b \<longrightarrow> k = length hts \<and> b = batch'" by blast
    from wrote_trans [OF d1 k(3)] rows k(1,2,4) show ?thesis
      by (intro exI [of _ "Suc k"] exI [of _ "rows @ rows'"] exI [of _ batch']) simp
  qed
  show ?case
  proof (cases "active_block_at st av h")
    case (Inl e)
    with Cons.prems(2) show ?thesis by (intro stop [of e]) simp_all
  next
    case (Inr x)
    show ?thesis
    proof (cases x)
      case None
      with Inr have "height_rows B st av h = Inr []" by (simp add: height_rows_def)
      moreover have "wrote d d (batch @ puts []) batch" using wrote_none [OF Cons.prems(1)] by simp
      ultimately show ?thesis using Cons.prems(2) Inr None by (intro go [of "[]" d batch m]) simp_all
    next
      case (Some hash)
      with Inr have hr: "height_rows B st av h = build_single_value_rows B st av h hash" by (simp add: height_rows_def)
      show ?thesis
      proof (cases "build_single_value_rows B st av h hash")
        case (Inl e)
        with Cons.prems(2) Inr Some show ?thesis by (intro stop [of e]) simp_all
      next
        case rows: (Inr rows)
        from rewrite_rows_wrote [OF Cons.prems(1)] obtain d1 batch1
          where r1: "rewrite_rows size_of d batch rows = Inr (d1, batch1)" "wrote d d1 (batch @ puts rows) batch1" by blast
        note eq = Cons.prems(2) [unfolded rewrite_heights.simps Inr Some sum.case option.case rows rbind_simps r1(1) prod.case]
        show ?thesis
        proof (cases "(m + 1) mod n = 0")
          case False
          with eq show ?thesis by (intro go [OF hr [unfolded rows] r1(2)]) simp
        next
          case True
          from wrote_batch [OF wrote_ok [OF r1(2)]] obtain d2
            where d2: "write_batch d1 batch1 FlushEnable = Inr d2" "wrote d1 d2 batch1 []" by blast
          from d2(2) have "wrote d1 d2 (batch1 @ []) []" by simp
          from wrote_trans [OF r1(2) this] have "wrote d d2 (batch @ puts rows) []" by simp
          with eq True d2(1) show ?thesis by (intro go [OF hr [unfolded rows]]) simp_all
        qed
      qed
    qed
  qed
qed


section \<open>The rewrite as one pass\<close>

text \<open>The content with the rows of the active blocks in place and the marker gone.\<close>

definition restored :: "(bytes \<Rightarrow> bytes option) \<Rightarrow> db_row list \<Rightarrow> bytes \<Rightarrow> bytes option" where
  "restored m rows = (m ++ rows_map (rev rows))(PENDING_REWRITE_KEY := None)"

abbreviation rewrite_range :: "nat \<Rightarrow> active_chain_view \<Rightarrow> nat list" where
  "rewrite_range n av \<equiv> [n ..< Suc (top_height av)]"

lemma finish_rewrite_cases:
  assumes "db_ok (history_db st)" and "pending_rewrite st = Inr (Some n)" and "finish_rewrite size_of B c av st = (st', r)"
  obtains (finished) rows where "r = Inr ()" "active_rows B st av (rewrite_range n av) = Inr rows"
      "db_view (history_db st') = restored (db_view (history_db st)) rows" "db_ok (history_db st')"
      "st' = st\<lparr>history_db := history_db st'\<rparr>"
  | (failed) e k rows j where "r = Inl e" "active_rows B st av (take k (rewrite_range n av)) = Inr rows"
      "db_view (history_db st') = db_view (history_db st) ++ rows_map (rev (take j rows))" "db_ok (history_db st')"
      "st' = st\<lparr>history_db := history_db st'\<rparr>"
proof -
  obtain d r1 where h: "rewrite_heights size_of B (max (block_batch_size c) 1) st av (history_db st) [] 0 (rewrite_range n av) = (d, r1)"
    by (cases "rewrite_heights size_of B (max (block_batch_size c) 1) st av (history_db st) [] 0 (rewrite_range n av)")
  note eq = assms(3) [unfolded finish_rewrite_def assms(2) sum.case option.case h prod.case]
  from rewrite_heights_wrote [OF assms(1) h] obtain k rows batch where k: "k \<le> length (rewrite_range n av)"
    "active_rows B st av (take k (rewrite_range n av)) = Inr rows" "wrote (history_db st) d ([] @ puts rows) batch"
    "\<forall>b. r1 = Inr b \<longrightarrow> k = length (rewrite_range n av) \<and> b = batch" by blast
  from k(3) obtain w where w: "puts rows = w @ batch" "db_view d = fold apply_op w (db_view (history_db st))" "db_ok d"
    by (auto simp: wrote_def)
  show thesis
  proof (cases r1)
    case (Inl e)
    with eq have st': "st' = st\<lparr>history_db := d\<rparr>" "r = Inl e" by simp_all
    have "w = puts (take (length w) rows)" using w(1) by (metis append_eq_conv_conj take_map)
    then have "db_view d = db_view (history_db st) ++ rows_map (rev (take (length w) rows))"
      using w(2) fold_puts by metis
    with failed [OF st'(2) k(2)] st' w(3) show ?thesis by simp
  next
    case (Inr b)
    with k have b: "b = batch" "active_rows B st av (rewrite_range n av) = Inr rows" by simp_all
    from write_batch_view [OF w(3)] obtain d2 where d2: "write_batch d (batch @ [Delete PENDING_REWRITE_KEY]) FlushEnable = Inr d2"
      "db_ok d2" "db_view d2 = fold apply_op (batch @ [Delete PENDING_REWRITE_KEY]) (db_view d)" by blast
    with eq Inr b(1) have st': "st' = st\<lparr>history_db := d2\<rparr>" "r = Inr ()" by simp_all
    have "db_view d2 = (fold apply_op (w @ batch) (db_view (history_db st)))(PENDING_REWRITE_KEY := None)"
      using d2(3) w(2) by simp
    also have "\<dots> = restored (db_view (history_db st)) rows"
      unfolding w(1) [symmetric] fold_puts restored_def ..
    finally show ?thesis using finished [OF st'(2) b(2)] st' d2(2) by simp
  qed
qed

lemma restored_prefix:
  assumes "rows = xs @ ys"
  shows "restored (m ++ rows_map (rev (take j xs))) rows = restored m rows"
proof -
  have "(m ++ rows_map (rev (take j xs)) ++ rows_map (rev rows)) k = (m ++ rows_map (rev rows)) k" for k
  proof (cases "rows_map (rev rows) k")
    case None
    then have "k \<notin> row_key ` set (rev (take j xs))" unfolding rows_map_None by (auto simp: assms dest: in_set_takeD)
    then have "rows_map (rev (take j xs)) k = None" by (simp only: rows_map_None) simp
    with None show ?thesis by (simp add: map_add_def)
  qed (simp add: map_add_def)
  then show ?thesis unfolding restored_def by presburger
qed

lemma active_rows_take:
  assumes "active_rows B st av hts = Inr rows"
  shows "\<exists>xs ys. active_rows B st av (take k hts) = Inr xs \<and> rows = xs @ ys"
  using assms
proof (induction hts arbitrary: rows k)
  case (Cons h hts)
  then obtain a b where ab: "height_rows B st av h = Inr a" "active_rows B st av hts = Inr b" "rows = a @ b"
    by (auto simp: res_iffs)
  show ?case
  proof (cases k)
    case (Suc l)
    from Cons.IH [OF ab(2), of l] ab(1,3) Suc show ?thesis by auto
  qed simp
qed simp

lemma active_rows_agree:
  assumes "\<forall>h rows. height_rows B st av h = Inr rows \<longrightarrow> height_rows B st av' h = Inr rows"
    and "active_rows B st av hts = Inr rows"
  shows "active_rows B st av' hts = Inr rows"
  using assms(2)
proof (induction hts arbitrary: rows)
  case (Cons h hts)
  then obtain a b where "height_rows B st av h = Inr a" "active_rows B st av hts = Inr b" "rows = a @ b"
    by (auto simp: res_iffs)
  with Cons.IH assms(1) show ?case by simp
qed simp



definition example_marked :: "(bytes \<times> bytes) list store" where
  "example_marked = \<lparr>txstore_db = list_db [], history_db = list_db [(PENDING_REWRITE_KEY, u32_le 0)], cache_db = list_db [],
     added_blockhashes = {}, indexed_blockhashes = {5}, indexed_headers = hl_empty\<rparr>"

definition example_view :: "active_chain_view" where
  "example_view = \<lparr>av_daemon = None, saved_prefix_len = 0, new_blocks = [(0, 5)], transactions = []\<rparr>"

lemma example_marked_pending: "db_ok (history_db example_marked)" "pending_rewrite example_marked = Inr (Some 0)"
proof -
  show ok: "db_ok (history_db example_marked)" by (simp add: example_marked_def)
  show "pending_rewrite example_marked = Inr (Some 0)"
    unfolding pending_rewrite_def db_reads [OF ok] by (simp add: example_marked_def)
qed

lemma example_rewrite_fails:
  "\<exists>st1 e. finish_rewrite (\<lambda>_. 0) example_lib example_config example_view example_marked = (st1, Inl e)"
proof -
  have ok: "db_ok (txstore_db example_marked)" by (simp add: example_marked_def)
  have "active_block_at example_marked example_view 0 = Inr (Some 5)"
    by (simp add: active_block_at_def example_marked_def example_view_def)
  moreover have "stored_header example_lib msg example_marked 5 = Inr None" for msg
    unfolding stored_header_def db_reads [OF ok] by (simp add: example_marked_def)
  moreover have "rewrite_range 0 example_view = [0]" by (simp add: top_height_def example_view_def)
  ultimately show ?thesis
    by (simp add: finish_rewrite_def example_marked_pending(2) build_single_value_rows_def load_block_def fetch_block_def)
      (simp add: example_view_def)
qed


end
