(* ===== verification/Restore.thy ===== *)
theory Restore
  imports Rewrite
begin

text \<open>
  The undo of an indexed batch is the inverse of indexing it, and the walk from a stale block to
  the active chain ends at the fork.
\<close>

section \<open>Previous outputs during an undo\<close>

lemma undo_prevouts_found:
  assumes "\<forall>p \<in> set ps. \<exists>raw. db_view d (tx_out_key p) = Some raw \<and> deser_txout B raw = m p \<and> m p \<noteq> None"
  shows "rfold (undo_prevout B) (m0, missing) (zip (map (\<lambda>p. Inr (db_view d (tx_out_key p))) ps) ps) =
    Inr (\<lambda>p. if p \<in> set ps then m p else m0 p, missing)"
  using assms
proof (induction ps arbitrary: m0)
  case (Cons p ps)
  then obtain raw out where raw: "db_view d (tx_out_key p) = Some raw" "deser_txout B raw = Some out" "m p = Some out" by auto
  have "(\<lambda>q. if q \<in> set ps then m q else (m0(p \<mapsto> out)) q) = (\<lambda>q. if q \<in> set (p # ps) then m q else m0 q)"
    using raw(3) by (auto simp: fun_eq_iff)
  moreover have "undo_prevout B (m0, missing) (Inr (Some raw), p) = Inr (m0(p \<mapsto> out), missing)"
    using raw(2) by (simp add: undo_prevout_def chain_err_def)
  ultimately show ?case using raw(1) Cons by simp
qed simp

lemma undo_own_outputs_none: "fold undo_own_output outs (m, {}) = (m, {})"
  by (induction outs) (auto simp: undo_own_output_def)

lemma lookup_undo_prevouts_found:
  assumes "db_ok (txstore_db st)" and "lookup_txos B (txstore_db st) (get_previous_txos B bs) = Inr m"
  shows "\<exists>m'. lookup_undo_prevouts B st bs = Inr (m', {}) \<and> (\<forall>p \<in> get_previous_txos B bs. m' p = m p)"
proof -
  let ?ps = "sorted_list_of_set (get_previous_txos B bs)"
  let ?m' = "\<lambda>p. if p \<in> set ?ps then m p else None"
  have "\<exists>raw. db_view (txstore_db st) (tx_out_key p) = Some raw \<and> deser_txout B raw = m p \<and> m p \<noteq> None" if "p \<in> set ?ps" for p
  proof -
    from that lookup_txos_spec(1) [OF assms(1) _ assms(2), of p] obtain txo
      where "m p = Some txo" "lookup_txo B (txstore_db st) p = Inr (Some txo)" by auto
    then show ?thesis
      by (cases "db_view (txstore_db st) (tx_out_key p)") (auto simp: lookup_txo_def db_reads [OF assms(1)] res_iffs)
  qed
  then have "rfold (undo_prevout B) (Map.empty, {}) (zip (map (\<lambda>p. Inr (db_view (txstore_db st) (tx_out_key p))) ?ps) ?ps) =
      Inr (?m', {})"
    by (intro undo_prevouts_found) blast
  then have "lookup_undo_prevouts B st bs = Inr (?m', {})"
    by (simp add: lookup_undo_prevouts_def Let_def db_reads [OF assms(1)] undo_own_outputs_none comp_def)
  then show ?thesis by (intro exI [of _ ?m']) simp
qed

lemma index_transaction_cong:
  assumes "\<And>txi. txi \<in> set (tx_input tx) \<Longrightarrow> has_prevout B txi \<Longrightarrow> m' (previous_output txi) = m (previous_output txi)"
  shows "index_transaction B c tx txid h m' = index_transaction B c tx txid h m"
proof -
  have "map (txi_rows B txid h m') (enum32 (tx_input tx)) = map (txi_rows B txid h m) (enum32 (tx_input tx))"
    using assms by (auto simp: set_enum32 txi_rows_def)
  then show ?thesis by (simp only: index_transaction_def)
qed

lemma index_blocks_cong:
  assumes "\<forall>p \<in> get_previous_txos B bs. m' p = m p"
  shows "index_blocks B c bs m' = index_blocks B c bs m"
proof -
  have "index_block B c m' b = index_block B c m b" if b: "b \<in> set bs" for b
  proof -
    have "index_transaction B c tx txid h m' = index_transaction B c tx txid h m"
      if "(tx, txid) \<in> set (block_txs b)" for tx txid h
      by (rule index_transaction_cong) (use assms previous_txo_in [OF b that] in blast)
    then have "map (\<lambda>(tx, txid). index_transaction B c tx txid h m') (block_txs b) =
        map (\<lambda>(tx, txid). index_transaction B c tx txid h m) (block_txs b)" for h by (intro map_cong) auto
    then show ?thesis by (simp only: index_block_def Let_def)
  qed
  then have "map (index_block B c m') bs = map (index_block B c m) bs" by simp
  then show ?thesis by (simp only: index_blocks_def)
qed

section \<open>Undoing an indexed batch\<close>

lemma owned_by_key: "row_key r = row_key r' \<Longrightarrow> owned B st av r = owned B st av r'"
  by (simp add: owned_def owns_history_row_def)

text \<open>The keys of rows that a transaction of the active chain has as well.\<close>

definition shared_keys :: "bitcoin_lib \<Rightarrow> 'db store \<Rightarrow> active_chain_view \<Rightarrow> db_row list \<Rightarrow> bytes set" where
  "shared_keys B st av rows = row_key ` {r \<in> set rows. owned B st av r = Inr True}"

lemma stale_or_shared:
  assumes "\<forall>r \<in> set rows. \<exists>b. owned B st av r = Inr b" and "k \<in> row_key ` set rows"
  shows "k \<in> set (stale_keys B st av rows) \<longleftrightarrow> k \<notin> shared_keys B st av rows"
proof -
  from assms(2) obtain r where r: "r \<in> set rows" "k = row_key r" by blast
  with assms(1) obtain b where b: "owned B st av r = Inr b" by blast
  have "owned B st av r' = Inr b" if "row_key r' = k" for r' using owned_by_key [of r' r B st av] that r(2) b by simp
  then show ?thesis using r b by (cases b) (auto simp: stale_keys_def shared_keys_def image_iff)
qed

lemma stale_keys_sub: "set (stale_keys B st av rows) \<subseteq> row_key ` set rows" "shared_keys B st av rows \<subseteq> row_key ` set rows"
  by (auto simp: stale_keys_def shared_keys_def)

lemma delete_stale_rows_total:
  assumes "db_ok (history_db st)" and "db_ok (cache_db st)" and "av_ok B st av" and "\<forall>r \<in> set rows. \<exists>b. owned B st av r = Inr b"
  shows "\<exists>st' av'. delete_stale_rows B st av rows ms = Inr (st', av')"
proof -
  from stale_row_fold(2) [OF assms(3,4)] obtain keys av' where "rfold (stale_row_step B st) ([], av) rows = Inr (keys, av')" by fastforce
  moreover from write_batch_view [OF assms(2), of "map Delete (concat (map cache_keys_of keys))" FlushEnable]
  obtain c where "write_batch (cache_db st) (map Delete (concat (map cache_keys_of keys))) FlushEnable = Inr c" by blast
  moreover from write_batch_view [OF assms(1), of "map Delete keys @ puts ms" FlushEnable]
  obtain h where "write_batch (history_db st) (map Delete keys @ puts ms) FlushEnable = Inr h" by blast
  ultimately show ?thesis by (simp add: delete_stale_rows_def Let_def)
qed

lemma undo_batch_default:
  assumes "lookup_undo_prevouts B (ix_store ix) bs = Inr (m, {})" and "index_blocks B (iconfig ix) bs m = Inr rows"
    and "delete_stale_rows B (ix_store ix) av (map undo_marker bs @ rows) [] = Inr (st', av')"
  shows "undo_index_or_defer B (ix, deferred_default, av) bs =
    Inr (forget_indexed (ix\<lparr>ix_store := st'\<lparr>indexed_blockhashes := indexed_blockhashes st' - block_hash_of ` set bs\<rparr>\<rparr>)
      (map block_hash_of bs), deferred_default, av')"
proof -
  have hold: "hold_markers bs deferred_default = (map undo_marker bs, [], deferred_default)"
  proof -
    have "fold (\<lambda>b m. case map_of m (he_hash (be_entry b)) of
            Some (n, _) \<Rightarrow> AList.update (he_hash (be_entry b)) (n, undo_marker b) m
          | None \<Rightarrow> m) bs [] = []" by (induction bs) auto
    then show ?thesis by (simp add: hold_markers_def deferred_default_def)
  qed
  have release: "release_resolved deferred_default = ([], [], deferred_default)"
    by (simp add: release_resolved_def deferred_default_def)
  have resolve: "resolve_from_outputs B bs deferred_default = Inr ([], deferred_default)"
    by (simp add: resolve_from_outputs_def deferred_is_empty_def deferred_default_def)
  have "filter (\<lambda>h. map_of (du_blocks deferred_default) h = None) hs = hs" for hs by (simp add: deferred_default_def)
  then show ?thesis using assms by (simp add: undo_index_or_defer_def resolve hold release)
qed

lemma undo_indexed_batch:
  assumes "store_inv st" and "index_op B c fl st bs = Inr st1" and "index_rows B c st bs = Inr rows"
    and "ix_store ix = st1" and "iconfig ix = c" and "av_ok B st1 av" and "\<forall>r \<in> set rows. \<exists>b. owned B st1 av r = Inr b"
  shows "\<exists>st' av'. delete_stale_rows B st1 av (map undo_marker bs @ rows) [] = Inr (st', av') \<and>
    undo_index_or_defer B (ix, deferred_default, av) bs =
      Inr (forget_indexed (ix\<lparr>ix_store := st'\<lparr>indexed_blockhashes := indexed_blockhashes st' - block_hash_of ` set bs\<rparr>\<rparr>)
        (map block_hash_of bs), deferred_default, av')"
proof -
  note inv = index_op_inv [OF assms(1,2)]
  note i = store_invD [OF inv(1)]
  from index_rows_Inr [OF assms(3)] obtain m
    where m: "lookup_txos B (txstore_db st) (get_previous_txos B bs) = Inr m" "index_blocks B c bs m = Inr rows" by blast
  from lookup_undo_prevouts_found [OF i(1), of B bs m] m(1) obtain m'
    where m': "lookup_undo_prevouts B st1 bs = Inr (m', {})" "\<forall>p \<in> get_previous_txos B bs. m' p = m p" by (auto simp: inv(3))
  have rows: "index_blocks B c bs m' = Inr rows" using index_blocks_cong [OF m'(2)] m(2) by simp
  have "owned B st1 av (undo_marker b) = Inr False" for b
    by (rule owned_not_history) (simp add: undo_marker_def undo_marker_key_def done_key_not_history)
  with assms(7) have "\<forall>r \<in> set (map undo_marker bs @ rows). \<exists>b. owned B st1 av r = Inr b" by auto
  from delete_stale_rows_total [OF i(2,3) assms(6) this] obtain st' av'
    where d: "delete_stale_rows B st1 av (map undo_marker bs @ rows) [] = Inr (st', av')" by blast
  from undo_batch_default [of B ix bs m' rows av st' av'] m'(1) rows d assms(4,5) show ?thesis by blast
qed

lemma undo_view:
  assumes "v1 = (v ++ rows_map rs) |` (- U)" and "set rs = set rows" and "v' = v1 |` (- (U \<union> S))"
    and "row_key ` set rows \<inter> dom v = {}" and "U \<inter> dom v = {}" and "S \<union> T = row_key ` set rows" and "S \<inter> T = {}"
    and "U \<inter> row_key ` set rows = {}"
  shows "v' = v ++ (v1 |` T)"
proof
  fix k
  have "rows_map rs k = None \<longleftrightarrow> k \<notin> row_key ` set rows" unfolding rows_map_None assms(2) by (rule refl)
  then show "v' k = (v ++ (v1 |` T)) k"
    using assms(4-8) by (auto simp: assms(1,3) restrict_map_def map_add_def split: option.splits)
qed


lemma owned_no_active_block:
  assumes "\<And>n. active_block_at st av n = Inr None" and "is_index_row B c m b r"
  shows "owned B st av r = Inr False"
proof -
  have none: "contains_transaction B st (fresh_view av) n t = Inr (False, fresh_view av)" for n t
    using assms(1) by (simp add: contains_transaction_def)
  have "owned B st av (history_into_row k) = Inr False" for k
    by (simp add: owned_def owns_history_row_def history_into_row_def history_codec.deserialize_whole none)
  moreover have "owned B st av (tx_conf_row t h) = Inr False" "owned B st av (done_row x h) = Inr False"
      "owned B st av (tx_edge_row t i t' j h) = Inr False" for t h x i t' j
    by (rule owned_not_history, simp add: is_history_key_def tx_conf_row_def tx_edge_row_def done_row_def row_simps new_done_def)+
  ultimately show ?thesis using assms(2) by (auto simp: is_index_row_def tx_fund_row_def tx_spend_row_def)
qed


end
