(* ===== verification/Merkle.thy ===== *)
theory Merkle
  imports Query
begin

text \<open>
  The merkle proofs of \<^verbatim>\<open>src/util/electrum_merkle.rs\<close>: the proof of a transaction in a block, which
  recomputes the tree, and the proof of a header below a checkpoint, which reads it off the stored
  levels of a tree. The double SHA-256 is the parameter \<open>sha256d\<close> of the library.
\<close>

section \<open>Definitions\<close>

definition merklize :: "bitcoin_lib \<Rightarrow> fullhash \<Rightarrow> fullhash \<Rightarrow> fullhash" where
  "merklize B left right = sha256d B (hash_bytes left @ hash_bytes right)"

definition pad_even :: "'a list \<Rightarrow> 'a list" where
  "pad_even hashes = (if length hashes mod 2 \<noteq> 0 then hashes @ [last hashes] else hashes)"

text \<open>\<open>chunks(2)\<close> with \<open>merklize(pair[0], pair[1])\<close>; every chunk of a padded list is full.\<close>

fun merge_pairs :: "bitcoin_lib \<Rightarrow> fullhash list \<Rightarrow> fullhash list" where
  "merge_pairs B (left # right # rest) = merklize B left right # merge_pairs B rest"
| "merge_pairs B _ = []"

abbreviation level_up :: "bitcoin_lib \<Rightarrow> fullhash list \<Rightarrow> fullhash list" where
  "level_up B hashes \<equiv> merge_pairs B (pad_even hashes)"

lemma length_merge_pairs [simp]: "length (merge_pairs B hs) = length hs div 2"
  by (induction B hs rule: merge_pairs.induct) simp_all

lemma length_pad_even: "length (pad_even hs) = 2 * ((length hs + 1) div 2)"
  unfolding pad_even_def by simp presburger

lemma length_level_up: "length (level_up B hs) = (length hs + 1) div 2"
  by (simp add: length_pad_even)

function build_levels :: "bitcoin_lib \<Rightarrow> fullhash list \<Rightarrow> fullhash list list" where
  "build_levels B current =
     (if length current > 1 then level_up B current # build_levels B (level_up B current) else [])"
  by pat_completeness auto

termination by (relation "measure (length \<circ> snd)") (simp_all add: length_pad_even)

definition build_levels_above_leaves :: "bitcoin_lib \<Rightarrow> fullhash list \<Rightarrow> fullhash list list res" where
  "build_levels_above_leaves B leaves =
     (if leaves = [] then Inl (Msg ''missing block headers'') else Inr (build_levels B leaves))"

definition sibling_index :: "nat \<Rightarrow> nat" where
  "sibling_index index = (if index mod 2 = 0 then index + 1 else index - 1)"

text \<open>Indexing a slice panics out of range.\<close>

definition at :: "'a list \<Rightarrow> nat \<Rightarrow> 'a res" where
  "at xs i = (if i < length xs then Inr (xs ! i) else Inl (Panic ''index out of bounds''))"

fun level_siblings :: "fullhash list list \<Rightarrow> nat \<Rightarrow> fullhash list res" where
  "level_siblings [] index = Inr []"
| "level_siblings (level # levels) index =
     rbind (if sibling_index index < length level then at level (sibling_index index)
            else if level = [] then Inl (Panic ''index out of bounds'') else at level (length level - 1)) (\<lambda>sibling.
       rmap (\<lambda>rest. sibling # rest) (level_siblings levels (index div 2)))"

definition extract_branch_and_root ::
  "fullhash list list \<Rightarrow> fullhash \<Rightarrow> nat \<Rightarrow> (fullhash list \<times> fullhash) res" where
  "extract_branch_and_root levels_above_leaves sibling_leaf index =
     rbind (level_siblings (butlast levels_above_leaves) (index div 2)) (\<lambda>siblings.
       if levels_above_leaves = [] then Inl (Msg ''empty checkpoint merkle tree'')
       else if last levels_above_leaves = [] then Inl (Panic ''called `Option::unwrap()` on a `None` value'')
       else Inr (sibling_leaf # siblings, last (last levels_above_leaves)))"

function merkle_loop ::
  "bitcoin_lib \<Rightarrow> fullhash list \<Rightarrow> fullhash list \<Rightarrow> nat \<Rightarrow> (fullhash list \<times> fullhash) res" where
  "merkle_loop B merkle hashes index =
     (if length hashes > 1 then
        let padded = pad_even hashes; index = sibling_index index in
        rbind (at padded index) (\<lambda>h. merkle_loop B (merkle @ [h]) (merge_pairs B padded) (index div 2))
      else rmap (\<lambda>root. (merkle, root)) (at hashes 0))"
  by pat_completeness auto

termination by (relation "measure (\<lambda>(_, _, hashes, _). length hashes)") (simp_all add: length_pad_even)

declare build_levels.simps [simp del] merkle_loop.simps [simp del]

definition create_merkle_branch_and_root ::
  "bitcoin_lib \<Rightarrow> fullhash list \<Rightarrow> nat \<Rightarrow> (fullhash list \<times> fullhash) res" where
  "create_merkle_branch_and_root B hashes index = merkle_loop B [] hashes index"

fun position :: "('a \<Rightarrow> bool) \<Rightarrow> 'a list \<Rightarrow> nat option" where
  "position P [] = None"
| "position P (x # xs) = (if P x then Some 0 else map_option Suc (position P xs))"

definition get_tx_merkle_proof ::
  "bitcoin_lib \<Rightarrow> light_rpc \<Rightarrow> 'db chain_query \<Rightarrow> txid \<Rightarrow> blockhash \<Rightarrow> (fullhash list \<times> nat) res" where
  "get_tx_merkle_proof B L q tx_hash blockhash =
     rbind (get_block_txids B L q blockhash) (\<lambda>v.
     rbind (ok_or (Msg ''missing block txids'') v) (\<lambda>txids.
     rbind (ok_or (Msg ''missing txid'') (position (\<lambda>txid. txid = tx_hash) txids)) (\<lambda>pos.
       rmap (\<lambda>(branch, _). (branch, pos)) (create_merkle_branch_and_root B txids pos))))"

definition get_id_from_pos ::
  "bitcoin_lib \<Rightarrow> light_rpc \<Rightarrow> 'db chain_query \<Rightarrow> nat \<Rightarrow> nat \<Rightarrow> bool \<Rightarrow> (txid \<times> fullhash list) res" where
  "get_id_from_pos B L q height tx_pos want_merkle =
     rbind (hash_by_height q height) (\<lambda>v.
     rbind (ok_or (Msg ''missing block'') v) (\<lambda>header_hash.
     rbind (get_block_txids B L q header_hash) (\<lambda>v.
     rbind (ok_or (Msg ''missing block txids'') v) (\<lambda>txids.
     rbind (ok_or (Msg ''No tx in position in block'') (if tx_pos < length txids then Some (txids ! tx_pos) else None)) (\<lambda>txid.
       rmap (\<lambda>branch. (txid, branch))
         (if want_merkle then rmap fst (create_merkle_branch_and_root B txids tx_pos) else Inr []))))))"

section \<open>The tree and the paths to its root\<close>

text \<open>The root and the path of siblings by recursion on the levels, and the root a client computes.\<close>

function tree_root :: "bitcoin_lib \<Rightarrow> fullhash list \<Rightarrow> fullhash" where
  "tree_root B hashes = (if length hashes > 1 then tree_root B (level_up B hashes) else hd hashes)"
  by pat_completeness auto

termination by (relation "measure (length \<circ> snd)") (simp_all add: length_pad_even)

definition sibling_of :: "fullhash list \<Rightarrow> nat \<Rightarrow> fullhash" where
  "sibling_of hashes index = hashes ! min (sibling_index index) (length hashes - 1)"

function tree_path :: "bitcoin_lib \<Rightarrow> fullhash list \<Rightarrow> nat \<Rightarrow> fullhash list" where
  "tree_path B hashes index =
     (if length hashes > 1 then sibling_of hashes index # tree_path B (level_up B hashes) (index div 2) else [])"
  by pat_completeness auto

termination by (relation "measure (\<lambda>(_, hashes, _). length hashes)") (simp_all add: length_pad_even)

fun path_root :: "bitcoin_lib \<Rightarrow> fullhash \<Rightarrow> nat \<Rightarrow> fullhash list \<Rightarrow> fullhash" where
  "path_root B hash index [] = hash"
| "path_root B hash index (s # path) =
     path_root B (if index mod 2 = 0 then merklize B hash s else merklize B s hash) (index div 2) path"

declare tree_root.simps [simp del] tree_path.simps [simp del]

lemma nth_pad_even:
  assumes "i < length (pad_even hs)" and "hs \<noteq> []"
  shows "pad_even hs ! i = hs ! min i (length hs - 1)"
  using assms by (auto simp: pad_even_def nth_append last_conv_nth split: if_splits)

lemma nth_merge_pairs: "2 * i + 1 < length hs \<Longrightarrow> merge_pairs B hs ! i = merklize B (hs ! (2 * i)) (hs ! (2 * i + 1))"
proof (induction B hs arbitrary: i rule: merge_pairs.induct)
  case (1 B left right rest)
  then show ?case by (cases i) simp_all
qed simp_all

lemma sibling_index_pad:
  assumes "i < length hs"
  shows "sibling_index i < length (pad_even hs)" and "sibling_index i div 2 = i div 2"
  using assms unfolding length_pad_even sibling_index_def by auto presburger+

lemma pad_sibling:
  assumes "i < length hs"
  shows "pad_even hs ! sibling_index i = sibling_of hs i"
  using assms sibling_index_pad(1) [OF assms] by (subst nth_pad_even) (auto simp: sibling_of_def)

lemma level_up_parent:
  assumes "i < length hs"
  shows "level_up B hs ! (i div 2) = (if i mod 2 = 0 then merklize B (hs ! i) (sibling_of hs i) else merklize B (sibling_of hs i) (hs ! i))"
proof -
  have bound: "2 * (i div 2) + 1 < length (pad_even hs)" using assms unfolding length_pad_even by presburger
  have i: "pad_even hs ! i = hs ! i" using assms by (simp add: pad_even_def nth_append)
  show ?thesis
  proof (cases "i mod 2 = 0")
    case True
    then have "2 * (i div 2) = i" "sibling_index i = i + 1" by (auto simp: sibling_index_def)
    with True nth_merge_pairs [OF bound, of B] i pad_sibling [OF assms] show ?thesis by simp
  next
    case False
    then have "2 * (i div 2) = i - 1" "i - 1 + 1 = i" "sibling_index i = i - 1" unfolding sibling_index_def by presburger+
    with False nth_merge_pairs [OF bound, of B] i pad_sibling [OF assms] show ?thesis by simp
  qed
qed

lemma tree_single [simp]: "tree_path B [h] i = []" "tree_root B [h] = h" "build_levels B [h] = []" "merkle_loop B merkle [h] i = Inr (merkle, h)"
  by (simp_all add: tree_path.simps tree_root.simps build_levels.simps merkle_loop.simps at_def)

lemma half_bound: "i < n \<Longrightarrow> i div 2 < (n + 1) div (2 :: nat)"
  by presburger

lemma path_root_tree_path:
  "i < length hs \<Longrightarrow> path_root B (hs ! i) i (tree_path B hs i) = tree_root B hs"
proof (induction B hs i rule: tree_path.induct)
  case (1 B hs i)
  show ?case
  proof (cases "length hs > 1")
    case True
    have "i div 2 < length (level_up B hs)" using half_bound [OF 1(2)] by (simp only: length_level_up)
    with 1(1) [OF True] True level_up_parent [OF 1(2), of B] show ?thesis
      by (simp add: tree_path.simps [of B hs] tree_root.simps [of B hs])
  next
    case False
    with 1(2) show ?thesis by (cases hs) simp_all
  qed
qed

lemma merkle_loop_path:
  "i < length hs \<Longrightarrow> merkle_loop B merkle hs i = Inr (merkle @ tree_path B hs i, tree_root B hs)"
proof (induction B merkle hs i rule: merkle_loop.induct)
  case (1 B merkle hs i)
  show ?case
  proof (cases "length hs > 1")
    case True
    have "i div 2 < length (level_up B hs)" using half_bound [OF 1(2)] by (simp only: length_level_up)
    with 1(1) [OF True refl refl, of "sibling_of hs i"] True sibling_index_pad [OF 1(2)] pad_sibling [OF 1(2)] show ?thesis
      by (simp add: merkle_loop.simps [of B merkle hs] tree_path.simps [of B hs] tree_root.simps [of B hs] at_def Let_def)
  next
    case False
    with 1(2) show ?thesis by (cases hs) simp_all
  qed
qed

lemma build_levels_path:
  assumes "i < length hs"
  shows "level_siblings (butlast (hs # build_levels B hs)) i = Inr (tree_path B hs i)"
    and "last (hs # build_levels B hs) = [tree_root B hs]"
proof -
  have "level_siblings (butlast (hs # build_levels B hs)) i = Inr (tree_path B hs i) \<and> last (hs # build_levels B hs) = [tree_root B hs]"
    using assms
  proof (induction B hs i rule: tree_path.induct)
    case (1 B hs i)
    show ?case
    proof (cases "length hs > 1")
      case True
      have "i div 2 < length (level_up B hs)" using half_bound [OF 1(2)] by (simp only: length_level_up)
      with 1(1) [OF True] have IH: "level_siblings (butlast (level_up B hs # build_levels B (level_up B hs))) (i div 2) =
          Inr (tree_path B (level_up B hs) (i div 2))"
        "last (level_up B hs # build_levels B (level_up B hs)) = [tree_root B (level_up B hs)]" by blast+
      have b: "build_levels B hs = level_up B hs # build_levels B (level_up B hs)" using True by (simp add: build_levels.simps [of B hs])
      have "(if sibling_index i < length hs then at hs (sibling_index i)
            else if hs = [] then Inl (Panic ''index out of bounds'') else at hs (length hs - 1)) = Inr (sibling_of hs i)"
        using True by (auto simp: at_def sibling_of_def)
      then show ?thesis
        unfolding b using IH True by (simp add: tree_path.simps [of B hs] tree_root.simps [of B hs])
    next
      case False
      with 1(2) show ?thesis by (cases hs) simp_all
    qed
  qed
  then show "level_siblings (butlast (hs # build_levels B hs)) i = Inr (tree_path B hs i)"
    "last (hs # build_levels B hs) = [tree_root B hs]" by blast+
qed

lemma extract_path:
  assumes "i < length hs" and "1 < length hs"
  shows "extract_branch_and_root (build_levels B hs) (sibling_of hs i) i = Inr (tree_path B hs i, tree_root B hs)"
proof -
  have b: "build_levels B hs = level_up B hs # build_levels B (level_up B hs)" using assms(2) by (simp add: build_levels.simps [of B hs])
  have "i div 2 < length (level_up B hs)" using half_bound [OF assms(1)] by (simp only: length_level_up)
  from build_levels_path [OF this, of B] assms(2) show ?thesis
    unfolding b extract_branch_and_root_def by (simp add: tree_path.simps [of B hs] tree_root.simps [of B hs])
qed

lemma length_tree_path:
  assumes "hs \<noteq> []"
  shows "length hs \<le> 2 ^ length (tree_path B hs i)" and "tree_path B hs i = [] \<or> 2 ^ (length (tree_path B hs i) - 1) < length hs"
proof -
  have "length hs \<le> 2 ^ length (tree_path B hs i) \<and> (tree_path B hs i = [] \<or> 2 ^ (length (tree_path B hs i) - 1) < length hs)"
    using assms
  proof (induction B hs i rule: tree_path.induct)
    case (1 B hs i)
    let ?k = "length (tree_path B (level_up B hs) (i div 2))"
    show ?case
    proof (cases "length hs > 1")
      case True
      then have "0 < length (level_up B hs)" unfolding length_level_up by simp
      then have "level_up B hs \<noteq> []" by (rule length_greater_0_conv [THEN iffD1])
      note IH = 1(1) [OF True this, unfolded length_level_up]
      have "length hs \<le> 2 * 2 ^ ?k" using IH by linarith
      moreover have "2 ^ ?k < length hs"
      proof (cases ?k)
        case (Suc k)
        with IH have "2 ^ k < (length hs + 1) div 2" by auto
        with Suc show ?thesis by simp
      qed (use True in simp)
      ultimately show ?thesis using True by (simp add: tree_path.simps [of B hs])
    next
      case False
      with 1(2) show ?thesis by (cases hs) simp_all
    qed
  qed
  then show "length hs \<le> 2 ^ length (tree_path B hs i)" "tree_path B hs i = [] \<or> 2 ^ (length (tree_path B hs i) - 1) < length hs"
    by blast+
qed

text \<open>
  Claim C37. The proof of a leaf ends and is right: for every position of a non-empty list of hashes
  the function returns a branch of logarithmic length from which the client recomputes the root of
  the tree, and the branch and root read off the stored levels are the same ones.
\<close>

theorem merkle_branch_correct:
  assumes "index < length hashes"
  shows "\<exists>branch root. create_merkle_branch_and_root B hashes index = Inr (branch, root) \<and>
    path_root B (hashes ! index) index branch = root \<and> root = tree_root B hashes \<and>
    length hashes \<le> 2 ^ length branch \<and> (branch = [] \<or> 2 ^ (length branch - 1) < length hashes) \<and>
    (1 < length hashes \<longrightarrow>
      rbind (build_levels_above_leaves B hashes) (\<lambda>levels.
        extract_branch_and_root levels (hashes ! min (sibling_index index) (length hashes - 1)) index) = Inr (branch, root))"
proof -
  have ne: "hashes \<noteq> []" using assms by auto
  show ?thesis
    using merkle_loop_path [OF assms, of B "[]"] path_root_tree_path [OF assms, of B] length_tree_path [OF ne, of B index]
      extract_path [OF assms, of B] ne
    by (simp add: create_merkle_branch_and_root_def build_levels_above_leaves_def sibling_of_def)
qed

theorem merkle_branch_correct_witness:
  "create_merkle_branch_and_root example_lib [10, 20, 30] 2 =
     Inr ([30, merklize example_lib 10 20], merklize example_lib (merklize example_lib 10 20) (merklize example_lib 30 30))"
proof -
  have "(2 :: nat) < length [10, 20, 30 :: fullhash]" by simp
  from merkle_branch_correct [OF this, of example_lib] obtain branch root where
    c: "create_merkle_branch_and_root example_lib [10, 20, 30] 2 = Inr (branch, root)" and
    "root = tree_root example_lib [10, 20, 30]" by blast
  have p: "pad_even [10, 20, 30 :: fullhash] = [10, 20, 30, 30]" "pad_even [a, b] = [a, b]" for a b :: fullhash
    by (simp_all add: pad_even_def)
  have root: "root = merklize example_lib (merklize example_lib 10 20) (merklize example_lib 30 30)"
    unfolding \<open>root = _\<close> by (simp add: tree_root.simps [of _ "_ # _ # _"] p)
  have "tree_path example_lib [10, 20, 30] 2 = [30, merklize example_lib 10 20]"
    by (simp add: tree_path.simps [of _ "_ # _ # _"] p sibling_of_def sibling_index_def)
  then have "branch = [30, merklize example_lib 10 20]"
    using c merkle_loop_path [of 2 "[10, 20, 30]" example_lib "[]"] by (simp add: create_merkle_branch_and_root_def)
  with c root show ?thesis by simp
qed

end
