(* ===== verification/Checkpoint.thy ===== *)
theory Checkpoint
  imports Merkle
begin

text \<open>
  The cache of checkpoint merkle trees of \<^verbatim>\<open>src/util/electrum_merkle.rs\<close> and the requests that share
  it. Requests run in parallel: each is a thread with a program counter, one step of a thread is one
  critical section or atomic operation of the code, and the header list may be replaced between any
  two steps. A \<open>usize\<close> is a natural number with the wrap-around written out.
\<close>

section \<open>Cache state\<close>

definition MAX_CACHE_ENTRIES :: nat where
  "MAX_CACHE_ENTRIES = 256"

abbreviation usize :: "nat \<Rightarrow> nat" where
  "usize n \<equiv> n mod 2 ^ 64"

definition usize_sub :: "nat \<Rightarrow> nat \<Rightarrow> nat" where
  "usize_sub a b = usize (a + (2 ^ 64 - usize b))"

definition saturating_add :: "nat \<Rightarrow> nat \<Rightarrow> nat" where
  "saturating_add a b = min (a + b) (2 ^ 64 - 1)"

definition saturating_mul :: "nat \<Rightarrow> nat \<Rightarrow> nat" where
  "saturating_mul a b = min (a * b) (2 ^ 64 - 1)"

record cached_levels =
  cl_cp_hash :: blockhash
  cl_levels :: "fullhash list list"
  cl_size_bytes :: nat

definition cached_levels_new :: "blockhash \<Rightarrow> fullhash list list \<Rightarrow> cached_levels" where
  "cached_levels_new cp_hash levels =
     \<lparr>cl_cp_hash = cp_hash, cl_levels = levels, cl_size_bytes = usize (sum_list (map length levels) * 32)\<rparr>"

record retained_tree =
  rt_tree :: cached_levels
  rt_charge :: nat

record build_slot =
  bs_waiters :: nat
  bs_last_built :: "retained_tree option"
  bs_locked :: bool

text \<open>
  The reference-counted slots live in a heap, addressed by position; \<open>None\<close> is a slot whose last
  reference was dropped.
\<close>

record checkpoint_merkle_cache =
  mc_entries :: "(nat \<times> cached_levels) list"
  build_locks :: "nat \<rightharpoonup> nat"
  mc_slots :: "build_slot option list"
  inflight_rebuilds :: nat
  inflight_build_bytes :: nat
  capacity_bytes :: nat
  cache_capacity_bytes :: nat

definition with_cache_capacity :: "nat \<Rightarrow> nat \<Rightarrow> checkpoint_merkle_cache" where
  "with_cache_capacity capacity cache_capacity =
     \<lparr>mc_entries = [], build_locks = Map.empty, mc_slots = [], inflight_rebuilds = 0, inflight_build_bytes = 0,
      capacity_bytes = capacity, cache_capacity_bytes = min cache_capacity capacity\<rparr>"

definition checkpoint_cache_new :: "nat \<Rightarrow> checkpoint_merkle_cache" where
  "checkpoint_cache_new capacity = with_cache_capacity capacity (capacity div 2)"

section \<open>Permits\<close>

text \<open>The compare-and-exchange loops take effect in one atomic step.\<close>

definition rebuild_permit_acquire :: "nat \<Rightarrow> nat \<Rightarrow> nat res" where
  "rebuild_permit_acquire current limit =
     (if current \<ge> limit
      then Inl (Msg ''too many concurrent checkpoint merkle proof rebuilds, try again later'')
      else Inr (usize (current + 1)))"

definition memory_permit_acquire :: "nat \<Rightarrow> nat \<Rightarrow> nat \<Rightarrow> nat res" where
  "memory_permit_acquire current limit_bytes weight_bytes =
     (if current > 0 \<and> saturating_add current weight_bytes > limit_bytes
      then Inl (Msg ''checkpoint merkle proof rebuild would exceed the configured memory budget, try again later'')
      else Inr (usize (current + weight_bytes)))"

definition estimated_peak_build_bytes :: "nat \<Rightarrow> nat" where
  "estimated_peak_build_bytes cp_height = saturating_mul (saturating_mul (usize (cp_height + 1)) 32) 3"

section \<open>Entries\<close>

definition get_valid :: "checkpoint_merkle_cache \<Rightarrow> nat \<Rightarrow> blockhash \<Rightarrow> cached_levels option" where
  "get_valid c cp_height cp_hash =
     map_option snd (List.find (\<lambda>(h, cached). h = cp_height \<and> cl_cp_hash cached = cp_hash) (mc_entries c))"

abbreviation entry_bytes :: "(nat \<times> cached_levels) list \<Rightarrow> nat" where
  "entry_bytes entries \<equiv> sum_list (map (\<lambda>(_, cached). cl_size_bytes cached) entries)"

text \<open>The loop that counts how many of the candidates have to go; \<open>None\<close> is the early return.\<close>

fun evictions_needed ::
  "nat \<Rightarrow> nat \<Rightarrow> (nat \<times> cached_levels) list \<Rightarrow> nat list \<Rightarrow> nat \<Rightarrow> nat \<Rightarrow> nat option" where
  "evictions_needed capacity new_bytes entries positions total_bytes remaining =
     (if usize (total_bytes + new_bytes) > capacity \<or> remaining \<ge> MAX_CACHE_ENTRIES then
        (case positions of
           [] \<Rightarrow> None
         | pos # rest \<Rightarrow> map_option Suc
             (evictions_needed capacity new_bytes entries rest
               (usize_sub total_bytes (cl_size_bytes (snd (entries ! pos)))) (usize_sub remaining 1)))
      else Some 0)"

declare evictions_needed.simps [simp del]

definition remove_at :: "nat \<Rightarrow> 'a list \<Rightarrow> 'a list" where
  "remove_at pos xs = take pos xs @ drop (Suc pos) xs"

text \<open>The heights of the entries differ, so the unstable sort has one result.\<close>

definition cache_insert :: "checkpoint_merkle_cache \<Rightarrow> nat \<Rightarrow> nat \<Rightarrow> cached_levels \<Rightarrow> checkpoint_merkle_cache" where
  "cache_insert c cp_height best cached =
     (if cl_size_bytes cached > cache_capacity_bytes c then c
      else
        let entries = filter (\<lambda>(h, _). h \<noteq> cp_height \<and> h \<le> best) (mc_entries c) in
        if cp_height > best then c\<lparr>mc_entries := entries\<rparr>
        else
          let eviction_positions =
                sort_key (\<lambda>pos. fst (entries ! pos)) (filter (\<lambda>pos. fst (entries ! pos) < cp_height) [0..<length entries])
          in (case evictions_needed (cache_capacity_bytes c) (cl_size_bytes cached) entries eviction_positions
                (usize (entry_bytes entries)) (length entries) of
                None \<Rightarrow> c\<lparr>mc_entries := entries\<rparr>
              | Some n \<Rightarrow>
                  let selected_positions = rev (sort (take n eviction_positions))
                  in c\<lparr>mc_entries := fold remove_at selected_positions entries @ [(cp_height, cached)]\<rparr>))"

section \<open>Build slots\<close>

definition build_lock_for :: "checkpoint_merkle_cache \<Rightarrow> nat \<Rightarrow> nat \<times> checkpoint_merkle_cache" where
  "build_lock_for c cp_height =
     (let (a, c) = (case build_locks c cp_height of
              Some a \<Rightarrow> (a, c)
            | None \<Rightarrow> (length (mc_slots c),
                c\<lparr>mc_slots := mc_slots c @ [Some \<lparr>bs_waiters = 0, bs_last_built = None, bs_locked = False\<rparr>],
                  build_locks := (build_locks c)(cp_height \<mapsto> length (mc_slots c))\<rparr>))
      in (a, c\<lparr>mc_slots := (mc_slots c)[a := map_option (bs_waiters_update Suc) (mc_slots c ! a)]\<rparr>))"

definition charge_of :: "build_slot option \<Rightarrow> nat" where
  "charge_of s = (case s of Some b \<Rightarrow> (case bs_last_built b of Some r \<Rightarrow> rt_charge r | None \<Rightarrow> 0) | None \<Rightarrow> 0)"

text \<open>
  Dropping a guard: the last waiter takes the slot out of the map, which refers to it under the
  guard's height only; the slot and the tree it retains go with this last reference. The waiters are live guards in memory, so their counter does
  not wrap.
\<close>

definition guard_drop :: "checkpoint_merkle_cache \<Rightarrow> nat \<Rightarrow> nat \<Rightarrow> checkpoint_merkle_cache" where
  "guard_drop c cp_height a =
     (case mc_slots c ! a of
        None \<Rightarrow> c
      | Some b \<Rightarrow>
          if bs_waiters b = 1
          then c\<lparr>build_locks := (if build_locks c cp_height = Some a then (build_locks c)(cp_height := None) else build_locks c),
                 mc_slots := (mc_slots c)[a := None],
                 inflight_build_bytes := usize_sub (inflight_build_bytes c) (charge_of (Some b))\<rparr>
          else c\<lparr>mc_slots := (mc_slots c)[a := Some (b\<lparr>bs_waiters := bs_waiters b - 1\<rparr>)]\<rparr>)"

definition set_locked :: "bool \<Rightarrow> checkpoint_merkle_cache \<Rightarrow> nat \<Rightarrow> checkpoint_merkle_cache" where
  "set_locked v c a = c\<lparr>mc_slots := (mc_slots c)[a := map_option (bs_locked_update (\<lambda>_. v)) (mc_slots c ! a)]\<rparr>"

definition memory_charge :: "checkpoint_merkle_cache \<Rightarrow> nat \<Rightarrow> checkpoint_merkle_cache" where
  "memory_charge c bytes = c\<lparr>inflight_build_bytes := usize (inflight_build_bytes c + bytes)\<rparr>"

text \<open>Assigning \<open>last_built\<close> drops the tree retained before.\<close>

definition retain_tree :: "checkpoint_merkle_cache \<Rightarrow> nat \<Rightarrow> cached_levels \<Rightarrow> checkpoint_merkle_cache" where
  "retain_tree c a cached =
     c\<lparr>mc_slots := (mc_slots c)[a := map_option
           (bs_last_built_update (\<lambda>_. Some \<lparr>rt_tree = cached, rt_charge = cl_size_bytes cached\<rparr>)) (mc_slots c ! a)],
       inflight_build_bytes := usize_sub (inflight_build_bytes c) (charge_of (mc_slots c ! a))\<rparr>"

section \<open>Reading the header list\<close>

definition checkpoint_sibling_height :: "nat \<Rightarrow> nat \<Rightarrow> nat" where
  "checkpoint_sibling_height height cp_height = min (sibling_index height) cp_height"

definition hash_at :: "header_list \<Rightarrow> nat \<Rightarrow> blockhash res" where
  "hash_at hl n = rbind (header_by_height hl n) (\<lambda>e. rmap he_hash (ok_or (Msg ''missing block header at height'') e))"

definition check_request :: "header_list \<Rightarrow> nat \<Rightarrow> nat \<Rightarrow> unit res" where
  "check_request hl height cp_height =
     (if cp_height < height then Inl (Msg ''cp_height < height'')
      else rbind (best_height hl) (\<lambda>best. ensure (cp_height \<le> best) (Msg ''cp_height above best block height'')))"

definition snapshot_cp_hash_and_sibling :: "header_list \<Rightarrow> nat \<Rightarrow> nat \<Rightarrow> (blockhash \<times> fullhash) res" where
  "snapshot_cp_hash_and_sibling hl height cp_height =
     rbind (hash_at hl cp_height) (\<lambda>cp_hash.
       rmap (\<lambda>sibling. (cp_hash, sibling)) (hash_at hl (checkpoint_sibling_height height cp_height)))"

definition checkpoint_build ::
  "bitcoin_lib \<Rightarrow> header_list \<Rightarrow> nat \<Rightarrow> nat \<Rightarrow> (blockhash \<times> fullhash list list \<times> fullhash) res" where
  "checkpoint_build B hl height cp_height =
     rbind (hash_at hl cp_height) (\<lambda>cp_hash.
     rbind (collect (map (header_by_height hl) [0..<Suc cp_height])) (\<lambda>es.
     rbind (ok_or (Msg ''missing block headers'') (those (map (map_option he_hash) es))) (\<lambda>leaves.
     rbind (at leaves (checkpoint_sibling_height height cp_height)) (\<lambda>sibling.
       rmap (\<lambda>levels. (cp_hash, levels, sibling)) (build_levels_above_leaves B leaves)))))"

section \<open>One request\<close>

datatype resource = Mem nat | Permit | SlotLock nat | Guard nat

type_synonym tree_result = "(cached_levels \<times> fullhash) res"
type_synonym proof_result = "(fullhash list \<times> fullhash \<times> blockhash) res"

text \<open>
  The points a request can be at. \<open>Unwinding\<close> drops what the request holds, in the order the code
  drops its locals.
\<close>

datatype pc =
  Start
| Checked
| Looking blockhash fullhash
| Missed blockhash fullhash
| Queued blockhash fullhash nat
| Entered blockhash fullhash nat
| Ready nat
| Admitted nat
| Building nat nat
| Built nat nat cached_levels fullhash
| Inserting nat nat cached_levels fullhash nat
| Inserted nat nat cached_levels fullhash
| Charged nat nat cached_levels fullhash
| Unwinding "resource list" tree_result
| Finished proof_result

definition release :: "checkpoint_merkle_cache \<Rightarrow> nat \<Rightarrow> resource \<Rightarrow> checkpoint_merkle_cache" where
  "release c cp_height r = (case r of
       Mem bytes \<Rightarrow> c\<lparr>inflight_build_bytes := usize_sub (inflight_build_bytes c) bytes\<rparr>
     | Permit \<Rightarrow> c\<lparr>inflight_rebuilds := usize_sub (inflight_rebuilds c) 1\<rparr>
     | SlotLock a \<Rightarrow> set_locked False c a
     | Guard a \<Rightarrow> guard_drop c cp_height a)"

definition proof_of_tree :: "nat \<Rightarrow> tree_result \<Rightarrow> proof_result" where
  "proof_of_tree height r =
     rbind r (\<lambda>(cached, sibling).
       rmap (\<lambda>(branch, root). (branch, root, cl_cp_hash cached)) (extract_branch_and_root (cl_levels cached) sibling height))"

definition genesis_proof :: "header_list \<Rightarrow> proof_result" where
  "genesis_proof hl = rmap (\<lambda>cp_hash. ([], cp_hash, cp_hash)) (hash_at hl 0)"

text \<open>The check under the slot's lock: the cache once more, then the tree the slot retains.\<close>

definition enter_slot :: "checkpoint_merkle_cache \<Rightarrow> nat \<Rightarrow> blockhash \<Rightarrow> nat \<Rightarrow> cached_levels option" where
  "enter_slot c cp_height cp_hash a =
     (case get_valid c cp_height cp_hash of
        Some cached \<Rightarrow> Some cached
      | None \<Rightarrow>
          (case mc_slots c ! a of
             None \<Rightarrow> None
           | Some b \<Rightarrow>
               (case bs_last_built b of
                  None \<Rightarrow> None
                | Some r \<Rightarrow> if cl_cp_hash (rt_tree r) = cp_hash then Some (rt_tree r) else None)))"

fun thread_step ::
  "bitcoin_lib \<Rightarrow> nat \<Rightarrow> header_list \<Rightarrow> nat \<Rightarrow> nat \<Rightarrow> pc \<Rightarrow> checkpoint_merkle_cache \<Rightarrow>
     (pc \<times> checkpoint_merkle_cache) option" where
  "thread_step B limit hl height cp_height Start c =
     Some (case check_request hl height cp_height of Inl e \<Rightarrow> Finished (Inl e) | Inr _ \<Rightarrow> Checked, c)"
| "thread_step B limit hl height cp_height Checked c =
     Some (if cp_height = 0 then Finished (genesis_proof hl)
       else (case snapshot_cp_hash_and_sibling hl height cp_height of
               Inl e \<Rightarrow> Finished (Inl e)
             | Inr (cp_hash, sibling) \<Rightarrow> Looking cp_hash sibling), c)"
| "thread_step B limit hl height cp_height (Looking cp_hash sibling) c =
     Some (case get_valid c cp_height cp_hash of
         Some cached \<Rightarrow> Unwinding [] (Inr (cached, sibling))
       | None \<Rightarrow> Missed cp_hash sibling, c)"
| "thread_step B limit hl height cp_height (Missed cp_hash sibling) c =
     (case build_lock_for c cp_height of (a, c) \<Rightarrow> Some (Queued cp_hash sibling a, c))"
| "thread_step B limit hl height cp_height (Queued cp_hash sibling a) c =
     (case mc_slots c ! a of
        Some b \<Rightarrow> if bs_locked b then None else Some (Entered cp_hash sibling a, set_locked True c a)
      | None \<Rightarrow> None)"
| "thread_step B limit hl height cp_height (Entered cp_hash sibling a) c =
     Some (case enter_slot c cp_height cp_hash a of
         Some cached \<Rightarrow> Unwinding [SlotLock a, Guard a] (Inr (cached, sibling))
       | None \<Rightarrow> Ready a, c)"
| "thread_step B limit hl height cp_height (Ready a) c =
     Some (case rebuild_permit_acquire (inflight_rebuilds c) limit of
         Inl e \<Rightarrow> (Unwinding [SlotLock a, Guard a] (Inl e), c)
       | Inr n \<Rightarrow> (Admitted a, c\<lparr>inflight_rebuilds := n\<rparr>))"
| "thread_step B limit hl height cp_height (Admitted a) c =
     Some (case memory_permit_acquire (inflight_build_bytes c) (capacity_bytes c - usize (entry_bytes (mc_entries c)))
           (estimated_peak_build_bytes cp_height) of
         Inl e \<Rightarrow> (Unwinding [Permit, SlotLock a, Guard a] (Inl e), c)
       | Inr n \<Rightarrow> (Building a (estimated_peak_build_bytes cp_height), c\<lparr>inflight_build_bytes := n\<rparr>))"
| "thread_step B limit hl height cp_height (Building a w) c =
     Some (case checkpoint_build B hl height cp_height of
         Inl e \<Rightarrow> Unwinding [Mem w, Permit, SlotLock a, Guard a] (Inl e)
       | Inr (cp_hash, levels, sibling) \<Rightarrow> Built a w (cached_levels_new cp_hash levels) sibling, c)"
| "thread_step B limit hl height cp_height (Built a w cached sibling) c =
     Some (case best_height hl of
         Inl e \<Rightarrow> Unwinding [Mem w, Permit, SlotLock a, Guard a] (Inl e)
       | Inr best \<Rightarrow> Inserting a w cached sibling best, c)"
| "thread_step B limit hl height cp_height (Inserting a w cached sibling best) c =
     Some (Inserted a w cached sibling, cache_insert c cp_height best cached)"
| "thread_step B limit hl height cp_height (Inserted a w cached sibling) c =
     Some (Charged a w cached sibling, memory_charge c (cl_size_bytes cached))"
| "thread_step B limit hl height cp_height (Charged a w cached sibling) c =
     Some (Unwinding [Mem w, Permit, SlotLock a, Guard a] (Inr (cached, sibling)), retain_tree c a cached)"
| "thread_step B limit hl height cp_height (Unwinding [] r) c = Some (Finished (proof_of_tree height r), c)"
| "thread_step B limit hl height cp_height (Unwinding (res # held) r) c = Some (Unwinding held r, release c cp_height res)"
| "thread_step B limit hl height cp_height (Finished r) c = None"

section \<open>Requests in parallel\<close>

record thread =
  th_height :: nat
  th_cp_height :: nat
  th_pc :: pc

record proof_server =
  sv_cache :: checkpoint_merkle_cache
  sv_headers :: header_list
  sv_threads :: "thread list"

text \<open>\<open>HL\<close> are the header lists the indexer installs.\<close>

inductive server_step :: "bitcoin_lib \<Rightarrow> nat \<Rightarrow> header_list set \<Rightarrow> proof_server \<Rightarrow> proof_server \<Rightarrow> bool"
  for B limit HL where
  publish: "hl \<in> HL \<Longrightarrow> server_step B limit HL s (s\<lparr>sv_headers := hl\<rparr>)"
| request: "server_step B limit HL s
    (s\<lparr>sv_threads := sv_threads s @ [\<lparr>th_height = height, th_cp_height = cp_height, th_pc = Start\<rparr>]\<rparr>)"
| run: "i < length (sv_threads s) \<Longrightarrow> t = sv_threads s ! i \<Longrightarrow>
    thread_step B limit (sv_headers s) (th_height t) (th_cp_height t) (th_pc t) (sv_cache s) = Some (pc', c') \<Longrightarrow>
    server_step B limit HL s (s\<lparr>sv_cache := c', sv_threads := (sv_threads s)[i := t\<lparr>th_pc := pc'\<rparr>]\<rparr>)"

definition server_init :: "nat \<Rightarrow> header_list \<Rightarrow> proof_server" where
  "server_init capacity hl = \<lparr>sv_cache = checkpoint_cache_new capacity, sv_headers = hl, sv_threads = []\<rparr>"

definition proof_reachable :: "bitcoin_lib \<Rightarrow> nat \<Rightarrow> nat \<Rightarrow> header_list set \<Rightarrow> proof_server \<Rightarrow> bool" where
  "proof_reachable B limit capacity HL s \<longleftrightarrow> (\<exists>hl \<in> HL. (server_step B limit HL)\<^sup>*\<^sup>* (server_init capacity hl) s)"

end
