(* ===== verification/Evict.thy ===== *)
theory Evict
  imports Checkpoint
begin

text \<open>
  The entries of the checkpoint cache: what an insertion keeps, and that the cache never exceeds its
  budget.
\<close>

section \<open>Removing positions\<close>

lemma nths_split:
  assumes "p < length xs"
  shows "nths xs A = nths (take p xs) A @ (if p \<in> A then [xs ! p] else []) @ nths (drop (Suc p) xs) {j. j + Suc p \<in> A}"
proof -
  have "nths xs A = nths (take p xs @ xs ! p # drop (Suc p) xs) A" using id_take_nth_drop [OF assms] by simp
  then show ?thesis using assms by (simp add: nths_append nths_Cons)
qed

lemma nths_cong_bound:
  assumes "\<And>i. i < length xs \<Longrightarrow> i \<in> A \<longleftrightarrow> i \<in> B"
  shows "nths xs A = nths xs B"
proof -
  have "filter (\<lambda>p. snd p \<in> A) (zip xs [0..<length xs]) = filter (\<lambda>p. snd p \<in> B) (zip xs [0..<length xs])"
    using assms by (intro filter_cong) (auto dest: set_zip_rightD)
  then show ?thesis by (simp only: nths_def)
qed

lemma remove_at_nths:
  assumes "p < length xs" and "\<forall>q \<in> S. q < p"
  shows "nths (remove_at p xs) (- S) = nths xs (- insert p S)"
proof -
  have "nths (drop (Suc p) xs) A = drop (Suc p) xs" if "\<And>i. i \<in> A" for A :: "nat set"
    using that nths_cong_bound [of "drop (Suc p) xs" A UNIV] by (simp add: nths_all)
  then have "nths (drop (Suc p) xs) {j. j + p \<in> - S} = nths (drop (Suc p) xs) {j. j + Suc p \<in> - insert p S}"
    using assms(2) by (subst nths_cong_bound [where B = "{j. j + Suc p \<in> - insert p S}"]) force+
  moreover have "nths (take p xs) (- S) = nths (take p xs) (- insert p S)"
    using assms(1) by (intro nths_cong_bound) auto
  ultimately show ?thesis using assms(1) by (simp add: remove_at_def nths_append nths_split [OF assms(1), of "- insert p S"] min_def)
qed

lemma fold_remove_at:
  assumes "sorted_wrt (>) ps" and "\<forall>p \<in> set ps. p < length xs"
  shows "fold remove_at ps xs = nths xs (- set ps)"
  using assms
proof (induction ps arbitrary: xs)
  case (Cons p ps)
  have p: "p < length xs" "\<forall>q \<in> set ps. q < p" using Cons.prems by auto
  then have "\<forall>q \<in> set ps. q < length (remove_at p xs)" by (auto simp: remove_at_def)
  with Cons p have "fold remove_at ps (remove_at p xs) = nths (remove_at p xs) (- set ps)" by simp
  with remove_at_nths [OF p] show ?case by simp
qed (simp add: nths_all)

lemma nths_Compl_sum:
  fixes f :: "'a \<Rightarrow> nat"
  assumes "S \<subseteq> {..<length xs}"
  shows "sum_list (map f (nths xs (- S))) + (\<Sum>i \<in> S. f (xs ! i)) = sum_list (map f xs)"
proof -
  have part: "sum_list (map f (nths xs A)) = (\<Sum>i | i < length xs \<and> i \<in> A. f (xs ! i))" for A
  proof (induction xs rule: rev_induct)
    case (snoc x xs)
    have "{i. i < length (xs @ [x]) \<and> i \<in> A} = {i. i < length xs \<and> i \<in> A} \<union> (if length xs \<in> A then {length xs} else {})"
      by (auto simp: less_Suc_eq)
    moreover have "(\<Sum>i | i < length xs \<and> i \<in> A. f ((xs @ [x]) ! i)) = (\<Sum>i | i < length xs \<and> i \<in> A. f (xs ! i))"
      by (intro sum.cong) (auto simp: nth_append)
    ultimately show ?case using snoc by (simp add: nths_append nths_singleton)
  qed simp
  have S: "{i. i < length xs \<and> i \<in> S} = S" using assms by auto
  have "{i. i < length xs \<and> i \<in> UNIV} = {i. i < length xs \<and> i \<in> - S} \<union> S" using assms by auto
  moreover have "{i. i < length xs \<and> i \<in> - S} \<inter> S = {}" "finite {i. i < length xs \<and> i \<in> - S}" by auto
  ultimately have "(\<Sum>i | i < length xs \<and> i \<in> UNIV. f (xs ! i)) = (\<Sum>i | i < length xs \<and> i \<in> - S. f (xs ! i)) + (\<Sum>i \<in> S. f (xs ! i))"
    using finite_subset [OF assms] by (simp only: sum.union_disjoint finite_lessThan)
  then show ?thesis using part [of "- S"] part [of UNIV] by (simp add: nths_all)
qed

section \<open>Counting evictions\<close>

lemma usize_sub_add: "usize_sub (usize (x + y)) y = usize x"
proof -
  define M :: nat where "M = 2 ^ 64"
  have M: "0 < M" by (simp add: M_def)
  have "x + y + (M - y mod M) = x + M + (y div M) * M"
    using div_mult_mod_eq [of y M] mod_less_divisor [OF M, of y] by linarith
  then have "((x + y) mod M + (M - y mod M)) mod M = (x + M + (y div M) * M) mod M"
    by (metis mod_add_left_eq)
  also have "\<dots> = x mod M" by simp
  finally show ?thesis unfolding usize_sub_def M_def .
qed

lemma usize_sub_le:
  assumes "b \<le> a" and "a < 2 ^ 64"
  shows "usize_sub a b = a - b"
  using usize_sub_add [of "a - b" b] assms by simp

definition in_budget :: "nat \<Rightarrow> (nat \<times> cached_levels) list \<Rightarrow> bool" where
  "in_budget capacity entries \<longleftrightarrow>
     entry_bytes entries \<le> capacity \<and> length entries \<le> MAX_CACHE_ENTRIES \<and> distinct (map fst entries)"

lemma evictions_needed_spec:
  assumes "evictions_needed capacity size' entries positions tot remaining = Some n"
    and "tot + size' < 2 ^ 64" and "sum_list (map (\<lambda>p. cl_size_bytes (snd (entries ! p))) positions) \<le> tot"
    and "length positions \<le> remaining" and "remaining < 2 ^ 64"
  shows "n \<le> length positions \<and>
    tot - sum_list (map (\<lambda>p. cl_size_bytes (snd (entries ! p))) (take n positions)) + size' \<le> capacity \<and>
    remaining - n < MAX_CACHE_ENTRIES"
  using assms
proof (induction positions arbitrary: tot remaining n)
  case Nil
  then show ?case by (simp add: evictions_needed.simps split: if_splits)
next
  case (Cons p ps)
  let ?b = "cl_size_bytes (snd (entries ! p))"
  show ?case
  proof (cases "usize (tot + size') > capacity \<or> remaining \<ge> MAX_CACHE_ENTRIES")
    case True
    have sub: "usize_sub tot ?b = tot - ?b" "usize_sub remaining (Suc 0) = remaining - Suc 0"
      using Cons.prems(2-5) by (simp_all add: usize_sub_le)
    from Cons.prems(1) True obtain k where k: "n = Suc k" "evictions_needed capacity size' entries ps (tot - ?b) (remaining - 1) = Some k"
      by (auto simp: sub evictions_needed.simps [of _ _ _ "p # ps"])
    from Cons.IH [OF k(2)] Cons.prems(2-5) k(1) show ?thesis by auto
  next
    case False
    with Cons.prems have "n = 0" by (simp add: evictions_needed.simps [of _ _ _ "p # ps"])
    with False Cons.prems(2) show ?thesis by simp
  qed
qed

lemma filter_budget: "in_budget cap es \<Longrightarrow> in_budget cap (filter P es)"
proof -
  assume b: "in_budget cap es"
  have "entry_bytes (filter P es) \<le> entry_bytes es" by (induction es) auto
  with b show ?thesis
    using length_filter_le [of P es, THEN order_trans] distinct_map_filter [of fst es P] by (auto simp: in_budget_def)
qed

lemma positions_bytes:
  assumes "distinct xs" and "set xs \<subseteq> {..<length es}"
  shows "sum_list (map (\<lambda>p. cl_size_bytes (snd (es ! p))) xs) + entry_bytes (nths es (- set xs)) = entry_bytes es"
    and "length (nths es (- set xs)) + length xs = length es"
proof -
  show "sum_list (map (\<lambda>p. cl_size_bytes (snd (es ! p))) xs) + entry_bytes (nths es (- set xs)) = entry_bytes es"
    using nths_Compl_sum [OF assms(2), of "\<lambda>(_, c). cl_size_bytes c"] assms(1)
    by (simp add: sum_list_distinct_conv_sum_set split_beta add.commute)
  show "length (nths es (- set xs)) + length xs = length es"
    using nths_Compl_sum [OF assms(2), of "\<lambda>_. 1"] assms(1) by (simp add: sum_list_triv distinct_card)
qed

lemma insert_budget:
  assumes "in_budget cap es" and "cap < 2 ^ 63" and "cl_size_bytes t \<le> cap" and "cp \<notin> fst ` set es"
    and "distinct ps" and "set ps \<subseteq> {..<length es}"
    and "evictions_needed cap (cl_size_bytes t) es ps (usize (entry_bytes es)) (length es) = Some n"
  shows "in_budget cap (fold remove_at (rev (sort (take n ps))) es @ [(cp, t)])"
    and "set (fold remove_at (rev (sort (take n ps))) es @ [(cp, t)]) \<subseteq> set es \<union> {(cp, t)}"
proof -
  let ?S = "set (take n ps)"
  have b: "entry_bytes es \<le> cap" "distinct (map fst es)" using assms(1) by (simp_all add: in_budget_def)
  have wrap: "usize (entry_bytes es) = entry_bytes es" using b(1) assms(2) by simp
  have d: "distinct (take n ps)" "?S \<subseteq> {..<length es}" using assms(5,6) set_take_subset [of n ps] by auto
  have small: "entry_bytes es + cl_size_bytes t < 2 ^ 64" using b(1) assms(2,3) by simp
  have le: "sum_list (map (\<lambda>p. cl_size_bytes (snd (es ! p))) ps) \<le> entry_bytes es" "length ps \<le> length es"
    using positions_bytes [OF assms(5,6)] by linarith+
  have ev: "n \<le> length ps"
    "entry_bytes es - sum_list (map (\<lambda>p. cl_size_bytes (snd (es ! p))) (take n ps)) + cl_size_bytes t \<le> cap"
    "length es - n < MAX_CACHE_ENTRIES"
    using evictions_needed_spec [OF assms(7), unfolded wrap, OF small le] assms(1) by (auto simp: in_budget_def MAX_CACHE_ENTRIES_def)
  have "sorted_wrt (>) (rev (sort (take n ps)))"
    using d(1) by (simp add: sorted_wrt_rev strict_sorted_iff)
  then have fold: "fold remove_at (rev (sort (take n ps))) es = nths es (- ?S)"
    using d(2) by (subst fold_remove_at) auto
  note p = positions_bytes [OF d]
  have "entry_bytes (nths es (- ?S)) + cl_size_bytes t \<le> cap" using p(1) ev(2) by linarith
  moreover have "length (nths es (- ?S)) < MAX_CACHE_ENTRIES" using p(2) ev(1,3) by simp
  moreover have sub: "set (nths es (- ?S)) \<subseteq> set es" by (rule set_nths_subset)
  moreover have "distinct (map fst (nths es (- ?S)))" using b(2) by (simp add: nths_map [symmetric] distinct_nthsI)
  ultimately show "in_budget cap (fold remove_at (rev (sort (take n ps))) es @ [(cp, t)])"
    using assms(4) unfolding fold by (auto simp: in_budget_def)
  show "set (fold remove_at (rev (sort (take n ps))) es @ [(cp, t)]) \<subseteq> set es \<union> {(cp, t)}" unfolding fold using sub by auto
qed

lemma cache_insert_entries:
  assumes "in_budget (cache_capacity_bytes c) (mc_entries c)" and "cache_capacity_bytes c < 2 ^ 63"
  shows "in_budget (cache_capacity_bytes c) (mc_entries (cache_insert c cp best t))"
    and "set (mc_entries (cache_insert c cp best t)) \<subseteq> set (mc_entries c) \<union> {(cp, t)}"
    and "cache_insert c cp best t = c\<lparr>mc_entries := mc_entries (cache_insert c cp best t)\<rparr>"
proof -
  let ?cap = "cache_capacity_bytes c"
  let ?es = "filter (\<lambda>(h, _). h \<noteq> cp \<and> h \<le> best) (mc_entries c)"
  let ?ps = "sort_key (\<lambda>pos. fst (?es ! pos)) (filter (\<lambda>pos. fst (?es ! pos) < cp) [0..<length ?es])"
  let ?out = "\<lambda>es'. in_budget ?cap es' \<and> set es' \<subseteq> set (mc_entries c) \<union> {(cp, t)}"
  have es: "in_budget ?cap ?es" by (rule filter_budget [OF assms(1)])
  have kept: "?out (mc_entries c)" "?out ?es" using assms(1) es by auto
  have insert: "?out (fold remove_at (rev (sort (take n ?ps))) ?es @ [(cp, t)])"
    if n: "evictions_needed ?cap (cl_size_bytes t) ?es ?ps (usize (entry_bytes ?es)) (length ?es) = Some n"
      and small: "cl_size_bytes t \<le> ?cap" for n
  proof -
    have new: "cp \<notin> fst ` set ?es" by auto
    have ps: "distinct ?ps" "set ?ps \<subseteq> {..<length ?es}" by simp_all auto
    have "set ?es \<subseteq> set (mc_entries c)" by auto
    with insert_budget [OF es assms(2) small new ps n] show ?thesis by blast
  qed
  have "\<exists>es'. cache_insert c cp best t = c\<lparr>mc_entries := es'\<rparr> \<and> ?out es'"
  proof (cases "cl_size_bytes t > ?cap \<or> cp > best")
    case True
    then have "cache_insert c cp best t = c\<lparr>mc_entries := if cl_size_bytes t > ?cap then mc_entries c else ?es\<rparr>"
      by (cases "cl_size_bytes t > ?cap") (simp_all add: cache_insert_def Let_def)
    then show ?thesis
      using kept by (intro exI [of _ "if cl_size_bytes t > ?cap then mc_entries c else ?es"]) (simp split: if_split)
  next
    case False
    then have "cache_insert c cp best t =
        (case evictions_needed ?cap (cl_size_bytes t) ?es ?ps (usize (entry_bytes ?es)) (length ?es) of
           None \<Rightarrow> c\<lparr>mc_entries := ?es\<rparr>
         | Some n \<Rightarrow> c\<lparr>mc_entries := fold remove_at (rev (sort (take n ?ps))) ?es @ [(cp, t)]\<rparr>)"
      by (simp only: cache_insert_def Let_def if_False de_Morgan_disj)
    with kept(2) insert False show ?thesis
      by (cases "evictions_needed ?cap (cl_size_bytes t) ?es ?ps (usize (entry_bytes ?es)) (length ?es)") (simp_all only: option.case not_less de_Morgan_disj, blast+)
  qed
  then obtain es' where es': "cache_insert c cp best t = c\<lparr>mc_entries := es'\<rparr>" "?out es'" by blast
  then show "in_budget ?cap (mc_entries (cache_insert c cp best t))"
    "set (mc_entries (cache_insert c cp best t)) \<subseteq> set (mc_entries c) \<union> {(cp, t)}"
    "cache_insert c cp best t = c\<lparr>mc_entries := mc_entries (cache_insert c cp best t)\<rparr>" by simp_all
qed

end
