(* ===== verification/Concurrent.thy ===== *)
theory Concurrent
  imports Evict "HOL-Library.Multiset"
begin

text \<open>
  Requests for checkpoint proofs in parallel: the permits, memory charges and build slots they hold
  are accounted for at every point, one request at a time builds the tree of a height, and a server
  without requests holds nothing.
\<close>

section \<open>What a request holds\<close>

fun holds :: "pc \<Rightarrow> resource list" where
  "holds (Queued h s a) = [Guard a]"
| "holds (Entered h s a) = [SlotLock a, Guard a]"
| "holds (Ready a) = [SlotLock a, Guard a]"
| "holds (Admitted a) = [Permit, SlotLock a, Guard a]"
| "holds (Building a w) = [Mem w, Permit, SlotLock a, Guard a]"
| "holds (Built a w t s) = [Mem w, Permit, SlotLock a, Guard a]"
| "holds (Inserting a w t s b) = [Mem w, Permit, SlotLock a, Guard a]"
| "holds (Inserted a w t s) = [Mem w, Permit, SlotLock a, Guard a]"
| "holds (Charged a w t s) = [Mem (cl_size_bytes t), Mem w, Permit, SlotLock a, Guard a]"
| "holds (Unwinding rs r) = rs"
| "holds _ = []"

definition held :: "thread list \<Rightarrow> resource multiset" where
  "held ts = mset (concat (map (holds \<circ> th_pc) ts))"

definition others :: "thread list \<Rightarrow> nat \<Rightarrow> resource multiset" where
  "others ts i = held (take i ts) + held (drop (Suc i) ts)"

lemma held_simps [simp]: "held [] = {#}" "held (t # ts) = mset (holds (th_pc t)) + held ts" "held (xs @ ys) = held xs + held ys"
  by (simp_all add: held_def)

lemma held_split:
  assumes "i < length ts"
  shows "held ts = others ts i + mset (holds (th_pc (ts ! i)))"
    and "held (ts[i := t]) = others ts i + mset (holds (th_pc t))"
proof -
  have "held ts = held (take i ts @ ts ! i # drop (Suc i) ts)" using id_take_nth_drop [OF assms] by simp
  then show "held ts = others ts i + mset (holds (th_pc (ts ! i)))" by (simp add: others_def)
  show "held (ts[i := t]) = others ts i + mset (holds (th_pc t))" using assms by (simp add: others_def upd_conv_take_nth_drop)
qed

text \<open>The resources are taken in one order, all for the slot of the request's height.\<close>

definition stack :: "nat \<Rightarrow> resource list \<Rightarrow> bool" where
  "stack a rs \<longleftrightarrow> rs = [Guard a] \<or> rs = [SlotLock a, Guard a] \<or> rs = [Permit, SlotLock a, Guard a] \<or>
     (\<exists>w. rs = [Mem w, Permit, SlotLock a, Guard a]) \<or> (\<exists>v w. rs = [Mem v, Mem w, Permit, SlotLock a, Guard a])"

definition well_held :: "(nat \<rightharpoonup> nat) \<Rightarrow> thread \<Rightarrow> bool" where
  "well_held locks t \<longleftrightarrow> holds (th_pc t) = [] \<or> (\<exists>a. locks (th_cp_height t) = Some a \<and> stack a (holds (th_pc t)))"

lemma stack_simps [simp]:
  "stack a [Guard b] \<longleftrightarrow> b = a" "stack a [SlotLock b, Guard c] \<longleftrightarrow> b = a \<and> c = a"
  "stack a [Permit, SlotLock b, Guard c] \<longleftrightarrow> b = a \<and> c = a"
  "stack a [Mem w, Permit, SlotLock b, Guard c] \<longleftrightarrow> b = a \<and> c = a"
  "stack a [Mem v, Mem w, Permit, SlotLock b, Guard c] \<longleftrightarrow> b = a \<and> c = a"
  by (auto simp: stack_def)

lemma stack_pop: "stack a (r # rs) \<Longrightarrow> rs = [] \<or> stack a rs"
  by (auto simp: stack_def)

lemma stack_lock_guard: "stack a rs \<Longrightarrow> count (mset rs) (SlotLock b) \<le> count (mset rs) (Guard b)"
  by (auto simp: stack_def)

section \<open>Accounting\<close>

definition mem_of :: "resource \<Rightarrow> nat" where
  "mem_of r = (case r of Mem n \<Rightarrow> n | _ \<Rightarrow> 0)"

definition mem_total :: "resource multiset \<Rightarrow> nat" where
  "mem_total H = (\<Sum>r\<in>#H. mem_of r)"

definition slot_ok :: "resource multiset \<Rightarrow> nat \<Rightarrow> build_slot option \<Rightarrow> bool" where
  "slot_ok H a s = (case s of
       None \<Rightarrow> count H (Guard a) = 0 \<and> count H (SlotLock a) = 0
     | Some b \<Rightarrow> bs_waiters b = count H (Guard a) \<and> 0 < bs_waiters b \<and>
         count H (SlotLock a) = (if bs_locked b then 1 else 0))"

definition slot_at :: "build_slot option list \<Rightarrow> nat \<Rightarrow> build_slot option" where
  "slot_at slots a = (if a < length slots then slots ! a else None)"

lemma slot_at_simps [simp]:
  "slot_at (slots[a := s]) b = (if b = a \<and> a < length slots then s else slot_at slots b)"
  "slot_at (slots @ [s]) b = (if b = length slots then s else slot_at slots b)"
  by (auto simp: slot_at_def nth_append)

lemma slot_atD: "slot_at slots a = Some b \<Longrightarrow> a < length slots \<and> slots ! a = Some b"
  by (simp add: slot_at_def split: if_splits)

definition resources_ok :: "nat \<Rightarrow> checkpoint_merkle_cache \<Rightarrow> resource multiset \<Rightarrow> bool" where
  "resources_ok limit c H \<longleftrightarrow>
     inflight_rebuilds c = count H Permit \<and> count H Permit \<le> limit \<and>
     inflight_build_bytes c = usize (mem_total H + sum_list (map charge_of (mc_slots c))) \<and>
     (\<forall>a. slot_ok H a (slot_at (mc_slots c) a)) \<and>
     (\<forall>h a. build_locks c h = Some a \<longrightarrow> slot_at (mc_slots c) a \<noteq> None) \<and>
     (\<forall>a. slot_at (mc_slots c) a \<noteq> None \<longrightarrow> a \<in> ran (build_locks c)) \<and>
     inj_on (build_locks c) (dom (build_locks c))"

lemma resources_okD:
  assumes "resources_ok limit c H"
  shows "inflight_rebuilds c = count H Permit" and "count H Permit \<le> limit"
    and "inflight_build_bytes c = usize (mem_total H + sum_list (map charge_of (mc_slots c)))"
    and "slot_ok H a (slot_at (mc_slots c) a)" and "build_locks c h = Some a \<Longrightarrow> slot_at (mc_slots c) a \<noteq> None"
    and "slot_at (mc_slots c) a \<noteq> None \<Longrightarrow> a \<in> ran (build_locks c)" and "inj_on (build_locks c) (dom (build_locks c))"
  using assms unfolding resources_ok_def by blast+

lemma resources_okI:
  assumes "inflight_rebuilds c = count H Permit" and "count H Permit \<le> limit"
    and "inflight_build_bytes c = usize (mem_total H + sum_list (map charge_of (mc_slots c)))"
    and "\<And>a. slot_ok H a (slot_at (mc_slots c) a)" and "\<And>h a. build_locks c h = Some a \<Longrightarrow> slot_at (mc_slots c) a \<noteq> None"
    and "\<And>a. slot_at (mc_slots c) a \<noteq> None \<Longrightarrow> a \<in> ran (build_locks c)" and "inj_on (build_locks c) (dom (build_locks c))"
  shows "resources_ok limit c H"
  using assms unfolding resources_ok_def by blast

lemma mem_total_add [simp]: "mem_total (add_mset r H) = mem_of r + mem_total H" "mem_total {#} = 0"
  by (simp_all add: mem_total_def)

lemma mem_of_simps [simp]: "mem_of (Mem n) = n" "mem_of Permit = 0" "mem_of (SlotLock a) = 0" "mem_of (Guard a) = 0"
  by (simp_all add: mem_of_def)

lemma slot_ok_other:
  assumes "slot_ok H a s" and "r \<noteq> Guard a" and "r \<noteq> SlotLock a"
  shows "slot_ok (add_mset r H) a s"
  using assms by (auto simp: slot_ok_def split: option.splits)

lemma slot_ok_other_rev:
  assumes "slot_ok (add_mset r H) a s" and "r \<noteq> Guard a" and "r \<noteq> SlotLock a"
  shows "slot_ok H a s"
  using assms by (auto simp: slot_ok_def split: option.splits)

lemma slot_alive:
  assumes "resources_ok limit c H" and "Guard a \<in># H"
  shows "\<exists>b. a < length (mc_slots c) \<and> mc_slots c ! a = Some b"
proof (rule ccontr)
  assume "\<not> ?thesis"
  then have "slot_at (mc_slots c) a = None" by (auto simp: slot_at_def)
  with resources_okD(4) [OF assms(1), of a] assms(2) show False by (auto simp: slot_ok_def count_eq_zero_iff)
qed

text \<open>Resources that are not slots.\<close>

lemma permit_taken:
  assumes "resources_ok limit c H" and "rebuild_permit_acquire (inflight_rebuilds c) limit = Inr n" and "limit < 2 ^ 64"
  shows "resources_ok limit (c\<lparr>inflight_rebuilds := n\<rparr>) (add_mset Permit H)"
proof -
  note r = resources_okD [OF assms(1)]
  have n: "n = Suc (count H Permit)" "count H Permit < limit"
    using assms(2,3) r(1) by (auto simp: rebuild_permit_acquire_def split: if_splits)
  show ?thesis unfolding resources_ok_def using n r(3,5,6,7) slot_ok_other [OF r(4)] by auto
qed

lemma permit_dropped:
  assumes "resources_ok limit c (add_mset Permit H)" and "limit < 2 ^ 64"
  shows "resources_ok limit (c\<lparr>inflight_rebuilds := usize_sub (inflight_rebuilds c) 1\<rparr>) H"
proof -
  note r = resources_okD [OF assms(1)]
  have "usize_sub (inflight_rebuilds c) 1 = count H Permit" using r(1,2) assms(2) by (simp add: usize_sub_le)
  then show ?thesis unfolding resources_ok_def using r(2,3,5,6,7) slot_ok_other_rev [OF r(4)] by auto
qed

lemma memory_taken:
  assumes "resources_ok limit c H"
  shows "resources_ok limit (c\<lparr>inflight_build_bytes := usize (inflight_build_bytes c + w)\<rparr>) (add_mset (Mem w) H)"
proof -
  note r = resources_okD [OF assms]
  have "usize (inflight_build_bytes c + w) = usize (w + mem_total H + sum_list (map charge_of (mc_slots c)))"
    unfolding r(3) by (simp add: mod_simps ac_simps)
  then show ?thesis unfolding resources_ok_def using r(1,2,5,6,7) slot_ok_other [OF r(4)] by auto
qed

lemma memory_dropped:
  assumes "resources_ok limit c (add_mset (Mem w) H)"
  shows "resources_ok limit (c\<lparr>inflight_build_bytes := usize_sub (inflight_build_bytes c) w\<rparr>) H"
proof -
  note r = resources_okD [OF assms]
  have "inflight_build_bytes c = usize (mem_total H + sum_list (map charge_of (mc_slots c)) + w)" using r(3) by (simp add: ac_simps)
  then have "usize_sub (inflight_build_bytes c) w = usize (mem_total H + sum_list (map charge_of (mc_slots c)))"
    by (simp only: usize_sub_add)
  then show ?thesis unfolding resources_ok_def using r(1,2,5,6,7) slot_ok_other_rev [OF r(4)] by auto
qed

lemma resources_entries: "resources_ok limit (c\<lparr>mc_entries := es\<rparr>) H \<longleftrightarrow> resources_ok limit c H"
  by (simp add: resources_ok_def)

text \<open>Slots: a change that keeps the slot alive.\<close>

lemma charges_update_same:
  "charge_of s = charge_of (slots ! a) \<Longrightarrow> map charge_of (slots[a := s]) = map charge_of slots"
  by (metis list_update_id map_update)

lemma charges_update:
  assumes "a < length slots"
  shows "sum_list (map charge_of (slots[a := s])) + charge_of (slots ! a) = sum_list (map charge_of slots) + charge_of s"
proof -
  have "charge_of (slots ! a) \<le> sum_list (map charge_of slots)" using assms by (simp add: member_le_sum_list)
  then show ?thesis using assms by (simp add: map_update sum_list_update)
qed

lemma slot_changed:
  assumes "resources_ok limit c H" and "a < length (mc_slots c)" and "mc_slots c ! a \<noteq> None"
    and "slot_ok H' a (Some b)" and "\<And>x s. x \<noteq> a \<Longrightarrow> slot_ok H x s \<Longrightarrow> slot_ok H' x s"
    and "count H' Permit = count H Permit"
    and "bytes = usize (mem_total H' + sum_list (map charge_of ((mc_slots c)[a := Some b])))"
  shows "resources_ok limit (c\<lparr>mc_slots := (mc_slots c)[a := Some b], inflight_build_bytes := bytes\<rparr>) H'"
proof -
  note r = resources_okD [OF assms(1)]
  have "slot_ok H' x (slot_at ((mc_slots c)[a := Some b]) x)" for x using assms(2,4,5) r(4) [of x] by simp
  moreover have "a \<in> ran (build_locks c)" using r(6) [of a] assms(2,3) by (simp add: slot_at_def)
  ultimately show ?thesis unfolding resources_ok_def using assms(2,3,6,7) r(1,2,5,6,7) by auto
qed

lemma slot_locked:
  assumes "resources_ok limit c H" and "a < length (mc_slots c)" and "mc_slots c ! a = Some b" and "\<not> bs_locked b"
  shows "resources_ok limit (set_locked True c a) (add_mset (SlotLock a) H)"
proof -
  note r = resources_okD [OF assms(1)]
  let ?b = "b\<lparr>bs_locked := True\<rparr>"
  have ok: "slot_ok (add_mset (SlotLock a) H) a (Some ?b)" using r(4) [of a] assms(2-4) by (auto simp: slot_ok_def slot_at_def simp flip: count_greater_zero_iff)
  have same: "map charge_of ((mc_slots c)[a := Some ?b]) = map charge_of (mc_slots c)"
    by (rule charges_update_same) (simp add: charge_of_def assms(3))
  have "resources_ok limit (c\<lparr>mc_slots := (mc_slots c)[a := Some ?b], inflight_build_bytes := inflight_build_bytes c\<rparr>) (add_mset (SlotLock a) H)"
    by (rule slot_changed [OF assms(1,2) _ ok]) (use assms(3) r(3) in \<open>auto simp: same slot_ok_other\<close>)
  then show ?thesis by (simp add: set_locked_def assms(3))
qed

lemma slot_unlocked:
  assumes "resources_ok limit c (add_mset (SlotLock a) H)" and "Guard a \<in># H"
  shows "resources_ok limit (set_locked False c a) H"
proof -
  note r = resources_okD [OF assms(1)]
  from slot_alive [OF assms(1)] assms(2) obtain b where b: "a < length (mc_slots c)" "mc_slots c ! a = Some b" by auto
  let ?b = "b\<lparr>bs_locked := False\<rparr>"
  have ok: "slot_ok H a (Some ?b)" using r(4) [of a] b by (auto simp: slot_ok_def slot_at_def split: if_splits)
  have same: "map charge_of ((mc_slots c)[a := Some ?b]) = map charge_of (mc_slots c)"
    by (rule charges_update_same) (simp add: charge_of_def b(2))
  have "resources_ok limit (c\<lparr>mc_slots := (mc_slots c)[a := Some ?b], inflight_build_bytes := inflight_build_bytes c\<rparr>) H"
    by (rule slot_changed [OF assms(1) b(1) _ ok]) (use b(2) r(3) slot_ok_other_rev in \<open>auto simp: same\<close>)
  then show ?thesis by (simp add: set_locked_def b(2))
qed

lemma tree_retained:
  assumes "resources_ok limit c (add_mset (Mem (cl_size_bytes t)) H)" and "Guard a \<in># H"
  shows "resources_ok limit (retain_tree c a t) H"
proof -
  note r = resources_okD [OF assms(1)]
  from slot_alive [OF assms(1)] assms(2) obtain b where b: "a < length (mc_slots c)" "mc_slots c ! a = Some b" by auto
  let ?b = "b\<lparr>bs_last_built := Some \<lparr>rt_tree = t, rt_charge = cl_size_bytes t\<rparr>\<rparr>"
  let ?slots = "(mc_slots c)[a := Some ?b]"
  have ok: "slot_ok H a (Some ?b)" using r(4) [of a] b by (auto simp: slot_ok_def slot_at_def)
  have "charge_of (Some ?b) = cl_size_bytes t" by (simp add: charge_of_def)
  with charges_update [OF b(1), of "Some ?b"]
  have "cl_size_bytes t + mem_total H + sum_list (map charge_of (mc_slots c)) =
      mem_total H + sum_list (map charge_of ?slots) + charge_of (mc_slots c ! a)" by simp
  with r(3) have "inflight_build_bytes c = usize (mem_total H + sum_list (map charge_of ?slots) + charge_of (mc_slots c ! a))"
    by (simp only: mem_total_add mem_of_simps)
  then have "usize_sub (inflight_build_bytes c) (charge_of (mc_slots c ! a)) = usize (mem_total H + sum_list (map charge_of ?slots))"
    by (simp only: usize_sub_add)
  then have "resources_ok limit (c\<lparr>mc_slots := ?slots,
      inflight_build_bytes := usize_sub (inflight_build_bytes c) (charge_of (mc_slots c ! a))\<rparr>) H"
    by (intro slot_changed [OF assms(1) b(1) _ ok]) (use b(2) slot_ok_other_rev in auto)
  then show ?thesis by (simp add: retain_tree_def b(2))
qed

text \<open>Slots that come and go.\<close>

lemma guard_taken:
  assumes "resources_ok limit c H" and "build_lock_for c cp = (a, c')"
  shows "resources_ok limit c' (add_mset (Guard a) H)" and "build_locks c' cp = Some a"
    and "build_locks c h = Some x \<Longrightarrow> build_locks c' h = Some x"
proof -
  note r = resources_okD [OF assms(1)]
  have "resources_ok limit c' (add_mset (Guard a) H) \<and> build_locks c' cp = Some a \<and>
      (\<forall>h x. build_locks c h = Some x \<longrightarrow> build_locks c' h = Some x)"
  proof (cases "build_locks c cp")
    case (Some a')
    with r(5) obtain b where b: "a' < length (mc_slots c)" "mc_slots c ! a' = Some b" by (meson not_None_eq slot_atD)
    from Some assms(2) b have c': "a = a'" "c' = c\<lparr>mc_slots := (mc_slots c)[a' := Some (bs_waiters_update Suc b)]\<rparr>"
      by (auto simp: build_lock_for_def)
    let ?b = "bs_waiters_update Suc b"
    have ok: "slot_ok (add_mset (Guard a') H) a' (Some ?b)" using r(4) [of a'] b by (simp add: slot_ok_def slot_at_def)
    have same: "map charge_of ((mc_slots c)[a' := Some ?b]) = map charge_of (mc_slots c)"
      by (rule charges_update_same) (simp add: charge_of_def b(2))
    have "resources_ok limit (c\<lparr>mc_slots := (mc_slots c)[a' := Some ?b], inflight_build_bytes := inflight_build_bytes c\<rparr>) (add_mset (Guard a') H)"
      by (rule slot_changed [OF assms(1) b(1) _ ok]) (use b(2) r(3) in \<open>auto simp: same slot_ok_other\<close>)
    then show ?thesis using Some c' by simp
  next
    case None
    let ?n = "length (mc_slots c)"
    let ?b = "\<lparr>bs_waiters = 1, bs_last_built = None, bs_locked = False\<rparr>"
    from None assms(2) have c': "a = ?n" "c' = c\<lparr>mc_slots := mc_slots c @ [Some ?b], build_locks := (build_locks c)(cp \<mapsto> ?n)\<rparr>"
      by (auto simp: build_lock_for_def)
    have new: "slot_at (mc_slots c) ?n = None" by (simp add: slot_at_def)
    have "build_locks c h \<noteq> Some ?n" for h using r(5) [of h ?n] new by auto
    then have "?n \<notin> ran (build_locks c)" by (auto simp: ran_def)
    then have inj: "inj_on ((build_locks c)(cp \<mapsto> ?n)) (dom ((build_locks c)(cp \<mapsto> ?n)))"
      using r(7) None by (auto simp: inj_on_def ran_def dom_def)
    have "slot_ok (add_mset (Guard ?n) H) x (slot_at (mc_slots c @ [Some ?b]) x)" for x
    proof (cases "x = ?n")
      case True
      with r(4) [of x] new show ?thesis by (simp add: slot_ok_def)
    next
      case False
      with r(4) [of x] show ?thesis by (simp add: slot_ok_other)
    qed
    moreover have "sum_list (map charge_of (mc_slots c @ [Some ?b])) = sum_list (map charge_of (mc_slots c))"
      by (simp add: charge_of_def)
    ultimately have "resources_ok limit c' (add_mset (Guard ?n) H)"
      unfolding c' by (intro resources_okI) (use r(1-3,5,6) inj in \<open>auto simp: ran_map_upd [of "build_locks c" cp, OF None] split: if_splits\<close>)
    then show ?thesis using None by (simp add: c')
  qed
  then show "resources_ok limit c' (add_mset (Guard a) H)" "build_locks c' cp = Some a"
    "build_locks c h = Some x \<Longrightarrow> build_locks c' h = Some x" by blast+
qed

lemma ran_drop:
  assumes "inj_on m (dom m)" and "m h = Some a"
  shows "ran (m(h := None)) = ran m - {a}" and "inj_on (m(h := None)) (dom (m(h := None)))"
proof -
  have only: "x = h" if "m x = Some a" for x using inj_onD [OF assms(1), of x h] that assms(2) by (simp add: dom_def)
  show "ran (m(h := None)) = ran m - {a}"
  proof (rule set_eqI)
    fix y
    have "(\<exists>x. x \<noteq> h \<and> m x = Some y) \<longleftrightarrow> (\<exists>x. m x = Some y) \<and> y \<noteq> a" using only assms(2) by (metis option.inject)
    then show "y \<in> ran (m(h := None)) \<longleftrightarrow> y \<in> ran m - {a}" by (simp add: ran_def cong: conj_cong)
  qed
  show "inj_on (m(h := None)) (dom (m(h := None)))"
  proof (rule inj_onI)
    fix x y assume "x \<in> dom (m(h := None))" "y \<in> dom (m(h := None))" "(m(h := None)) x = (m(h := None)) y"
    then show "x = y" using inj_onD [OF assms(1), of x y] by (simp split: if_splits)
  qed
qed

lemma guard_dropped:
  assumes "resources_ok limit c (add_mset (Guard a) H)" and "build_locks c cp = Some a"
    and "count H (SlotLock a) \<le> count H (Guard a)"
  shows "resources_ok limit (guard_drop c cp a) H"
    and "build_locks c h = Some x \<Longrightarrow> Guard x \<in># H \<Longrightarrow> build_locks (guard_drop c cp a) h = Some x"
proof -
  note r = resources_okD [OF assms(1)]
  from slot_alive [OF assms(1)] obtain b where b: "a < length (mc_slots c)" "mc_slots c ! a = Some b" by auto
  have w: "bs_waiters b = Suc (count H (Guard a))" "count H (SlotLock a) = (if bs_locked b then 1 else 0)"
    using r(4) [of a] b by (auto simp: slot_ok_def slot_at_def)
  have "resources_ok limit (guard_drop c cp a) H \<and>
      (\<forall>h x. build_locks c h = Some x \<longrightarrow> Guard x \<in># H \<longrightarrow> build_locks (guard_drop c cp a) h = Some x)"
  proof (cases "count H (Guard a) = 0")
    case True
    note ran = ran_drop [OF r(7) assms(2)]
    let ?c = "c\<lparr>build_locks := (build_locks c)(cp := None), mc_slots := (mc_slots c)[a := None],
        inflight_build_bytes := usize_sub (inflight_build_bytes c) (charge_of (Some b))\<rparr>"
    have drop: "guard_drop c cp a = ?c" using True w(1) assms(2) b(2) by (simp add: guard_drop_def)
    have none: "slot_ok H a None" using True assms(3) by (simp add: slot_ok_def)
    have slots: "slot_ok H x (slot_at ((mc_slots c)[a := None]) x)" for x
      using none b(1) slot_ok_other_rev [OF r(4), of x] by auto
    have "mem_total H + sum_list (map charge_of (mc_slots c)) =
        mem_total H + sum_list (map charge_of ((mc_slots c)[a := None])) + charge_of (Some b)"
      using charges_update [OF b(1), of None] b(2) by (simp add: charge_of_def)
    then have bytes: "usize_sub (inflight_build_bytes c) (charge_of (Some b)) =
        usize (mem_total H + sum_list (map charge_of ((mc_slots c)[a := None])))"
      using r(3) by (simp only: mem_total_add mem_of_simps add_0 usize_sub_add)
    have live: "slot_at ((mc_slots c)[a := None]) x \<noteq> None" if "((build_locks c)(cp := None)) h = Some x" for h x
    proof -
      from that ran(1) have "x \<noteq> a" by (auto simp: ran_def)
      with that r(5) [of h x] show ?thesis by (auto split: if_splits)
    qed
    have alive: "x \<in> ran (build_locks c) - {a}" if "slot_at ((mc_slots c)[a := None]) x \<noteq> None" for x
      using that r(6) [of x] b(1) by (auto split: if_splits)
    have "resources_ok limit ?c H"
    proof (rule resources_okI)
      show "inflight_rebuilds ?c = count H Permit" "count H Permit \<le> limit" using r(1,2) by simp_all
      show "inflight_build_bytes ?c = usize (mem_total H + sum_list (map charge_of (mc_slots ?c)))" using bytes by simp
      show "slot_ok H x (slot_at (mc_slots ?c) x)" for x using slots [of x] by simp
      show "slot_at (mc_slots ?c) x \<noteq> None" if "build_locks ?c h = Some x" for h x using live [of h x] that by simp
      show "x \<in> ran (build_locks ?c)" if "slot_at (mc_slots ?c) x \<noteq> None" for x using alive [of x] that ran(1) by simp
      show "inj_on (build_locks ?c) (dom (build_locks ?c))" using ran(2) by simp
    qed
    moreover have "h \<noteq> cp" if "build_locks c h = Some x" "Guard x \<in># H" for h x
      using that assms(2) True by (auto simp: count_eq_zero_iff)
    ultimately show ?thesis unfolding drop by simp
  next
    case False
    let ?b = "b\<lparr>bs_waiters := count H (Guard a)\<rparr>"
    have one: "bs_waiters b \<noteq> 1" and less: "bs_waiters b - 1 = count H (Guard a)" using False w(1) by simp_all
    have drop: "guard_drop c cp a = c\<lparr>mc_slots := (mc_slots c)[a := Some ?b]\<rparr>"
      using one less b(2) unfolding guard_drop_def by (simp add: Let_def)
    have ok: "slot_ok H a (Some ?b)" using w False by (simp add: slot_ok_def)
    have same: "map charge_of ((mc_slots c)[a := Some ?b]) = map charge_of (mc_slots c)"
      by (rule charges_update_same) (simp add: charge_of_def b(2))
    have "resources_ok limit (c\<lparr>mc_slots := (mc_slots c)[a := Some ?b], inflight_build_bytes := inflight_build_bytes c\<rparr>) H"
      by (rule slot_changed [OF assms(1) b(1) _ ok]) (use b(2) r(3) slot_ok_other_rev in \<open>auto simp: same\<close>)
    then show ?thesis unfolding drop by simp
  qed
  then show "resources_ok limit (guard_drop c cp a) H"
    "build_locks c h = Some x \<Longrightarrow> Guard x \<in># H \<Longrightarrow> build_locks (guard_drop c cp a) h = Some x" by blast+
qed

lemma released:
  assumes "resources_ok limit c (add_mset r H + mset rs)" and "stack a (r # rs)" and "build_locks c cp = Some a"
    and "count H (SlotLock a) \<le> count H (Guard a)" and "limit < 2 ^ 64"
  shows "resources_ok limit (release c cp r) (H + mset rs)"
    and "build_locks c h = Some x \<Longrightarrow> Guard x \<in># H + mset rs \<Longrightarrow> build_locks (release c cp r) h = Some x"
proof -
  have "resources_ok limit (release c cp r) (H + mset rs) \<and>
      (\<forall>h x. build_locks c h = Some x \<longrightarrow> Guard x \<in># H + mset rs \<longrightarrow> build_locks (release c cp r) h = Some x)"
  proof (cases r)
    case (Guard a')
    with assms(2) have "a' = a" "rs = []" by (auto simp: stack_def)
    with Guard assms guard_dropped [of limit c a H cp] show ?thesis by (simp add: release_def)
  next
    case (SlotLock a')
    with assms(2) have "a' = a" "rs = [Guard a]" by (auto simp: stack_def)
    moreover from this SlotLock assms(1) have "resources_ok limit (set_locked False c a) (H + mset rs)"
      by (intro slot_unlocked) (simp_all add: add_mset_commute)
    ultimately show ?thesis using SlotLock by (simp add: release_def) (simp add: set_locked_def)
  next
    case Permit
    with assms permit_dropped [of limit c "H + mset rs"] show ?thesis by (simp add: release_def)
  next
    case (Mem w)
    with assms memory_dropped [of limit c w "H + mset rs"] show ?thesis by (simp add: release_def)
  qed
  then show "resources_ok limit (release c cp r) (H + mset rs)"
    "build_locks c h = Some x \<Longrightarrow> Guard x \<in># H + mset rs \<Longrightarrow> build_locks (release c cp r) h = Some x" by blast+
qed

section \<open>A step of a request\<close>

text \<open>
  The step of a request at height \<open>cp\<close> against what the others hold: it accounts for what it takes
  and drops, keeps its own resources in order and the slots of the others in place.
\<close>

lemma thread_step_resources:
  assumes step: "thread_step B limit hl height cp pc c = Some (pc', c')"
    and ok: "resources_ok limit c (H + mset (holds pc))"
    and stack: "holds pc = [] \<or> (\<exists>a. build_locks c cp = Some a \<and> stack a (holds pc))"
    and guards: "\<And>a. count H (SlotLock a) \<le> count H (Guard a)" and limit: "limit < 2 ^ 64"
    and budget: "in_budget (cache_capacity_bytes c) (mc_entries c)" "cache_capacity_bytes c < 2 ^ 63"
  shows "resources_ok limit c' (H + mset (holds pc')) \<and>
    (holds pc' = [] \<or> (\<exists>a. build_locks c' cp = Some a \<and> stack a (holds pc'))) \<and>
    (\<forall>h x. build_locks c h = Some x \<longrightarrow> Guard x \<in># H \<longrightarrow> build_locks c' h = Some x)"
proof (cases pc)
  case (Missed cp_hash sibling)
  obtain a c1 where bl: "build_lock_for c cp = (a, c1)" by (cases "build_lock_for c cp")
  with step Missed have "pc' = Queued cp_hash sibling a" "c' = c1" by auto
  moreover from Missed ok have "resources_ok limit c H" by simp
  ultimately show ?thesis using guard_taken [of limit c H cp a c1] bl by simp
next
  case (Queued cp_hash sibling a)
  from step Queued obtain b where b: "mc_slots c ! a = Some b" "\<not> bs_locked b" "pc' = Entered cp_hash sibling a" "c' = set_locked True c a"
    by (auto split: option.splits if_splits)
  from Queued stack have a: "build_locks c cp = Some a" by auto
  from resources_okD(5) [OF ok a] have "a < length (mc_slots c)" by (auto dest: slot_atD)
  from slot_locked [OF ok this b(1,2)] Queued b a show ?thesis by (simp add: set_locked_def)
next
  case (Ready a)
  from Ready stack have a: "build_locks c cp = Some a" by auto
  show ?thesis
  proof (cases "rebuild_permit_acquire (inflight_rebuilds c) limit")
    case (Inl e)
    with step Ready ok a show ?thesis by auto
  next
    case (Inr n)
    with step Ready have "pc' = Admitted a" "c' = c\<lparr>inflight_rebuilds := n\<rparr>" by auto
    with permit_taken [OF ok Inr limit] Ready a show ?thesis by simp
  qed
next
  case (Admitted a)
  from Admitted stack have a: "build_locks c cp = Some a" by auto
  let ?w = "estimated_peak_build_bytes cp"
  let ?m = "memory_permit_acquire (inflight_build_bytes c) (capacity_bytes c - usize (entry_bytes (mc_entries c))) ?w"
  show ?thesis
  proof (cases ?m)
    case (Inl e)
    with step Admitted ok a show ?thesis by auto
  next
    case (Inr n)
    then have n: "n = usize (inflight_build_bytes c + ?w)" by (simp add: memory_permit_acquire_def split: if_splits)
    from Inr step Admitted have "pc' = Building a ?w" "c' = c\<lparr>inflight_build_bytes := n\<rparr>" by auto
    with memory_taken [OF ok, of ?w] n Admitted a show ?thesis by simp
  qed
next
  case (Inserting a w t s best)
  from Inserting stack have a: "build_locks c cp = Some a" by auto
  from step Inserting have "pc' = Inserted a w t s" "c' = c\<lparr>mc_entries := mc_entries (cache_insert c cp best t)\<rparr>"
    using cache_insert_entries(3) [OF budget, of cp best t] by auto
  with ok Inserting a show ?thesis by (simp add: resources_entries)
next
  case (Inserted a w t s)
  from Inserted stack have a: "build_locks c cp = Some a" by auto
  from step Inserted have "pc' = Charged a w t s" "c' = memory_charge c (cl_size_bytes t)" by auto
  with memory_taken [OF ok, of "cl_size_bytes t"] Inserted a show ?thesis by (simp add: memory_charge_def)
next
  case (Charged a w t s)
  from Charged stack have a: "build_locks c cp = Some a" by auto
  let ?rs = "[Mem w, Permit, SlotLock a, Guard a]"
  from step Charged have s: "pc' = Unwinding ?rs (Inr (t, s))" "c' = retain_tree c a t" by auto
  from ok Charged have "resources_ok limit c (add_mset (Mem (cl_size_bytes t)) (H + mset ?rs))" by simp
  from tree_retained [OF this, of a] s a show ?thesis by simp (simp add: retain_tree_def)
next
  case (Unwinding rs r)
  show ?thesis
  proof (cases rs)
    case Nil
    with step Unwinding ok show ?thesis by auto
  next
    case (Cons x xs)
    from Unwinding stack Cons obtain a where a: "build_locks c cp = Some a" "stack a (x # xs)" by auto
    from step Unwinding Cons have s: "pc' = Unwinding xs r" "c' = release c cp x" by auto
    from ok Unwinding Cons have "resources_ok limit c (add_mset x H + mset xs)" by simp
    note rel = released [OF this a(2,1) guards limit]
    have "xs = [] \<or> (\<exists>a. build_locks c' cp = Some a \<and> stack a xs)"
    proof (cases "xs = []")
      case False
      with stack_pop [OF a(2)] have xs: "stack a xs" by blast
      then have "Guard a \<in># H + mset xs" by (auto simp: stack_def)
      with rel(2) [OF a(1)] xs show ?thesis by (auto simp: s)
    qed simp
    with rel s show ?thesis by simp
  qed
qed (use step ok stack in \<open>auto split: sum.splits option.splits if_splits prod.splits\<close>)

section \<open>All requests\<close>

definition server_ok :: "nat \<Rightarrow> proof_server \<Rightarrow> bool" where
  "server_ok limit s \<longleftrightarrow>
     resources_ok limit (sv_cache s) (held (sv_threads s)) \<and>
     (\<forall>t \<in> set (sv_threads s). well_held (build_locks (sv_cache s)) t) \<and>
     in_budget (cache_capacity_bytes (sv_cache s)) (mc_entries (sv_cache s))"

lemma held_lock_guard:
  assumes "\<forall>t \<in> set ts. well_held locks t"
  shows "count (held ts) (SlotLock a) \<le> count (held ts) (Guard a)"
  using assms
proof (induction ts)
  case (Cons t ts)
  have "count (mset (holds (th_pc t))) (SlotLock a) \<le> count (mset (holds (th_pc t))) (Guard a)"
    using Cons.prems by (auto simp: well_held_def intro: stack_lock_guard)
  with Cons show ?case by simp
qed simp

lemma holds_others:
  assumes "j < length ts" and "j \<noteq> i"
  shows "set (holds (th_pc (ts ! j))) \<subseteq> set_mset (others ts i)"
proof -
  have sub: "t \<in> set xs \<Longrightarrow> set (holds (th_pc t)) \<subseteq> set_mset (held xs)" for t xs by (induction xs) auto
  have "ts ! j \<in> set (take i ts) \<union> set (drop (Suc i) ts)"
  proof (cases "j < i")
    case True
    then have "ts ! j = take i ts ! j" "j < length (take i ts)" using assms(1) by simp_all
    then show ?thesis by (metis UnI1 nth_mem)
  next
    case False
    then have "ts ! j = drop (Suc i) ts ! (j - Suc i)" "j - Suc i < length (drop (Suc i) ts)" using assms by simp_all
    then show ?thesis by (metis UnI2 nth_mem)
  qed
  then show ?thesis using sub by (fastforce simp: others_def)
qed

lemma thread_step_budget:
  assumes "thread_step B limit hl height cp pc c = Some (pc', c')"
    and "in_budget (cache_capacity_bytes c) (mc_entries c)" and "cache_capacity_bytes c < 2 ^ 63"
  shows "in_budget (cache_capacity_bytes c') (mc_entries c') \<and> cache_capacity_bytes c' = cache_capacity_bytes c \<and>
    (mc_entries c' = mc_entries c \<or> (\<exists>a w t s best. pc = Inserting a w t s best \<and> set (mc_entries c') \<subseteq> set (mc_entries c) \<union> {(cp, t)}))"
proof (cases pc)
  case (Inserting a w t s best)
  have "cache_capacity_bytes (cache_insert c cp best t) = cache_capacity_bytes c"
    by (subst cache_insert_entries(3) [OF assms(2,3)]) simp
  with Inserting assms(1) cache_insert_entries(1,2) [OF assms(2,3), of cp best t] show ?thesis by auto
next
  case (Unwinding rs r)
  then show ?thesis using assms
    by (cases rs) (auto simp: release_def guard_drop_def set_locked_def Let_def split: resource.splits option.splits)
qed (use assms in \<open>auto simp: build_lock_for_def set_locked_def memory_charge_def retain_tree_def Let_def
    split: sum.splits option.splits if_splits prod.splits\<close>)

lemma server_step_ok:
  assumes "server_step B limit HL s s'" and "server_ok limit s" and "limit < 2 ^ 64" and "cache_capacity_bytes (sv_cache s) < 2 ^ 63"
  shows "server_ok limit s' \<and> cache_capacity_bytes (sv_cache s') = cache_capacity_bytes (sv_cache s)"
  using assms(1)
proof cases
  case (publish hl)
  with assms(2) show ?thesis by (simp add: server_ok_def)
next
  case (request height cp_height)
  with assms(2) show ?thesis by (simp add: server_ok_def well_held_def)
next
  case (run i t pc' c')
  let ?c = "sv_cache s" and ?ts = "sv_threads s"
  have ok: "resources_ok limit ?c (others ?ts i + mset (holds (th_pc t)))"
    using assms(2) run(2,3) held_split(1) [OF run(2)] by (simp add: server_ok_def)
  have wh: "\<forall>t \<in> set ?ts. well_held (build_locks ?c) t" and budget: "in_budget (cache_capacity_bytes ?c) (mc_entries ?c)"
    using assms(2) by (simp_all add: server_ok_def)
  have stack: "holds (th_pc t) = [] \<or> (\<exists>a. build_locks ?c (th_cp_height t) = Some a \<and> stack a (holds (th_pc t)))"
    using wh run(2,3) by (auto simp: well_held_def)
  have guards: "count (others ?ts i) (SlotLock a) \<le> count (others ?ts i) (Guard a)" for a
    using held_lock_guard [of "take i ?ts @ drop (Suc i) ?ts" "build_locks ?c" a] wh
    by (auto simp: others_def dest: in_set_takeD in_set_dropD)
  note st = thread_step_resources [OF run(4) ok stack guards assms(3) budget assms(4)]
  note b = thread_step_budget [OF run(4) budget assms(4)]
  have "well_held (build_locks c') u" if u: "u \<in> set (?ts[i := t\<lparr>th_pc := pc'\<rparr>])" for u
  proof -
    from u obtain j where j: "j < length ?ts" "u = ?ts[i := t\<lparr>th_pc := pc'\<rparr>] ! j" by (auto simp: in_set_conv_nth)
    show ?thesis
    proof (cases "j = i")
      case True
      with j st show ?thesis by (auto simp: well_held_def)
    next
      case False
      with j have u: "u = ?ts ! j" by simp
      with wh j(1) have w: "well_held (build_locks ?c) u" by simp
      have "build_locks c' (th_cp_height u) = Some a" if "build_locks ?c (th_cp_height u) = Some a" "stack a (holds (th_pc u))" for a
      proof -
        have "Guard a \<in> set (holds (th_pc u))" using that(2) by (auto simp: stack_def)
        with holds_others [OF j(1) False] u have "Guard a \<in># others ?ts i" by auto
        with st that(1) show ?thesis by blast
      qed
      with w show ?thesis by (auto simp: well_held_def)
    qed
  qed
  moreover have "resources_ok limit c' (held (?ts[i := t\<lparr>th_pc := pc'\<rparr>]))"
    using st held_split(2) [OF run(2)] by simp
  moreover have "in_budget (cache_capacity_bytes c') (mc_entries c')" "cache_capacity_bytes c' = cache_capacity_bytes ?c" using b by blast+
  ultimately show ?thesis using run(1) by (simp add: server_ok_def)
qed

lemma server_init_ok: "server_ok limit (server_init capacity hl)"
  by (simp add: server_ok_def server_init_def checkpoint_cache_new_def with_cache_capacity_def resources_ok_def slot_at_def
      slot_ok_def in_budget_def)

lemma proof_reachable_ok:
  assumes "proof_reachable B limit capacity HL s" and "limit < 2 ^ 64" and "capacity < 2 ^ 64"
  shows "server_ok limit s \<and> cache_capacity_bytes (sv_cache s) = capacity div 2"
proof -
  from assms(1) obtain hl where "(server_step B limit HL)\<^sup>*\<^sup>* (server_init capacity hl) s" by (auto simp: proof_reachable_def)
  then show ?thesis
  proof (induction rule: rtranclp_induct)
    case base
    have "cache_capacity_bytes (sv_cache (server_init capacity hl)) = capacity div 2"
      by (simp add: server_init_def checkpoint_cache_new_def with_cache_capacity_def)
    with server_init_ok show ?case by blast
  next
    case (step s1 s2)
    have "capacity div 2 < 2 ^ 63" using assms(3) by simp
    with step server_step_ok [OF step(2), of] assms(2) show ?case by metis
  qed
qed

lemma quiescent:
  assumes "resources_ok limit c {#}"
  shows "inflight_rebuilds c = 0" and "inflight_build_bytes c = 0" and "build_locks c = Map.empty"
proof -
  note r = resources_okD [OF assms]
  have none: "slot_at (mc_slots c) a = None" for a using r(4) [of a] by (cases "slot_at (mc_slots c) a") (auto simp: slot_ok_def)
  show "inflight_rebuilds c = 0" using r(1) by simp
  show "build_locks c = Map.empty"
  proof
    fix h show "build_locks c h = None" using r(5) [of h] none by (cases "build_locks c h") auto
  qed
  have "charge_of x = 0" if x: "x \<in> set (mc_slots c)" for x
  proof -
    from x obtain a where "a < length (mc_slots c)" "x = mc_slots c ! a" by (auto simp: in_set_conv_nth)
    with none [of a] show ?thesis by (simp add: slot_at_def charge_of_def)
  qed
  then have "map charge_of (mc_slots c) = replicate (length (mc_slots c)) 0" by (simp add: map_replicate_const [symmetric])
  then show "inflight_build_bytes c = 0" using r(3) by (simp add: sum_list_replicate)
qed

lemma one_builder:
  assumes "resources_ok limit c (held ts)" and "\<forall>t \<in> set ts. well_held (build_locks c) t"
    and "i < length ts" and "j < length ts" and "th_cp_height (ts ! i) = th_cp_height (ts ! j)"
    and "Permit \<in> set (holds (th_pc (ts ! i)))" and "Permit \<in> set (holds (th_pc (ts ! j)))"
  shows "i = j"
proof (rule ccontr)
  assume ne: "i \<noteq> j"
  have lock: "\<exists>a. build_locks c (th_cp_height (ts ! k)) = Some a \<and> SlotLock a \<in> set (holds (th_pc (ts ! k)))"
    if "k < length ts" "Permit \<in> set (holds (th_pc (ts ! k)))" for k
  proof -
    from assms(2) that(1) have "well_held (build_locks c) (ts ! k)" by simp
    with that(2) show ?thesis by (auto simp: well_held_def stack_def)
  qed
  from lock [OF assms(3,6)] lock [OF assms(4,7)] assms(5) obtain a
    where a: "SlotLock a \<in> set (holds (th_pc (ts ! i)))" "SlotLock a \<in> set (holds (th_pc (ts ! j)))" by auto
  from holds_others [OF assms(4) ne [symmetric]] a(2) have "0 < count (others ts i) (SlotLock a)" by auto
  moreover from a(1) have "0 < count (mset (holds (th_pc (ts ! i)))) (SlotLock a)" by simp
  ultimately have "2 \<le> count (held ts) (SlotLock a)" unfolding held_split(1) [OF assms(3)] count_union by linarith
  moreover have "count (held ts) (SlotLock a) \<le> 1"
    using resources_okD(4) [OF assms(1), of a] by (cases "slot_at (mc_slots c) a") (auto simp: slot_ok_def)
  ultimately show False by simp
qed

lemma permits_count:
  assumes "\<forall>t \<in> set ts. well_held locks t"
  shows "count (held ts) Permit = length (filter (\<lambda>t. Permit \<in> set (holds (th_pc t))) ts)"
  using assms by (induction ts) (auto simp: well_held_def stack_def)

lemma proof_reachable_induct [consumes 1, case_names init step]:
  assumes "proof_reachable B limit capacity HL s"
    and "\<And>hl. hl \<in> HL \<Longrightarrow> P (server_init capacity hl)"
    and "\<And>s s'. proof_reachable B limit capacity HL s \<Longrightarrow> P s \<Longrightarrow> server_step B limit HL s s' \<Longrightarrow> P s'"
  shows "P s"
proof -
  from assms(1) obtain hl where hl: "hl \<in> HL" "(server_step B limit HL)\<^sup>*\<^sup>* (server_init capacity hl) s" by (auto simp: proof_reachable_def)
  from hl(2) show ?thesis
  proof (induction rule: rtranclp_induct)
    case base
    show ?case by (rule assms(2) [OF hl(1)])
  next
    case (step s1 s2)
    then show ?case using assms(3) [of s1 s2] hl(1) by (auto simp: proof_reachable_def)
  qed
qed

text \<open>
  Claim C14. However requests and reorganisations interleave: at most the permitted number of trees is
  rebuilt at once and never two for one height, the cached trees stay within half of the budget and
  one per height, and when every request has ended no permit, memory charge or build slot is left.
\<close>

theorem checkpoint_resources_bounded:
  assumes "proof_reachable B limit capacity HL s" and "limit < 2 ^ 64" and "capacity < 2 ^ 64"
  shows "length (filter (\<lambda>t. Permit \<in> set (holds (th_pc t))) (sv_threads s)) \<le> limit \<and>
    (\<forall>i j. i < length (sv_threads s) \<longrightarrow> j < length (sv_threads s) \<longrightarrow>
       th_cp_height (sv_threads s ! i) = th_cp_height (sv_threads s ! j) \<longrightarrow>
       Permit \<in> set (holds (th_pc (sv_threads s ! i))) \<longrightarrow> Permit \<in> set (holds (th_pc (sv_threads s ! j))) \<longrightarrow> i = j) \<and>
    entry_bytes (mc_entries (sv_cache s)) \<le> capacity div 2 \<and> length (mc_entries (sv_cache s)) \<le> MAX_CACHE_ENTRIES \<and>
    distinct (map fst (mc_entries (sv_cache s))) \<and>
    ((\<forall>t \<in> set (sv_threads s). \<exists>r. th_pc t = Finished r) \<longrightarrow>
       inflight_rebuilds (sv_cache s) = 0 \<and> inflight_build_bytes (sv_cache s) = 0 \<and> build_locks (sv_cache s) = Map.empty)"
proof -
  have ok: "resources_ok limit (sv_cache s) (held (sv_threads s))" "\<forall>t \<in> set (sv_threads s). well_held (build_locks (sv_cache s)) t"
    "in_budget (capacity div 2) (mc_entries (sv_cache s))"
    using proof_reachable_ok [OF assms] by (auto simp: server_ok_def)
  have "held ts = {#}" if "\<forall>t \<in> set ts. \<exists>r. th_pc t = Finished r" for ts using that by (induction ts) auto
  then show ?thesis
    using ok resources_okD(2) [OF ok(1)] permits_count [OF ok(2)] one_builder [OF ok(1,2)] quiescent
    by (auto simp: in_budget_def)
qed

end
