(* ===== verification/ProofServer.thy ===== *)
theory ProofServer
  imports Concurrent
begin

text \<open>
  The proofs that concurrent checkpoint requests return are proofs for a chain the indexer
  published, also when the chain is reorganised while a request runs or a cached tree is reused.
\<close>

section \<open>Chains, trees and proofs\<close>

text \<open>The block hashes up to a height in one of the published header lists.\<close>

definition chain_prefix :: "header_list set \<Rightarrow> nat \<Rightarrow> fullhash list \<Rightarrow> bool" where
  "chain_prefix HL cp es \<longleftrightarrow> (\<exists>hl \<in> HL. cp < length (headers hl) \<and> es = map he_hash (take (Suc cp) (headers hl)))"

definition tree_for :: "bitcoin_lib \<Rightarrow> fullhash list \<Rightarrow> cached_levels \<Rightarrow> bool" where
  "tree_for B es t \<longleftrightarrow> cl_cp_hash t = last es \<and> cl_levels t = build_levels B es"

definition proof_for :: "bitcoin_lib \<Rightarrow> fullhash list \<Rightarrow> nat \<Rightarrow> fullhash list \<times> fullhash \<times> blockhash \<Rightarrow> bool" where
  "proof_for B es height = (\<lambda>(branch, root, cp_hash). cp_hash = last es \<and> root = tree_root B es \<and> branch = tree_path B es height)"

text \<open>
  The header lists are consistent and no two of their headers collide, so that the hash of a block
  determines the chain below it.
\<close>

definition lists_ok :: "bitcoin_lib \<Rightarrow> header_list set \<Rightarrow> bool" where
  "lists_ok B HL \<longleftrightarrow>
     (\<forall>hl \<in> HL. hl_inv hl \<and> (\<forall>e \<in> set (headers hl). block_hash B (he_header e) = he_hash e)) \<and>
     inj_on (block_hash B) (\<Union>hl \<in> HL. he_header ` set (headers hl))"

lemma linked_prev:
  assumes "linked n p es" and "Suc i < length es"
  shows "prev_blockhash (he_header (es ! Suc i)) = he_hash (es ! i)"
  using assms
proof (induction es arbitrary: n p i)
  case (Cons e es)
  then show ?case by (cases i; cases es) auto
qed simp

lemma chain_prefix_unique:
  assumes "lists_ok B HL" and "chain_prefix HL cp es" and "chain_prefix HL cp es'" and "last es = last es'"
  shows "es = es'"
proof -
  from assms(2,3) obtain a b where a: "a \<in> HL" "cp < length (headers a)" "es = map he_hash (take (Suc cp) (headers a))"
    and b: "b \<in> HL" "cp < length (headers b)" "es' = map he_hash (take (Suc cp) (headers b))" by (auto simp: chain_prefix_def)
  have last: "last (map he_hash (take (Suc cp) xs)) = he_hash (xs ! cp)" if "cp < length xs" for xs :: "header_entry list"
    using that by (simp add: last_map take_Suc_conv_app_nth)
  have hash: "block_hash B (he_header (headers l ! i)) = he_hash (headers l ! i)" if "l \<in> HL" "i < length (headers l)" for l i
    using assms(1) that by (auto simp: lists_ok_def)
  have "he_hash (headers a ! (cp - k)) = he_hash (headers b ! (cp - k))" for k
  proof (induction k)
    case 0
    then show ?case using assms(4) a b by (simp add: last)
  next
    case (Suc k)
    show ?case
    proof (cases "k < cp")
      case True
      let ?i = "cp - Suc k"
      have i: "cp - k = Suc ?i" using True by simp
      with Suc have "he_hash (headers a ! Suc ?i) = he_hash (headers b ! Suc ?i)" by simp
      with hash [OF a(1), of "Suc ?i"] hash [OF b(1), of "Suc ?i"] a b True
      have "block_hash B (he_header (headers a ! Suc ?i)) = block_hash B (he_header (headers b ! Suc ?i))" by simp
      moreover have "he_header (headers l ! Suc ?i) \<in> (\<Union>hl \<in> HL. he_header ` set (headers hl))" if "l \<in> HL" "cp < length (headers l)" for l
        using that True by (metis UN_I image_eqI le_less_trans diff_le_self i nth_mem)
      ultimately have eq: "he_header (headers a ! Suc ?i) = he_header (headers b ! Suc ?i)"
        using assms(1) a b unfolding lists_ok_def by (meson inj_onD)
      have "linked 0 DEFAULT_BLOCKHASH (headers a)" "linked 0 DEFAULT_BLOCKHASH (headers b)"
        using assms(1) a(1) b(1) by (auto simp: lists_ok_def hl_inv_def)
      with linked_prev [of 0 DEFAULT_BLOCKHASH "headers a" ?i] linked_prev [of 0 DEFAULT_BLOCKHASH "headers b" ?i] eq a b True
      show ?thesis by simp
    next
      case False
      then have "cp - Suc k = cp - k" by simp
      with Suc show ?thesis by simp
    qed
  qed
  then have "he_hash (headers a ! i) = he_hash (headers b ! i)" if "i \<le> cp" for i
    using that by (metis diff_diff_cancel)
  then show ?thesis using a b by (auto intro!: nth_equalityI)
qed

section \<open>Reading a header list\<close>

lemma hash_at_spec: "hl_inv hl \<Longrightarrow> hash_at hl n = (if n < length (headers hl) then Inr (he_hash (headers hl ! n)) else Inl (Msg ''missing block header at height''))"
  by (simp add: hash_at_def header_by_height_spec)

lemma prefix_nth:
  assumes "hl \<in> HL" and "cp < length (headers hl)"
  shows "chain_prefix HL cp (map he_hash (take (Suc cp) (headers hl)))"
    and "last (map he_hash (take (Suc cp) (headers hl))) = he_hash (headers hl ! cp)"
    and "sibling_of (map he_hash (take (Suc cp) (headers hl))) height = he_hash (headers hl ! checkpoint_sibling_height height cp)"
  using assms
  by (auto simp: chain_prefix_def last_map take_Suc_conv_app_nth sibling_of_def checkpoint_sibling_height_def nth_append min_def)

lemma chain_prefix_length: "chain_prefix HL cp es \<Longrightarrow> length es = Suc cp"
  by (auto simp: chain_prefix_def)

lemma snapshot_spec:
  assumes "hl_inv hl" and "hl \<in> HL" and "snapshot_cp_hash_and_sibling hl height cp = Inr (h, s)"
  shows "\<exists>es. chain_prefix HL cp es \<and> h = last es \<and> s = sibling_of es height"
proof -
  from assms(3) have "cp < length (headers hl)" "h = he_hash (headers hl ! cp)" "s = he_hash (headers hl ! checkpoint_sibling_height height cp)"
    by (auto simp: snapshot_cp_hash_and_sibling_def hash_at_spec [OF assms(1)] res_iffs split: if_splits)
  with prefix_nth [OF assms(2), of cp] show ?thesis by metis
qed

lemma those_some: "those (map Some xs) = Some xs"
  by (induction xs) simp_all

lemma build_spec:
  assumes "hl_inv hl" and "hl \<in> HL" and "checkpoint_build B hl height cp = Inr (h, levels, s)"
  shows "\<exists>es. chain_prefix HL cp es \<and> tree_for B es (cached_levels_new h levels) \<and> s = sibling_of es height"
proof -
  let ?es = "map he_hash (take (Suc cp) (headers hl))"
  from assms(3) have cp: "cp < length (headers hl)" "h = he_hash (headers hl ! cp)"
    by (auto simp: checkpoint_build_def hash_at_spec [OF assms(1)] res_iffs split: if_splits)
  have "map (header_by_height hl) [0..<Suc cp] = map Inr (map Some (take (Suc cp) (headers hl)))"
    using cp(1) by (intro nth_equalityI) (auto simp: header_by_height_spec [OF assms(1)] simp del: upt_Suc)
  then have c: "collect (map (header_by_height hl) [0..<Suc cp]) = Inr (map Some (take (Suc cp) (headers hl)))"
    by (simp only: collect_map_Inr list.map_ident)
  have "those (map (map_option he_hash) (map Some (take (Suc cp) (headers hl)))) = Some ?es"
    using those_some [of ?es] by (simp add: comp_def)
  with assms(3) c have b: "build_levels_above_leaves B ?es = Inr levels" "at ?es (checkpoint_sibling_height height cp) = Inr s"
    by (auto simp: checkpoint_build_def res_iffs simp del: upt_Suc)
  have "s = sibling_of ?es height"
    using b(2) cp(1) unfolding prefix_nth(3) [OF assms(2) cp(1)] by (auto simp: at_def split: if_splits)
  moreover have "levels = build_levels B ?es" using b(1) by (simp add: build_levels_above_leaves_def split: if_splits)
  ultimately show ?thesis
    using prefix_nth [OF assms(2) cp(1)] cp(2) by (intro exI [of _ ?es]) (simp add: tree_for_def cached_levels_new_def)
qed

lemma proof_of_tree_spec:
  assumes "chain_prefix HL cp es" and "tree_for B es t" and "s = sibling_of es height" and "0 < cp" and "height \<le> cp"
  shows "\<exists>p. proof_of_tree height (Inr (t, s)) = Inr p \<and> proof_for B es height p"
proof -
  note len = chain_prefix_length [OF assms(1)]
  have "extract_branch_and_root (cl_levels t) s height = Inr (tree_path B es height, tree_root B es)"
    using assms(2,3) extract_path [of height es B] len assms(4,5) by (simp add: tree_for_def)
  with assms(2) show ?thesis by (simp add: proof_of_tree_def proof_for_def tree_for_def)
qed

section \<open>Trees of the cache\<close>

definition slot_tree :: "build_slot option \<Rightarrow> retained_tree option" where
  "slot_tree s = (case s of Some b \<Rightarrow> bs_last_built b | None \<Rightarrow> None)"

lemma slot_tree_simps [simp]: "slot_tree None = None" "slot_tree (Some b) = bs_last_built b"
  by (simp_all add: slot_tree_def)

definition retained :: "checkpoint_merkle_cache \<Rightarrow> nat \<Rightarrow> retained_tree option" where
  "retained c a = slot_tree (slot_at (mc_slots c) a)"

definition trees_ok :: "bitcoin_lib \<Rightarrow> header_list set \<Rightarrow> checkpoint_merkle_cache \<Rightarrow> bool" where
  "trees_ok B HL c \<longleftrightarrow>
     (\<forall>h t. (h, t) \<in> set (mc_entries c) \<longrightarrow> (\<exists>es. chain_prefix HL h es \<and> tree_for B es t)) \<and>
     (\<forall>h a r. build_locks c h = Some a \<longrightarrow> retained c a = Some r \<longrightarrow> (\<exists>es. chain_prefix HL h es \<and> tree_for B es (rt_tree r)))"

lemma get_valid_spec:
  assumes "trees_ok B HL c" and "get_valid c cp h = Some t"
  shows "\<exists>es. chain_prefix HL cp es \<and> tree_for B es t \<and> h = last es"
proof -
  from assms(2) obtain e where e: "List.find (\<lambda>(x, cached). x = cp \<and> cl_cp_hash cached = h) (mc_entries c) = Some e" "t = snd e"
    by (auto simp: get_valid_def)
  then have "(cp, t) \<in> set (mc_entries c)" "cl_cp_hash t = h" by (auto simp: find_Some_iff in_set_conv_nth)
  with assms(1) show ?thesis unfolding trees_ok_def tree_for_def by blast
qed

lemma enter_slot_spec:
  assumes "trees_ok B HL c" and "enter_slot c cp h a = Some t" and "build_locks c cp = Some a" and "a < length (mc_slots c)"
  shows "\<exists>es. chain_prefix HL cp es \<and> tree_for B es t \<and> h = last es"
proof (cases "get_valid c cp h")
  case (Some t')
  with assms(2) get_valid_spec [OF assms(1)] show ?thesis by (simp add: enter_slot_def)
next
  case None
  with assms(2,4) obtain r where r: "retained c a = Some r" "cl_cp_hash (rt_tree r) = h" "t = rt_tree r"
    by (auto simp: enter_slot_def retained_def slot_at_def slot_tree_def split: option.splits if_splits)
  with assms(1,3) show ?thesis unfolding trees_ok_def tree_for_def by blast
qed

lemma trees_ok_sub:
  assumes "trees_ok B HL c" and "mc_entries c' = mc_entries c"
    and "\<And>h a r. build_locks c' h = Some a \<Longrightarrow> retained c' a = Some r \<Longrightarrow> build_locks c h = Some a \<and> retained c a = Some r"
  shows "trees_ok B HL c'"
  using assms unfolding trees_ok_def by metis

lemma slot_tree_update:
  assumes "slot_tree (slot_at (slots[a := s]) x) = Some r" and "slot_tree s = Some r \<Longrightarrow> slot_tree (slots ! a) = Some r"
  shows "slot_tree (slot_at slots x) = Some r"
  using assms by (cases "x = a") (auto simp: slot_at_def split: if_splits)

lemma trees_ok_slot:
  assumes "trees_ok B HL c" and "mc_entries c' = mc_entries c" and "mc_slots c' = (mc_slots c)[a := s]"
    and "\<And>h x. build_locks c' h = Some x \<Longrightarrow> build_locks c h = Some x"
    and "\<And>r. slot_tree s = Some r \<Longrightarrow> slot_tree (mc_slots c ! a) = Some r"
  shows "trees_ok B HL c'"
proof (rule trees_ok_sub [OF assms(1,2)])
  fix h x r assume "build_locks c' h = Some x" and "retained c' x = Some r"
  then show "build_locks c h = Some x \<and> retained c x = Some r"
    using assms(4) slot_tree_update [of "mc_slots c" a s x r] assms(5) [of r] unfolding retained_def assms(3) by blast
qed

lemma slot_tree_map [simp]:
  "slot_tree (map_option (bs_locked_update f) s) = slot_tree s" "slot_tree (map_option (bs_waiters_update g) s) = slot_tree s"
  by (cases s; simp)+

lemma set_locked_trees: "trees_ok B HL c \<Longrightarrow> trees_ok B HL (set_locked v c a)"
  by (erule trees_ok_slot [where s = "map_option (bs_locked_update (\<lambda>_. v)) (mc_slots c ! a)"]) (simp_all add: set_locked_def)

lemma build_lock_for_trees:
  assumes "trees_ok B HL c" and "build_lock_for c cp = (a, c')"
  shows "trees_ok B HL c'"
proof (cases "build_locks c cp")
  case (Some x)
  with assms(2) have "c' = c\<lparr>mc_slots := (mc_slots c)[a := map_option (bs_waiters_update Suc) (mc_slots c ! a)]\<rparr>"
    by (auto simp: build_lock_for_def)
  then show ?thesis by (intro trees_ok_slot [OF assms(1), where s = "map_option (bs_waiters_update Suc) (mc_slots c ! a)"]) simp_all
next
  case None
  let ?n = "length (mc_slots c)"
  from None assms(2) have "c' = c\<lparr>mc_slots := mc_slots c @ [Some \<lparr>bs_waiters = 1, bs_last_built = None, bs_locked = False\<rparr>],
      build_locks := (build_locks c)(cp \<mapsto> ?n)\<rparr>" by (auto simp: build_lock_for_def)
  then show ?thesis
    by (intro trees_ok_sub [OF assms(1)]) (auto simp: retained_def split: if_splits)
qed

lemma guard_drop_trees:
  assumes "trees_ok B HL c"
  shows "trees_ok B HL (guard_drop c cp a)"
proof (cases "mc_slots c ! a")
  case None
  with assms show ?thesis by (simp add: guard_drop_def)
next
  case (Some b)
  show ?thesis
  proof (cases "bs_waiters b = 1")
    case True
    then show ?thesis unfolding guard_drop_def Some option.case
      by (simp only: if_True) (rule trees_ok_slot [OF assms, where s = None and a = a], simp_all split: if_splits)
  next
    case False
    then show ?thesis unfolding guard_drop_def Some option.case
      by (simp only: if_False)
        (rule trees_ok_slot [OF assms, where s = "Some (b\<lparr>bs_waiters := bs_waiters b - 1\<rparr>)" and a = a], simp_all add: Some)
  qed
qed

lemma release_trees: "trees_ok B HL c \<Longrightarrow> trees_ok B HL (release c cp r)"
proof (cases r)
  case (Guard a)
  then show "trees_ok B HL c \<Longrightarrow> ?thesis" by (simp add: release_def guard_drop_trees)
next
  case (SlotLock a)
  then show "trees_ok B HL c \<Longrightarrow> ?thesis" by (simp add: release_def set_locked_trees)
qed (auto simp: release_def trees_ok_def retained_def)

lemma retain_tree_trees:
  assumes "trees_ok B HL c" and "inj_on (build_locks c) (dom (build_locks c))" and "build_locks c cp = Some a"
    and "chain_prefix HL cp es" and "tree_for B es t"
  shows "trees_ok B HL (retain_tree c a t)"
proof -
  have "\<exists>es. chain_prefix HL h es \<and> tree_for B es (rt_tree r)"
    if l: "build_locks c h = Some x" and r: "retained (retain_tree c a t) x = Some r" for h x r
  proof (cases "x = a")
    case True
    then have "h = cp" using inj_onD [OF assms(2), of h cp] l assms(3) by (simp add: dom_def)
    moreover have "rt_tree r = t" using r True 
      by (cases "mc_slots c ! a") (auto simp: retained_def retain_tree_def slot_at_def split: if_splits)
    ultimately show ?thesis using assms(4,5) by blast
  next
    case False
    then have "retained c x = Some r" using r by (simp add: retained_def retain_tree_def)
    with l assms(1) show ?thesis by (auto simp: trees_ok_def)
  qed
  with assms(1) show ?thesis by (simp add: trees_ok_def retain_tree_def)
qed

section \<open>What a request knows\<close>

fun data_ok :: "bitcoin_lib \<Rightarrow> header_list set \<Rightarrow> nat \<Rightarrow> nat \<Rightarrow> pc \<Rightarrow> bool" where
  "data_ok B HL height cp Checked \<longleftrightarrow> height \<le> cp"
| "data_ok B HL height cp (Looking h s) \<longleftrightarrow> 0 < cp \<and> height \<le> cp \<and> (\<exists>es. chain_prefix HL cp es \<and> h = last es \<and> s = sibling_of es height)"
| "data_ok B HL height cp (Missed h s) \<longleftrightarrow> 0 < cp \<and> height \<le> cp \<and> (\<exists>es. chain_prefix HL cp es \<and> h = last es \<and> s = sibling_of es height)"
| "data_ok B HL height cp (Queued h s a) \<longleftrightarrow> 0 < cp \<and> height \<le> cp \<and> (\<exists>es. chain_prefix HL cp es \<and> h = last es \<and> s = sibling_of es height)"
| "data_ok B HL height cp (Entered h s a) \<longleftrightarrow> 0 < cp \<and> height \<le> cp \<and> (\<exists>es. chain_prefix HL cp es \<and> h = last es \<and> s = sibling_of es height)"
| "data_ok B HL height cp (Ready a) \<longleftrightarrow> 0 < cp \<and> height \<le> cp"
| "data_ok B HL height cp (Admitted a) \<longleftrightarrow> 0 < cp \<and> height \<le> cp"
| "data_ok B HL height cp (Building a w) \<longleftrightarrow> 0 < cp \<and> height \<le> cp"
| "data_ok B HL height cp (Built a w t s) \<longleftrightarrow> 0 < cp \<and> height \<le> cp \<and> (\<exists>es. chain_prefix HL cp es \<and> tree_for B es t \<and> s = sibling_of es height)"
| "data_ok B HL height cp (Inserting a w t s b) \<longleftrightarrow> 0 < cp \<and> height \<le> cp \<and> (\<exists>es. chain_prefix HL cp es \<and> tree_for B es t \<and> s = sibling_of es height)"
| "data_ok B HL height cp (Inserted a w t s) \<longleftrightarrow> 0 < cp \<and> height \<le> cp \<and> (\<exists>es. chain_prefix HL cp es \<and> tree_for B es t \<and> s = sibling_of es height)"
| "data_ok B HL height cp (Charged a w t s) \<longleftrightarrow> 0 < cp \<and> height \<le> cp \<and> (\<exists>es. chain_prefix HL cp es \<and> tree_for B es t \<and> s = sibling_of es height)"
| "data_ok B HL height cp (Unwinding rs (Inr (t, s))) \<longleftrightarrow> 0 < cp \<and> height \<le> cp \<and> (\<exists>es. chain_prefix HL cp es \<and> tree_for B es t \<and> s = sibling_of es height)"
| "data_ok B HL height cp (Finished (Inr p)) \<longleftrightarrow> height \<le> cp \<and> (\<exists>es. chain_prefix HL cp es \<and> proof_for B es height p)"
| "data_ok B HL height cp _ \<longleftrightarrow> True"

lemma check_request_spec: "check_request hl height cp = Inr u \<Longrightarrow> height \<le> cp"
  by (auto simp: check_request_def split: if_splits)

lemma genesis_proof_spec:
  assumes "hl_inv hl" and "hl \<in> HL" and "genesis_proof hl = Inr p"
  shows "\<exists>es. chain_prefix HL 0 es \<and> proof_for B es 0 p"
proof -
  from assms(3) have l: "0 < length (headers hl)" and p: "p = ([], he_hash (headers hl ! 0), he_hash (headers hl ! 0))"
    by (auto simp: genesis_proof_def hash_at_spec [OF assms(1)] res_iffs split: if_splits)
  from prefix_nth(1) [OF assms(2) l] l have "chain_prefix HL 0 [he_hash (headers hl ! 0)]"
    by (simp add: take_Suc hd_conv_nth)
  then show ?thesis by (intro exI [of _ "[he_hash (headers hl ! 0)]"]) (simp add: p proof_for_def)
qed

text \<open>A tree found under the hash of the snapshot is the tree of the snapshot's chain.\<close>

lemma tree_matches_snapshot:
  assumes "lists_ok B HL" and "\<exists>es. chain_prefix HL cp es \<and> tree_for B es t \<and> h = last es"
    and "\<exists>es. chain_prefix HL cp es \<and> h = last es \<and> s = sibling_of es height"
  shows "\<exists>es. chain_prefix HL cp es \<and> tree_for B es t \<and> s = sibling_of es height"
  using assms chain_prefix_unique [OF assms(1)] by metis

lemma thread_step_data:
  assumes step: "thread_step B limit hl height cp pc c = Some (pc', c')"
    and lists: "lists_ok B HL" "hl \<in> HL" and trees: "trees_ok B HL c" and data: "data_ok B HL height cp pc"
    and lock: "holds pc = [] \<or> (\<exists>a. build_locks c cp = Some a \<and> stack a (holds pc) \<and> a < length (mc_slots c))"
    and inj: "inj_on (build_locks c) (dom (build_locks c))"
    and budget: "in_budget (cache_capacity_bytes c) (mc_entries c)" "cache_capacity_bytes c < 2 ^ 63"
  shows "data_ok B HL height cp pc' \<and> trees_ok B HL c'"
proof -
  have hl: "hl_inv hl" using lists by (auto simp: lists_ok_def)
  show ?thesis
  proof (cases pc)
    case Start
    with step trees check_request_spec [of hl height cp] show ?thesis by (auto split: sum.splits)
  next
    case Checked
    show ?thesis
    proof (cases "cp = 0")
      case True
      with step Checked have s: "pc' = Finished (genesis_proof hl)" "c' = c" by auto
      from True Checked data have "height = 0" by simp
      with True genesis_proof_spec [OF hl lists(2), of _ B] trees show ?thesis unfolding s by (cases "genesis_proof hl") auto
    next
      case False
      with step Checked have s: "c' = c" "pc' = (case snapshot_cp_hash_and_sibling hl height cp of
          Inl e \<Rightarrow> Finished (Inl e) | Inr (cp_hash, sibling) \<Rightarrow> Looking cp_hash sibling)" by auto
      with False Checked data trees snapshot_spec [OF hl lists(2), of height cp] show ?thesis
        by (cases "snapshot_cp_hash_and_sibling hl height cp") auto
    qed
  next
    case (Looking h s)
    show ?thesis
    proof (cases "get_valid c cp h")
      case None
      with step Looking data trees show ?thesis by auto
    next
      case (Some t)
      with step Looking have "pc' = Unwinding [] (Inr (t, s))" "c' = c" by auto
      with tree_matches_snapshot [OF lists(1) get_valid_spec [OF trees Some], of s height] Looking data trees show ?thesis by simp
    qed
  next
    case (Missed h s)
    obtain a c1 where bl: "build_lock_for c cp = (a, c1)" by (cases "build_lock_for c cp")
    with step Missed data build_lock_for_trees [OF trees bl] show ?thesis by auto
  next
    case (Queued h s a)
    with step data set_locked_trees [OF trees] show ?thesis by (auto split: option.splits if_splits)
  next
    case (Entered h s a)
    with lock have a: "build_locks c cp = Some a" "a < length (mc_slots c)" by auto
    show ?thesis
    proof (cases "enter_slot c cp h a")
      case None
      with step Entered data trees show ?thesis by auto
    next
      case (Some t)
      with step Entered have "pc' = Unwinding [SlotLock a, Guard a] (Inr (t, s))" "c' = c" by auto
      with tree_matches_snapshot [OF lists(1) enter_slot_spec [OF trees Some a], of s height] Entered data trees show ?thesis by simp
    qed
  next
    case (Building a w)
    show ?thesis
    proof (cases "checkpoint_build B hl height cp")
      case (Inl e)
      with step Building trees show ?thesis by auto
    next
      case (Inr x)
      obtain h levels s where x: "x = (h, levels, s)" by (cases x)
      with Inr step Building have "pc' = Built a w (cached_levels_new h levels) s" "c' = c" by auto
      with build_spec [OF hl lists(2) Inr [unfolded x]] Building data trees show ?thesis by simp
    qed
  next
    case (Inserting a w t s best)
    with step have c': "c' = cache_insert c cp best t" "pc' = Inserted a w t s" by auto
    note ins = cache_insert_entries [OF budget, of cp best t]
    have "build_locks c' = build_locks c" "retained c' = retained c" unfolding c' by (subst ins(3), simp add: retained_def fun_eq_iff)+
    moreover have "\<exists>es. chain_prefix HL cp es \<and> tree_for B es t" using data Inserting by auto
    ultimately have "trees_ok B HL c'" using trees ins(2) unfolding trees_ok_def c'(1) by fastforce
    with c' data Inserting show ?thesis by simp
  next
    case (Charged a w t s)
    with lock have a: "build_locks c cp = Some a" by auto
    from Charged data obtain es where es: "chain_prefix HL cp es" "tree_for B es t" by auto
    from step Charged have "pc' = Unwinding [Mem w, Permit, SlotLock a, Guard a] (Inr (t, s))" "c' = retain_tree c a t" by auto
    with retain_tree_trees [OF trees inj a es] data Charged show ?thesis by simp
  next
    case (Unwinding rs r)
    show ?thesis
    proof (cases rs)
      case Nil
      with step Unwinding have s: "pc' = Finished (proof_of_tree height r)" "c' = c" by auto
      show ?thesis
      proof (cases r)
        case (Inl e)
        with s trees show ?thesis by (simp add: proof_of_tree_def)
      next
        case (Inr x)
        obtain t s' where "x = (t, s')" by (cases x)
        with Inr Unwinding data obtain es where "chain_prefix HL cp es" "tree_for B es t" "s' = sibling_of es height" "0 < cp" "height \<le> cp" by auto
        with proof_of_tree_spec [OF this] s Inr \<open>x = (t, s')\<close> trees show ?thesis by auto
      qed
    next
      case (Cons y ys)
      with step Unwinding have s: "pc' = Unwinding ys r" "c' = release c cp y" by auto
      have "data_ok B HL height cp (Unwinding ys r)" using data Unwinding by (cases r) (auto split: prod.splits)
      with s release_trees [OF trees] show ?thesis by simp
    qed
  qed (use step data trees in \<open>auto simp: memory_charge_def trees_ok_def retained_def split: sum.splits option.splits if_splits prod.splits\<close>)
qed

section \<open>All requests\<close>

definition proofs_ok :: "bitcoin_lib \<Rightarrow> header_list set \<Rightarrow> proof_server \<Rightarrow> bool" where
  "proofs_ok B HL s \<longleftrightarrow> sv_headers s \<in> HL \<and> trees_ok B HL (sv_cache s) \<and>
     (\<forall>t \<in> set (sv_threads s). data_ok B HL (th_height t) (th_cp_height t) (th_pc t))"

lemma server_step_proofs:
  assumes "server_step B limit HL s s'" and "server_ok limit s" and "proofs_ok B HL s" and "lists_ok B HL"
    and "cache_capacity_bytes (sv_cache s) < 2 ^ 63"
  shows "proofs_ok B HL s'"
  using assms(1)
proof cases
  case (publish hl)
  with assms(3) show ?thesis by (simp add: proofs_ok_def)
next
  case (request height cp_height)
  with assms(3) show ?thesis by (simp add: proofs_ok_def)
next
  case (run i t pc' c')
  let ?c = "sv_cache s"
  have t: "t \<in> set (sv_threads s)" using run(2,3) by simp
  have ok: "resources_ok limit ?c (held (sv_threads s))" and wh: "well_held (build_locks ?c) t"
    and budget: "in_budget (cache_capacity_bytes ?c) (mc_entries ?c)"
    using assms(2) t by (simp_all add: server_ok_def)
  have "a < length (mc_slots ?c)" if "build_locks ?c (th_cp_height t) = Some a" for a
    using resources_okD(5) [OF ok that] by (auto dest: slot_atD)
  with wh have lock: "holds (th_pc t) = [] \<or>
      (\<exists>a. build_locks ?c (th_cp_height t) = Some a \<and> stack a (holds (th_pc t)) \<and> a < length (mc_slots ?c))"
    by (auto simp: well_held_def)
  have "data_ok B HL (th_height t) (th_cp_height t) pc' \<and> trees_ok B HL c'"
    by (rule thread_step_data [OF run(4) assms(4) _ _ _ lock resources_okD(7) [OF ok] budget assms(5)])
      (use assms(3) t in \<open>auto simp: proofs_ok_def\<close>)
  then show ?thesis using assms(3) run(1) by (auto simp: proofs_ok_def dest: set_update_subset_insert [THEN subsetD])
qed

lemma proof_reachable_proofs:
  assumes "proof_reachable B limit capacity HL s" and "limit < 2 ^ 64" and "capacity < 2 ^ 64" and "lists_ok B HL"
  shows "proofs_ok B HL s"
  using assms(1)
proof (induction rule: proof_reachable_induct)
  case (init hl)
  then show ?case
    by (simp add: proofs_ok_def server_init_def trees_ok_def checkpoint_cache_new_def with_cache_capacity_def)
next
  case (step s s')
  note ok = proof_reachable_ok [OF step(1) assms(2,3)]
  then have "cache_capacity_bytes (sv_cache s) < 2 ^ 63" using assms(3) by auto
  with server_step_proofs [OF step(2) _ step(3) assms(4)] ok show ?case by blast
qed

text \<open>
  Claim C3. A checkpoint proof that a request returns is right even when requests run in parallel, share
  cached trees and the chain is reorganised meanwhile: it belongs to one chain that the indexer
  published, the returned hash is the block of that chain at the checkpoint height, the root is that
  of all blocks up to it, and folding the branch from the block at the requested height gives the root.
\<close>

theorem checkpoint_proofs_correct:
  assumes "proof_reachable B limit capacity HL s" and "limit < 2 ^ 64" and "capacity < 2 ^ 64" and "lists_ok B HL"
    and "t \<in> set (sv_threads s)" and "th_pc t = Finished (Inr (branch, root, cp_hash))"
  shows "\<exists>hl \<in> HL. th_height t \<le> th_cp_height t \<and> th_cp_height t < length (headers hl) \<and>
    cp_hash = he_hash (headers hl ! th_cp_height t) \<and>
    root = tree_root B (map he_hash (take (Suc (th_cp_height t)) (headers hl))) \<and>
    path_root B (he_hash (headers hl ! th_height t)) (th_height t) branch = root"
proof -
  have "data_ok B HL (th_height t) (th_cp_height t) (th_pc t)"
    using proof_reachable_proofs [OF assms(1-4)] assms(5) by (simp add: proofs_ok_def)
  then obtain es where h: "th_height t \<le> th_cp_height t" and es: "chain_prefix HL (th_cp_height t) es"
    and p: "cp_hash = last es" "root = tree_root B es" "branch = tree_path B es (th_height t)"
    by (auto simp: assms(6) proof_for_def)
  from es obtain hl where hl: "hl \<in> HL" "th_cp_height t < length (headers hl)" "es = map he_hash (take (Suc (th_cp_height t)) (headers hl))"
    by (auto simp: chain_prefix_def)
  have "th_height t < length es" using h by (simp add: chain_prefix_length [OF es])
  from path_root_tree_path [OF this, of B] have "path_root B (es ! th_height t) (th_height t) branch = root" using p by simp
  moreover have "es ! th_height t = he_hash (headers hl ! th_height t)" using h hl by simp
  ultimately show ?thesis using hl h p prefix_nth(2) [OF hl(1,2)] by metis
qed

text \<open>One request run to its end on a chain of two blocks.\<close>

definition example_entries :: "header_entry list" where
  "example_entries = [\<lparr>he_height = 0, he_hash = 5, he_header = example_header 0 5 1000\<rparr>,
     \<lparr>he_height = 1, he_hash = 6, he_header = example_header 5 6 2000\<rparr>]"

definition example_list :: header_list where
  "example_list = \<lparr>headers = example_entries, heights = hash_index example_entries, tip = 6\<rparr>"

fun drive :: "bitcoin_lib \<Rightarrow> nat \<Rightarrow> nat \<Rightarrow> proof_server \<Rightarrow> proof_server" where
  "drive B limit 0 s = s"
| "drive B limit (Suc n) s =
     (case sv_threads s of
        [] \<Rightarrow> s
      | t # ts \<Rightarrow>
          (case thread_step B limit (sv_headers s) (th_height t) (th_cp_height t) (th_pc t) (sv_cache s) of
             None \<Rightarrow> s
           | Some (pc', c') \<Rightarrow> drive B limit n (s\<lparr>sv_cache := c', sv_threads := t\<lparr>th_pc := pc'\<rparr> # ts\<rparr>)))"

definition example_server :: proof_server where
  "example_server = drive example_lib 1 20
     (server_init 1000 example_list\<lparr>sv_threads := [\<lparr>th_height = 0, th_cp_height = 1, th_pc = Start\<rparr>]\<rparr>)"

lemma drive_reachable:
  "proof_reachable B limit capacity HL s \<Longrightarrow> proof_reachable B limit capacity HL (drive B limit n s)"
proof (induction n arbitrary: s)
  case (Suc n)
  show ?case
  proof (cases "sv_threads s")
    case (Cons t ts)
    show ?thesis
    proof (cases "thread_step B limit (sv_headers s) (th_height t) (th_cp_height t) (th_pc t) (sv_cache s)")
      case (Some x)
      obtain pc' c' where x: "x = (pc', c')" by (cases x)
      have "server_step B limit HL s (s\<lparr>sv_cache := c', sv_threads := (sv_threads s)[0 := t\<lparr>th_pc := pc'\<rparr>]\<rparr>)"
        by (rule run) (use Some x Cons in simp_all)
      with Suc.prems have "proof_reachable B limit capacity HL (s\<lparr>sv_cache := c', sv_threads := t\<lparr>th_pc := pc'\<rparr> # ts\<rparr>)"
        using Cons by (auto simp: proof_reachable_def intro: rtranclp.rtrancl_into_rtrancl)
      with Suc.IH Some x Cons show ?thesis by simp
    qed (use Suc Cons in simp)
  qed (use Suc in simp)
qed simp

lemma example_list_ok: "lists_ok example_lib {example_list}"
  by (auto simp: lists_ok_def example_list_def example_entries_def hl_inv_def last_hash_def DEFAULT_BLOCKHASH_def)

lemma example_reachable: "proof_reachable example_lib 1 1000 {example_list} example_server"
  unfolding example_server_def
proof (rule drive_reachable)
  have "server_step example_lib 1 {example_list} (server_init 1000 example_list)
      (server_init 1000 example_list\<lparr>sv_threads := sv_threads (server_init 1000 example_list) @ [\<lparr>th_height = 0, th_cp_height = 1, th_pc = Start\<rparr>]\<rparr>)"
    by (rule request)
  then show "proof_reachable example_lib 1 1000 {example_list}
      (server_init 1000 example_list\<lparr>sv_threads := [\<lparr>th_height = 0, th_cp_height = 1, th_pc = Start\<rparr>]\<rparr>)"
    by (auto simp: proof_reachable_def server_init_def)
qed

lemma drive_numeral:
  "drive B limit (numeral k) s =
     (case sv_threads s of
        [] \<Rightarrow> s
      | t # ts \<Rightarrow>
          (case thread_step B limit (sv_headers s) (th_height t) (th_cp_height t) (th_pc t) (sv_cache s) of
             None \<Rightarrow> s
           | Some (pc', c') \<Rightarrow> drive B limit (pred_numeral k) (s\<lparr>sv_cache := c', sv_threads := t\<lparr>th_pc := pc'\<rparr> # ts\<rparr>)))"
  by (simp add: numeral_eq_Suc)

lemma example_finished:
  "sv_threads example_server = [\<lparr>th_height = 0, th_cp_height = 1, th_pc = Finished (Inr ([6], merklize example_lib 5 6, 6))\<rparr>]"
  unfolding example_server_def server_init_def example_list_def example_entries_def
  by (simp add: drive_numeral checkpoint_cache_new_def with_cache_capacity_def check_request_def best_height_def hl_len_def
      snapshot_cp_hash_and_sibling_def hash_at_def header_by_height_def checkpoint_sibling_height_def sibling_index_def
      get_valid_def build_lock_for_def set_locked_def enter_slot_def rebuild_permit_acquire_def memory_permit_acquire_def
      estimated_peak_build_bytes_def saturating_mul_def checkpoint_build_def at_def build_levels_above_leaves_def
      build_levels.simps pad_even_def cached_levels_new_def cache_insert_def evictions_needed.simps MAX_CACHE_ENTRIES_def
      memory_charge_def retain_tree_def charge_of_def usize_sub_def guard_drop_def release_def proof_of_tree_def
      extract_branch_and_root_def)

theorem checkpoint_proofs_correct_witness:
  "map th_pc (sv_threads example_server) = [Finished (Inr ([6], merklize example_lib 5 6, 6))] \<and>
   path_root example_lib 5 0 [6] = merklize example_lib 5 6"
proof -
  let ?t = "\<lparr>th_height = 0, th_cp_height = 1, th_pc = Finished (Inr ([6], merklize example_lib 5 6, 6))\<rparr>"
  have "?t \<in> set (sv_threads example_server)" by (simp add: example_finished)
  from checkpoint_proofs_correct [OF example_reachable _ _ example_list_ok this]
  have "path_root example_lib 5 0 [6] = merklize example_lib 5 6" by (simp add: example_list_def example_entries_def)
  then show ?thesis by (simp add: example_finished)
qed

theorem checkpoint_resources_bounded_witness:
  "map th_pc (sv_threads example_server) = [Finished (Inr ([6], merklize example_lib 5 6, 6))] \<and>
   inflight_rebuilds (sv_cache example_server) = 0 \<and> inflight_build_bytes (sv_cache example_server) = 0 \<and>
   build_locks (sv_cache example_server) = Map.empty"
  using checkpoint_resources_bounded [OF example_reachable] by (simp add: example_finished)

section \<open>Every request ends\<close>

fun rank :: "pc \<Rightarrow> nat" where
  "rank Start = 18"
| "rank Checked = 17"
| "rank (Looking h s) = 16"
| "rank (Missed h s) = 15"
| "rank (Queued h s a) = 14"
| "rank (Entered h s a) = 13"
| "rank (Ready a) = 12"
| "rank (Admitted a) = 11"
| "rank (Building a w) = 10"
| "rank (Built a w t s) = 9"
| "rank (Inserting a w t s b) = 8"
| "rank (Inserted a w t s) = 7"
| "rank (Charged a w t s) = 6"
| "rank (Unwinding rs r) = Suc (length rs)"
| "rank (Finished r) = 0"

definition total_rank :: "proof_server \<Rightarrow> nat" where
  "total_rank s = sum_list (map (rank \<circ> th_pc) (sv_threads s))"

lemma thread_step_rank:
  assumes "thread_step B limit hl height cp pc c = Some (pc', c')"
  shows "rank pc' < rank pc"
proof (cases pc)
  case (Unwinding rs r)
  with assms show ?thesis by (cases rs) auto
qed (use assms in \<open>auto split: sum.splits option.splits if_splits prod.splits\<close>)

text \<open>Only a request that waits for the lock of its slot cannot step, and then the holder can.\<close>

lemma thread_can_step:
  assumes "\<And>r. pc \<noteq> Finished r" and "\<And>h s a. pc \<noteq> Queued h s a"
  shows "\<exists>pc' c'. thread_step B limit hl height cp pc c = Some (pc', c')"
proof (cases pc)
  case (Unwinding rs r)
  then show ?thesis by (cases rs) auto
next
  case (Missed h s)
  then show ?thesis by (cases "build_lock_for c cp") auto
qed (use assms in \<open>auto split: sum.splits option.splits prod.splits\<close>)

lemma some_thread_can_step:
  assumes "server_ok limit s" and "t \<in> set (sv_threads s)" and "\<And>r. th_pc t \<noteq> Finished r"
  shows "\<exists>i pc' c'. i < length (sv_threads s) \<and>
    thread_step B limit (sv_headers s) (th_height (sv_threads s ! i)) (th_cp_height (sv_threads s ! i)) (th_pc (sv_threads s ! i)) (sv_cache s) =
      Some (pc', c')"
proof (cases "\<exists>u \<in> set (sv_threads s). (\<forall>r. th_pc u \<noteq> Finished r) \<and> (\<forall>h x a. th_pc u \<noteq> Queued h x a)")
  case True
  then obtain i where i: "i < length (sv_threads s)" "\<And>r. th_pc (sv_threads s ! i) \<noteq> Finished r" "\<And>h x a. th_pc (sv_threads s ! i) \<noteq> Queued h x a"
    by (auto simp: in_set_conv_nth)
  show ?thesis by (rule exI [of _ i]) (use i(1) thread_can_step [OF i(2,3)] in simp)
next
  case False
  with assms(2,3) obtain h x a where q: "th_pc t = Queued h x a" by metis
  let ?c = "sv_cache s"
  have ok: "resources_ok limit ?c (held (sv_threads s))" and wh: "well_held (build_locks ?c) t"
    using assms(1,2) by (simp_all add: server_ok_def)
  have "SlotLock a \<notin> set (holds (th_pc u))" if "u \<in> set (sv_threads s)" for u
    using False that by (cases "th_pc u") auto
  then have "SlotLock a \<notin># held (sv_threads s)" by (auto simp: held_def)
  then have free: "count (held (sv_threads s)) (SlotLock a) = 0" by (simp add: count_eq_zero_iff)
  from wh q have "build_locks ?c (th_cp_height t) = Some a" by (auto simp: well_held_def)
  with resources_okD(5) [OF ok] obtain b where b: "slot_at (mc_slots ?c) a = Some b" by blast
  with resources_okD(4) [OF ok, of a] free have "\<not> bs_locked b" by (auto simp: slot_ok_def split: if_splits)
  moreover from assms(2) obtain i where "i < length (sv_threads s)" "sv_threads s ! i = t" by (auto simp: in_set_conv_nth)
  ultimately show ?thesis using slot_atD [OF b] q by (intro exI [of _ i]) simp
qed

lemma rank_sum: "(\<And>t. t \<in> set ts \<Longrightarrow> rank (th_pc t) \<le> n) \<Longrightarrow> sum_list (map (rank \<circ> th_pc) ts) \<le> n * length ts"
  by (induction ts) (simp_all add: add_le_mono)

lemma run_rank:
  assumes "i < length (sv_threads s)"
    and "thread_step B limit (sv_headers s) (th_height (sv_threads s ! i)) (th_cp_height (sv_threads s ! i)) (th_pc (sv_threads s ! i)) (sv_cache s) =
      Some (pc', c')"
  shows "total_rank (s\<lparr>sv_cache := c', sv_threads := (sv_threads s)[i := (sv_threads s ! i)\<lparr>th_pc := pc'\<rparr>]\<rparr>) < total_rank s"
proof -
  let ?ts = "sv_threads s"
  have split: "?ts = take i ?ts @ ?ts ! i # drop (Suc i) ?ts" by (rule id_take_nth_drop [OF assms(1)])
  have "sum_list (map (rank \<circ> th_pc) ?ts) =
      sum_list (map (rank \<circ> th_pc) (take i ?ts)) + rank (th_pc (?ts ! i)) + sum_list (map (rank \<circ> th_pc) (drop (Suc i) ?ts))"
    by (subst split) simp
  with thread_step_rank [OF assms(2)] show ?thesis
    using assms(1) by (simp add: total_rank_def upd_conv_take_nth_drop)
qed

lemma requests_can_end:
  assumes "server_ok limit s" and "limit < 2 ^ 64" and "cache_capacity_bytes (sv_cache s) < 2 ^ 63"
  shows "\<exists>s'. (server_step B limit HL)\<^sup>*\<^sup>* s s' \<and> length (sv_threads s') = length (sv_threads s) \<and>
    (\<forall>t \<in> set (sv_threads s'). \<exists>r. th_pc t = Finished r)"
  using assms
proof (induction "total_rank s" arbitrary: s rule: less_induct)
  case less
  show ?case
  proof (cases "\<forall>t \<in> set (sv_threads s). \<exists>r. th_pc t = Finished r")
    case False
    then obtain t where "t \<in> set (sv_threads s)" "\<And>r. th_pc t \<noteq> Finished r" by blast
    from some_thread_can_step [OF less.prems(1) this] obtain i pc' c' where i: "i < length (sv_threads s)"
      "thread_step B limit (sv_headers s) (th_height (sv_threads s ! i)) (th_cp_height (sv_threads s ! i)) (th_pc (sv_threads s ! i)) (sv_cache s) =
        Some (pc', c')" by blast
    let ?s = "s\<lparr>sv_cache := c', sv_threads := (sv_threads s)[i := (sv_threads s ! i)\<lparr>th_pc := pc'\<rparr>]\<rparr>"
    have st: "server_step B limit HL s ?s" by (rule run [OF i(1) refl i(2)])
    note ok = server_step_ok [OF st less.prems]
    from less.hyps [OF run_rank [OF i]] ok less.prems obtain s' where "(server_step B limit HL)\<^sup>*\<^sup>* ?s s'"
      "length (sv_threads s') = length (sv_threads ?s)" "\<forall>t \<in> set (sv_threads s'). \<exists>r. th_pc t = Finished r" by metis
    with st show ?thesis by (intro exI [of _ s']) (auto intro: converse_rtranclp_into_rtranclp)
  qed auto
qed

text \<open>
  Claim C15. Every request ends: a step of a request lowers its rank, of which it has at most 18, no
  other step raises the rank of a request, and while a request is not finished some request can
  step, so from every reachable state all requests can be run to their end. There is no deadlock
  on the build slots.
\<close>

theorem checkpoint_requests_end:
  assumes "proof_reachable B limit capacity HL s" and "limit < 2 ^ 64" and "capacity < 2 ^ 64"
  shows "total_rank s \<le> 18 * length (sv_threads s) \<and>
    (\<forall>s'. server_step B limit HL s s' \<longrightarrow> total_rank s' < total_rank s \<or> sv_threads s' = sv_threads s \<or>
       (\<exists>t. th_pc t = Start \<and> sv_threads s' = sv_threads s @ [t])) \<and>
    (\<exists>s'. (server_step B limit HL)\<^sup>*\<^sup>* s s' \<and> length (sv_threads s') = length (sv_threads s) \<and>
       (\<forall>t \<in> set (sv_threads s'). \<exists>r. th_pc t = Finished r))"
proof (intro conjI allI impI)
  have ok: "server_ok limit s" "cache_capacity_bytes (sv_cache s) < 2 ^ 63"
    using proof_reachable_ok [OF assms] assms(3) by auto
  have unwind: "length rs \<le> 5" if "stack a rs" for a rs using that by (auto simp: stack_def)
  have "rank (th_pc t) \<le> 18" if "t \<in> set (sv_threads s)" for t
  proof (cases "th_pc t")
    case (Unwinding rs r)
    from ok(1) that have "well_held (build_locks (sv_cache s)) t" by (simp add: server_ok_def)
    with Unwinding unwind [of _ rs] show ?thesis by (force simp: well_held_def)
  qed simp_all
  then show "total_rank s \<le> 18 * length (sv_threads s)"
    using rank_sum [of "sv_threads s"] by (simp add: total_rank_def)
  show "total_rank s' < total_rank s \<or> sv_threads s' = sv_threads s \<or> (\<exists>t. th_pc t = Start \<and> sv_threads s' = sv_threads s @ [t])"
    if "server_step B limit HL s s'" for s'
    using that
  proof cases
    case (run i t pc' c')
    with run_rank [of i s] show ?thesis by simp
  qed auto
  show "\<exists>s'. (server_step B limit HL)\<^sup>*\<^sup>* s s' \<and> length (sv_threads s') = length (sv_threads s) \<and>
       (\<forall>t \<in> set (sv_threads s'). \<exists>r. th_pc t = Finished r)"
    by (rule requests_can_end [OF ok(1) assms(2) ok(2)])
qed

theorem checkpoint_requests_end_witness:
  "total_rank example_server \<le> 18 \<and>
   (\<exists>s'. (server_step example_lib 1 {example_list})\<^sup>*\<^sup>* example_server s' \<and> length (sv_threads s') = 1)"
  using checkpoint_requests_end [OF example_reachable] by (auto simp: example_finished)

end
