(* ===== verification/Fees.thy ===== *)
theory Fees
  imports Complex_Main Chain "HOL-Library.Multiset"
begin

text \<open>
  Transaction fees and the fee histogram of \<^verbatim>\<open>src/util/fees.rs\<close>. The floating point values the code
  computes with stay far inside the exponent range and no negative one is divided: an \<open>f64\<close> is a
  finite rational, infinity or NaN, and every operation rounds to 53 significant bits, ties to
  even.
\<close>

section \<open>Floating point\<close>

datatype f64 = Fin rat | Inf | NaN

fun bit_len :: "nat \<Rightarrow> nat" where
  "bit_len n = (if n = 0 then 0 else Suc (bit_len (n div 2)))"

declare bit_len.simps [simp del]

definition round_even :: "rat \<Rightarrow> int" where
  "round_even x =
     (let f = \<lfloor>x\<rfloor>; r = x - of_int f in
      if r < 1 / 2 then f else if r > 1 / 2 then f + 1 else if even f then f else f + 1)"

definition round_pos :: "rat \<Rightarrow> rat" where
  "round_pos x =
     (case quotient_of x of (n, d) \<Rightarrow>
       if n \<le> 0 then 0
       else
         let e0 = int (bit_len (nat n)) - int (bit_len (nat d));
             e = (if x < 2 powi e0 then e0 - 1 else e0)
         in of_int (round_even (x * 2 powi (52 - e))) * 2 powi (e - 52))"

definition round_f64 :: "rat \<Rightarrow> rat" where
  "round_f64 x = (if x < 0 then - round_pos (- x) else round_pos x)"

definition f64_of_u64 :: "u64 \<Rightarrow> f64" where
  "f64_of_u64 w = Fin (round_f64 (of_nat (unat w)))"

fun f64_div :: "f64 \<Rightarrow> f64 \<Rightarrow> f64" where
  "f64_div (Fin a) (Fin b) = (if b = 0 then (if a = 0 then NaN else Inf) else Fin (round_f64 (a / b)))"
| "f64_div (Fin a) Inf = Fin 0"
| "f64_div Inf (Fin b) = Inf"
| "f64_div _ _ = NaN"

fun f64_mul_rat :: "f64 \<Rightarrow> rat \<Rightarrow> f64" where
  "f64_mul_rat (Fin a) b = Fin (round_f64 (a * b))"
| "f64_mul_rat Inf b = Inf"
| "f64_mul_rat NaN b = NaN"

fun f64_ceil_u64 :: "f64 \<Rightarrow> u64" where
  "f64_ceil_u64 (Fin a) = of_nat (min (nat \<lceil>a\<rceil>) (2 ^ 64 - 1))"
| "f64_ceil_u64 Inf = - 1"
| "f64_ceil_u64 NaN = 0"

text \<open>\<open>!=\<close> on floating point numbers: NaN differs from itself.\<close>

definition f64_ne :: "f64 \<Rightarrow> f64 \<Rightarrow> bool" where
  "f64_ne a b \<longleftrightarrow> a = NaN \<or> b = NaN \<or> a \<noteq> b"

text \<open>The order \<open>partial_cmp\<close> decides, with NaN, on which it returns \<open>None\<close>, at the end.\<close>

instantiation f64 :: linorder
begin

fun less_eq_f64 :: "f64 \<Rightarrow> f64 \<Rightarrow> bool" where
  "less_eq_f64 (Fin a) (Fin b) = (a \<le> b)"
| "less_eq_f64 (Fin a) _ = True"
| "less_eq_f64 Inf (Fin b) = False"
| "less_eq_f64 Inf _ = True"
| "less_eq_f64 NaN b = (b = NaN)"

definition less_f64 :: "f64 \<Rightarrow> f64 \<Rightarrow> bool" where
  "less_f64 a b \<longleftrightarrow> a \<le> b \<and> \<not> b \<le> (a :: f64)"

instance
proof
  fix x y z :: f64
  show "x < y \<longleftrightarrow> x \<le> y \<and> \<not> y \<le> x" by (simp add: less_f64_def)
  show "x \<le> x" by (cases x) simp_all
  show "x \<le> z" if "x \<le> y" "y \<le> z" using that by (cases x; cases y; cases z) simp_all
  show "x = y" if "x \<le> y" "y \<le> x" using that by (cases x; cases y) simp_all
  show "x \<le> y \<or> y \<le> x" by (cases x; cases y) auto
qed

end

section \<open>Fees\<close>

definition VSIZE_BIN_WIDTH :: u64 where
  "VSIZE_BIN_WIDTH = 50000"

record tx_fee_info =
  fi_fee :: u64
  fi_vsize :: u64
  fee_per_vbyte :: f64

text \<open>The difference wraps in a release build; \<open>prevouts\<close> lists the previous outputs by input.\<close>

definition get_tx_fee :: "bitcoin_lib \<Rightarrow> transaction \<Rightarrow> (u32 \<times> txout) list \<Rightarrow> u64" where
  "get_tx_fee B tx prevouts =
     (if tx_is_coinbase B tx then 0
      else sum_list (map (txo_value \<circ> snd) prevouts) - sum_list (map txo_value (tx_output tx)))"

definition tx_fee_info_new :: "bitcoin_lib \<Rightarrow> transaction \<Rightarrow> (u32 \<times> txout) list \<Rightarrow> tx_fee_info" where
  "tx_fee_info_new B tx prevouts =
     (let fee = get_tx_fee B tx prevouts;
          vsize_float = f64_div (f64_of_u64 (tx_weight B tx)) (Fin 4)
      in \<lparr>fi_fee = fee, fi_vsize = f64_ceil_u64 vsize_float, fee_per_vbyte = f64_div (f64_of_u64 fee) vsize_float\<rparr>)"

section \<open>The histogram\<close>

fun histogram_loop :: "u64 \<Rightarrow> f64 \<Rightarrow> tx_fee_info list \<Rightarrow> (f64 \<times> u64) list" where
  "histogram_loop bin_size last_fee_rate [] = (if bin_size > 0 then [(last_fee_rate, bin_size)] else [])"
| "histogram_loop bin_size last_fee_rate (e # es) =
     (if bin_size > VSIZE_BIN_WIDTH \<and> f64_ne last_fee_rate (fee_per_vbyte e)
      then (last_fee_rate, bin_size) # histogram_loop (fi_vsize e) (fee_per_vbyte e) es
      else histogram_loop (bin_size + fi_vsize e) (fee_per_vbyte e) es)"

text \<open>Comparing a NaN panics; a sort of two entries or more compares every entry.\<close>

definition make_fee_histogram :: "tx_fee_info list \<Rightarrow> (f64 \<times> u64) list res" where
  "make_fee_histogram entries =
     (if length entries \<ge> 2 \<and> (\<exists>e \<in> set entries. fee_per_vbyte e = NaN)
      then Inl (Panic ''called `Option::unwrap()` on a `None` value'')
      else Inr (histogram_loop 0 (Fin 0) (rev (sort_key fee_per_vbyte entries))))"

section \<open>What the histogram shows\<close>

definition vsize_at_least :: "f64 \<Rightarrow> tx_fee_info list \<Rightarrow> nat" where
  "vsize_at_least r es = sum_list (map (\<lambda>e. unat (fi_vsize e)) (filter (\<lambda>e. r \<le> fee_per_vbyte e) es))"

abbreviation total_vsize :: "tx_fee_info list \<Rightarrow> nat" where
  "total_vsize es \<equiv> sum_list (map (\<lambda>e. unat (fi_vsize e)) es)"

lemma histogram_loop_rates:
  assumes "sorted_wrt (\<ge>) (r # map fee_per_vbyte es)" and "(r', n) \<in> set (histogram_loop s r es)"
  shows "r' \<le> r"
  using assms
proof (induction s r es rule: histogram_loop.induct)
  case (2 s r e es)
  then show ?case by (auto split: if_splits intro: order_trans)
qed (auto split: if_splits)

lemma vsize_at_least_none: "\<forall>e \<in> set es. fee_per_vbyte e < r \<Longrightarrow> vsize_at_least r es = 0"
  by (induction es) (auto simp: vsize_at_least_def)

lemma histogram_loop_cumulative:
  assumes "sorted_wrt (\<ge>) (r # map fee_per_vbyte es)" and "unat s + total_vsize es < 2 ^ 64"
    and "NaN \<notin> set (r # map fee_per_vbyte es)" and "k < length (histogram_loop s r es)"
  shows "sum_list (map (\<lambda>bin. unat (snd bin)) (take (Suc k) (histogram_loop s r es))) =
    unat s + vsize_at_least (fst (histogram_loop s r es ! k)) es"
  using assms
proof (induction s r es arbitrary: k rule: histogram_loop.induct)
  case (1 s r)
  then show ?case by (auto simp: vsize_at_least_def split: if_splits)
next
  case (2 s r e es)
  let ?emit = "s > VSIZE_BIN_WIDTH \<and> f64_ne r (fee_per_vbyte e)"
  have sorted: "sorted_wrt (\<ge>) (fee_per_vbyte e # map fee_per_vbyte es)" using "2.prems"(1) by simp
  have small: "unat s + unat (fi_vsize e) + total_vsize es < 2 ^ 64"
    using "2.prems"(2) by (simp add: comp_def add.assoc)
  have nan: "NaN \<notin> set (fee_per_vbyte e # map fee_per_vbyte es)" using "2.prems"(3) by simp
  show ?case
  proof (cases ?emit)
    case True
    let ?h = "histogram_loop (fi_vsize e) (fee_per_vbyte e) es"
    have h: "histogram_loop s r (e # es) = (r, s) # ?h" using True by simp
    show ?thesis
    proof (cases k)
      case 0
      have "fee_per_vbyte e < r" using True "2.prems"(1,3) by (auto simp: f64_ne_def)
      then have "\<forall>x \<in> set (e # es). fee_per_vbyte x < r" using sorted by auto
      then have "vsize_at_least r (e # es) = 0" by (rule vsize_at_least_none)
      then show ?thesis unfolding h using 0 by simp
    next
      case (Suc j)
      then have j: "j < length ?h" using "2.prems"(4) h by simp
      then obtain r' n where p: "?h ! j = (r', n)" and "(r', n) \<in> set ?h" by (metis nth_mem surj_pair)
      then have "r' \<le> fee_per_vbyte e" using histogram_loop_rates [OF sorted] by blast
      moreover have "unat (fi_vsize e) + total_vsize es < 2 ^ 64" using small by simp
      ultimately show ?thesis using "2.IH"(1) [OF True sorted _ nan j] h Suc p
        by (simp add: vsize_at_least_def)
    qed
  next
    case False
    let ?h = "histogram_loop (s + fi_vsize e) (fee_per_vbyte e) es"
    have h: "histogram_loop s r (e # es) = ?h" using False by (simp only: histogram_loop.simps if_False)
    have u: "unat (s + fi_vsize e) = unat s + unat (fi_vsize e)"
      using small by (intro unat_add_lem [THEN iffD1]) simp
    have k: "k < length ?h" using "2.prems"(4) h by simp
    then obtain r' n where p: "?h ! k = (r', n)" and "(r', n) \<in> set ?h" by (metis nth_mem surj_pair)
    then have "r' \<le> fee_per_vbyte e" using histogram_loop_rates [OF sorted] by blast
    moreover have "unat (s + fi_vsize e) + total_vsize es < 2 ^ 64" using small unfolding u .
    ultimately show ?thesis using "2.IH"(2) [OF False sorted _ nan k] u h p
      by (simp add: vsize_at_least_def)
  qed
qed

lemma histogram_loop_decreasing:
  assumes "sorted_wrt (\<ge>) (r # map fee_per_vbyte es)" and "NaN \<notin> set (r # map fee_per_vbyte es)"
  shows "sorted_wrt (>) (map fst (histogram_loop s r es))"
  using assms
proof (induction s r es rule: histogram_loop.induct)
  case (2 s r e es)
  have sorted: "sorted_wrt (\<ge>) (fee_per_vbyte e # map fee_per_vbyte es)" using "2.prems"(1) by simp
  have nan: "NaN \<notin> set (fee_per_vbyte e # map fee_per_vbyte es)" using "2.prems"(2) by simp
  have "r' < r" if "(r', n) \<in> set (histogram_loop (fi_vsize e) (fee_per_vbyte e) es)" "r \<noteq> fee_per_vbyte e" for r' n
    using histogram_loop_rates [OF sorted that(1)] "2.prems"(1) that(2) by auto
  then show ?case using "2.IH" sorted nan by (auto simp: f64_ne_def)
qed simp

lemma histogram_loop_total:
  assumes "unat s + total_vsize es < 2 ^ 64"
  shows "sum_list (map (\<lambda>bin. unat (snd bin)) (histogram_loop s r es)) = unat s + total_vsize es"
  using assms
proof (induction s r es rule: histogram_loop.induct)
  case (1 s r)
  then show ?case by (auto simp: word_less_nat_alt word_gt_0)
next
  case (2 s r e es)
  have "unat (s + fi_vsize e) = unat s + unat (fi_vsize e)"
    using "2.prems" by (intro unat_add_lem [THEN iffD1]) simp
  then show ?case using 2 by auto
qed

lemma histogram_loop_bins:
  "k + 1 < length (histogram_loop s r es) \<Longrightarrow> snd (histogram_loop s r es ! k) > VSIZE_BIN_WIDTH"
proof (induction s r es arbitrary: k rule: histogram_loop.induct)
  case (2 s r e es)
  then show ?case by (cases k) (auto split: if_splits)
qed (auto split: if_splits)

text \<open>Entries of one fee rate may be met in any order.\<close>

lemma histogram_loop_move:
  assumes "\<forall>y \<in> set ys. fee_per_vbyte y = fee_per_vbyte x" and "fee_per_vbyte x \<noteq> NaN"
  shows "histogram_loop s r (ys @ x # zs) = histogram_loop s r (x # ys @ zs)"
  using assms
proof (induction ys arbitrary: s r)
  case (Cons y ys)
  then show ?case by (auto simp: f64_ne_def add_ac)
qed simp

lemma histogram_loop_mset:
  assumes "mset xs = mset ys" and "sorted_wrt (\<ge>) (map fee_per_vbyte xs)" and "sorted_wrt (\<ge>) (map fee_per_vbyte ys)"
    and "\<forall>e \<in> set xs. fee_per_vbyte e \<noteq> NaN"
  shows "histogram_loop s r xs = histogram_loop s r ys"
  using assms
proof (induction xs arbitrary: ys s r)
  case (Cons x xs)
  have "x \<in> set ys" using Cons.prems(1) by (metis list.set_intros(1) mset_eq_setD)
  then obtain ys1 ys2 where ys: "ys = ys1 @ x # ys2" by (auto dest: split_list)
  have m: "mset xs = mset (ys1 @ ys2)" using Cons.prems(1) ys by simp
  have "fee_per_vbyte y = fee_per_vbyte x" if y: "y \<in> set ys1" for y
  proof (rule antisym)
    have "y \<in> set xs" using m y by (metis Un_iff mset_eq_setD set_append)
    then show "fee_per_vbyte y \<le> fee_per_vbyte x" using Cons.prems(2) by auto
    show "fee_per_vbyte x \<le> fee_per_vbyte y" using Cons.prems(3) ys y by (auto simp: sorted_wrt_append)
  qed
  then have move: "histogram_loop s r ys = histogram_loop s r (x # ys1 @ ys2)"
    unfolding ys using Cons.prems(4) by (intro histogram_loop_move) auto
  have "sorted_wrt (\<ge>) (map fee_per_vbyte (ys1 @ ys2))" using Cons.prems(3) ys by (auto simp: sorted_wrt_append)
  then have "histogram_loop s' r' xs = histogram_loop s' r' (ys1 @ ys2)" for s' r'
    using Cons.IH [OF m _ _] Cons.prems(2,4) by simp
  then show ?case unfolding move by simp
qed simp

definition no_nan :: "tx_fee_info list \<Rightarrow> bool" where
  "no_nan es = list_all (\<lambda>e. fee_per_vbyte e \<noteq> NaN) es"

lemma make_fee_histogram_Inr: "no_nan es \<Longrightarrow>
    make_fee_histogram es = Inr (histogram_loop 0 (Fin 0) (rev (sort_key fee_per_vbyte es)))"
  by (auto simp: make_fee_histogram_def no_nan_def list_all_iff)

lemma sorted_rev_sort_key: "sorted_wrt (\<ge>) (map f (rev (sort_key f es)))"
  by (simp add: rev_map [symmetric] sorted_wrt_rev)

lemma vsize_at_least_mset: "mset xs = mset ys \<Longrightarrow> vsize_at_least r xs = vsize_at_least r ys"
proof -
  assume "mset xs = mset ys"
  then have "sum_mset (image_mset (\<lambda>e. unat (fi_vsize e)) (filter_mset (\<lambda>e. r \<le> fee_per_vbyte e) (mset xs))) =
    sum_mset (image_mset (\<lambda>e. unat (fi_vsize e)) (filter_mset (\<lambda>e. r \<le> fee_per_vbyte e) (mset ys)))" by simp
  then show ?thesis unfolding vsize_at_least_def
    by (simp only: mset_filter [symmetric] mset_map [symmetric] sum_mset_sum_list)
qed

text \<open>
  Claim C38. The fee histogram: for transactions of comparable fee rates whose sizes do not overflow a
  \<open>u64\<close> in total, \<open>make_fee_histogram\<close> does not panic and returns bins of strictly decreasing fee rate, all
  but the last wider than \<open>VSIZE_BIN_WIDTH\<close>, such that the sizes of the bins up to one of rate \<open>r\<close>
  add up to the size of all transactions that pay at least \<open>r\<close>, and those of all bins to the size of
  all transactions; the result does not depend on the order in which the transactions are listed.
\<close>

theorem fee_histogram_correct:
  assumes "no_nan es" and "total_vsize es < 2 ^ 64"
  shows "\<exists>hist. make_fee_histogram es = Inr hist \<and>
    sorted_wrt (>) (map fst hist) \<and>
    (\<forall>k. k + 1 < length hist \<longrightarrow> snd (hist ! k) > VSIZE_BIN_WIDTH) \<and>
    (\<forall>k < length hist. sum_list (map (\<lambda>bin. unat (snd bin)) (take (Suc k) hist)) = vsize_at_least (fst (hist ! k)) es) \<and>
    sum_list (map (\<lambda>bin. unat (snd bin)) hist) = total_vsize es \<and>
    (\<forall>es'. mset es' = mset es \<longrightarrow> make_fee_histogram es' = Inr hist)"
proof -
  define xs where "xs = rev (sort_key fee_per_vbyte es)"
  have m: "mset xs = mset es" and sorted: "sorted_wrt (\<ge>) (map fee_per_vbyte xs)"
    unfolding xs_def by (simp, rule sorted_rev_sort_key)
  have nan: "\<forall>e \<in> set xs. fee_per_vbyte e \<noteq> NaN" using assms(1) m
    by (simp add: no_nan_def list_all_iff xs_def)
  have tot: "total_vsize xs = total_vsize es" using m by (metis mset_map sum_mset_sum_list)
  let ?h = "histogram_loop 0 (Fin 0) xs"
  have perm: "make_fee_histogram es' = Inr ?h" if "mset es' = mset es" for es'
  proof -
    have "no_nan es'" using assms(1) mset_eq_setD [OF that] by (simp add: no_nan_def list_all_iff)
    moreover have "histogram_loop 0 (Fin 0) (rev (sort_key fee_per_vbyte es')) = ?h"
      using that nan m sorted sorted_rev_sort_key [of fee_per_vbyte es']
      by (intro histogram_loop_mset [symmetric]) auto
    ultimately show ?thesis by (simp add: make_fee_histogram_Inr)
  qed
  have "sorted_wrt (>) (map fst ?h) \<and>
    (\<forall>k < length ?h. sum_list (map (\<lambda>bin. unat (snd bin)) (take (Suc k) ?h)) = vsize_at_least (fst (?h ! k)) xs)"
  proof (cases xs)
    case Nil
    then show ?thesis by simp
  next
    case (Cons e ys)
    have h: "?h = histogram_loop (fi_vsize e) (fee_per_vbyte e) ys" using Cons by (simp add: VSIZE_BIN_WIDTH_def)
    have pre: "sorted_wrt (\<ge>) (fee_per_vbyte e # map fee_per_vbyte ys)" "NaN \<notin> set (fee_per_vbyte e # map fee_per_vbyte ys)"
      "unat (fi_vsize e) + total_vsize ys < 2 ^ 64"
      using sorted nan assms(2) tot Cons by auto
    have "sum_list (map (\<lambda>bin. unat (snd bin)) (take (Suc k) ?h)) = vsize_at_least (fst (?h ! k)) xs" if k: "k < length ?h" for k
    proof -
      obtain r n where p: "?h ! k = (r, n)" and "(r, n) \<in> set ?h" using k by (metis nth_mem surj_pair)
      then have "r \<le> fee_per_vbyte e" using histogram_loop_rates [OF pre(1)] h by metis
      then show ?thesis using histogram_loop_cumulative [OF pre(1,3,2)] k h p Cons by (simp add: vsize_at_least_def)
    qed
    then show ?thesis using histogram_loop_decreasing [OF pre(1,2)] h by simp
  qed
  moreover have "sum_list (map (\<lambda>bin. unat (snd bin)) ?h) = total_vsize es"
    using histogram_loop_total [of 0 xs "Fin 0"] assms(2) tot by simp
  ultimately show ?thesis using perm histogram_loop_bins vsize_at_least_mset [OF m] by (intro exI [of _ ?h]) simp
qed

definition example_fees :: "tx_fee_info list" where
  "example_fees =
     [\<lparr>fi_fee = 300000, fi_vsize = 60000, fee_per_vbyte = Fin 5\<rparr>,
      \<lparr>fi_fee = 200, fi_vsize = 200, fee_per_vbyte = Fin 1\<rparr>,
      \<lparr>fi_fee = 1000, fi_vsize = 100, fee_per_vbyte = Fin 10\<rparr>]"

theorem fee_histogram_correct_witness:
  "no_nan example_fees \<and> total_vsize example_fees < 2 ^ 64 \<and>
   make_fee_histogram example_fees = Inr [(Fin 5, 60100), (Fin 1, 200)] \<and>
   vsize_at_least (Fin 5) example_fees = 60100 \<and>
   make_fee_histogram (rev example_fees) = Inr [(Fin 5, 60100), (Fin 1, 200)]"
proof -
  have pre: "no_nan example_fees" "total_vsize example_fees < 2 ^ 64"
    by (simp_all add: no_nan_def example_fees_def)
  have h: "make_fee_histogram example_fees = Inr [(Fin 5, 60100), (Fin 1, 200)]"
    using pre(1) by (simp add: make_fee_histogram_Inr) (simp add: example_fees_def VSIZE_BIN_WIDTH_def f64_ne_def)
  obtain hist where hist: "make_fee_histogram example_fees = Inr hist"
      "\<forall>k < length hist. sum_list (map (\<lambda>bin. unat (snd bin)) (take (Suc k) hist)) = vsize_at_least (fst (hist ! k)) example_fees"
      "\<forall>es'. mset es' = mset example_fees \<longrightarrow> make_fee_histogram es' = Inr hist"
    using fee_histogram_correct [OF pre] by blast
  then have eq: "hist = [(Fin 5, 60100), (Fin 1, 200)]" using h by simp
  have "vsize_at_least (Fin 5) example_fees = 60100" using hist(2) unfolding eq by force
  moreover have "make_fee_histogram (rev example_fees) = Inr [(Fin 5, 60100), (Fin 1, 200)]" using hist(3) unfolding eq by simp
  ultimately show ?thesis using pre h by simp
qed

end
