(* ===== verification/Mempool.thy ===== *)
theory Mempool
  imports Query Fees "HOL-Library.AList"
begin

text \<open>
  The unconfirmed transactions of \<^verbatim>\<open>src/new_index/mempool.rs\<close>: the local view of the daemon's mempool with
  its fee, history and spend indexes, the queries on it and its synchronisation with the daemon.

  A \<open>HashMap\<close> is an association list with one entry a key, in one of the orders an iteration may
  take; a \<open>HashSet\<close> of transaction ids is a list. The \<open>RwLock\<close> around the mempool makes a
  function that takes the lock once an atomic step; \<open>update\<close> takes it several times and is split
  at these points. \<open>Instant::now()\<close> is an argument, in nanoseconds.
\<close>

section \<open>State\<close>

definition RECENT_TXS_SIZE :: nat where
  "RECENT_TXS_SIZE = 10"

definition BACKLOG_STATS_TTL :: nat where
  "BACKLOG_STATS_TTL = 10"

definition from_secs :: "nat \<Rightarrow> nat" where
  "from_secs n = n * 1000000000"

datatype mempool_sync_status = Synced | TipMoved | FailedToIndex

record tx_overview =
  ov_txid :: txid
  ov_fee :: u64
  ov_vsize :: u64
  ov_value :: u64

record backlog_stats =
  bs_count :: u32
  bs_vsize :: u64
  bs_total_fee :: u64
  bs_fee_histogram :: "(f64 \<times> u64) list"

type_synonym tx_map = "(txid \<times> transaction) list"

record 'db mempool =
  mp_chain :: "'db chain_query"
  mp_config :: indexer_config
  mp_txstore :: tx_map
  mp_feeinfo :: "(txid \<times> tx_fee_info) list"
  mp_tx_scripthashes :: "(txid \<times> fullhash list) list"
  mp_history :: "(fullhash \<times> tx_history_info list) list"
  mp_edges :: "(outpoint \<times> (txid \<times> u32)) list"
  mp_recent :: "tx_overview list"
  mp_backlog_stats :: "backlog_stats \<times> nat"

definition backlog_stats_default :: backlog_stats where
  "backlog_stats_default = \<lparr>bs_count = 0, bs_vsize = 0, bs_total_fee = 0, bs_fee_histogram = [(Fin 0, 0)]\<rparr>"

definition from_feeinfo_slice :: "tx_fee_info list \<Rightarrow> backlog_stats res" where
  "from_feeinfo_slice fees =
     rmap (\<lambda>histogram.
         \<lparr>bs_count = of_nat (length fees), bs_vsize = sum_list (map fi_vsize fees),
          bs_total_fee = sum_list (map fi_fee fees), bs_fee_histogram = histogram\<rparr>)
       (make_fee_histogram fees)"

definition mempool_new :: "nat \<Rightarrow> 'db chain_query \<Rightarrow> indexer_config \<Rightarrow> 'db mempool" where
  "mempool_new now chain config =
     \<lparr>mp_chain = chain, mp_config = config, mp_txstore = [], mp_feeinfo = [], mp_tx_scripthashes = [],
      mp_history = [], mp_edges = [], mp_recent = [],
      mp_backlog_stats = (backlog_stats_default, if from_secs BACKLOG_STATS_TTL \<le> now then now - from_secs BACKLOG_STATS_TTL else now)\<rparr>"

section \<open>Lookups\<close>

definition mempool_lookup_txn :: "'db mempool \<Rightarrow> txid \<Rightarrow> transaction option" where
  "mempool_lookup_txn mp txid = map_of (mp_txstore mp) txid"

definition mempool_lookup_raw_txn :: "bitcoin_lib \<Rightarrow> 'db mempool \<Rightarrow> txid \<Rightarrow> bytes option" where
  "mempool_lookup_raw_txn B mp txid = map_option (ser_tx B) (map_of (mp_txstore mp) txid)"

definition mempool_lookup_spend :: "'db mempool \<Rightarrow> outpoint \<Rightarrow> spending_input option" where
  "mempool_lookup_spend mp p =
     map_option (\<lambda>(txid, vin). \<lparr>sp_txid = txid, sp_vin = vin, sp_confirmed = None\<rparr>) (map_of (mp_edges mp) p)"

definition has_spend :: "'db mempool \<Rightarrow> outpoint \<Rightarrow> bool" where
  "has_spend mp p = (map_of (mp_edges mp) p \<noteq> None)"

definition mempool_get_tx_fee :: "'db mempool \<Rightarrow> txid \<Rightarrow> u64 option" where
  "mempool_get_tx_fee mp txid = map_option fi_fee (map_of (mp_feeinfo mp) txid)"

definition has_unconfirmed_parents :: "'db mempool \<Rightarrow> txid \<Rightarrow> bool" where
  "has_unconfirmed_parents mp txid =
     (case map_of (mp_txstore mp) txid of
        None \<Rightarrow> False
      | Some tx \<Rightarrow> list_ex (\<lambda>txin. map_of (mp_txstore mp) (op_txid (previous_output txin)) \<noteq> None) (tx_input tx))"

text \<open>\<open>unique()\<close> keeps the first of equal items.\<close>

fun unique :: "'a list \<Rightarrow> 'a list" where
  "unique [] = []"
| "unique (x # xs) = x # filter (\<lambda>y. y \<noteq> x) (unique xs)"

definition mempool_history_of :: "'db mempool \<Rightarrow> tx_history_info list \<Rightarrow> nat \<Rightarrow> transaction list res" where
  "mempool_history_of mp entries limit =
     collect (map (\<lambda>txid. expect ''missing mempool tx'' (map_of (mp_txstore mp) txid))
       (take limit (unique (map info_txid entries))))"

definition mempool_history :: "'db mempool \<Rightarrow> fullhash \<Rightarrow> nat \<Rightarrow> transaction list res" where
  "mempool_history mp scripthash limit =
     (case map_of (mp_history mp) scripthash of
        None \<Rightarrow> Inr []
      | Some entries \<Rightarrow> mempool_history_of mp entries limit)"

definition mempool_history_txids :: "'db mempool \<Rightarrow> fullhash \<Rightarrow> nat \<Rightarrow> txid list" where
  "mempool_history_txids mp scripthash limit =
     (case map_of (mp_history mp) scripthash of
        None \<Rightarrow> []
      | Some entries \<Rightarrow> take limit (unique (map info_txid entries)))"

definition funding_utxo :: "tx_history_info \<Rightarrow> utxo option" where
  "funding_utxo entry =
     (case entry of
        Funding info \<Rightarrow> Some \<lparr>ut_txid = fi_txid info, ut_vout = fi_vout info, ut_confirmed = None, ut_value = fi_value info\<rparr>
      | Spending _ \<Rightarrow> None)"

definition mempool_utxo :: "'db mempool \<Rightarrow> fullhash \<Rightarrow> utxo list res" where
  "mempool_utxo mp scripthash =
     (case map_of (mp_history mp) scripthash of
        None \<Rightarrow> Inr []
      | Some entries \<Rightarrow>
          rbind (ensure (length entries \<le> utxos_checkpoint_limit (mp_chain mp)) TooBigHistory) (\<lambda>_.
            Inr (filter (\<lambda>u. \<not> has_spend mp (outpoint_from_utxo u)) (List.map_filter funding_utxo entries))))"

fun mempool_stats_loop :: "tx_history_info list \<Rightarrow> txid set \<Rightarrow> script_stats \<Rightarrow> script_stats" where
  "mempool_stats_loop [] seen s = s"
| "mempool_stats_loop (entry # entries) seen s =
     (let s1 = (if info_txid entry \<notin> seen then s\<lparr>ss_tx_count := ss_tx_count s + 1\<rparr> else s);
          s2 = (case entry of
              Funding info \<Rightarrow> s1\<lparr>funded_txo_count := funded_txo_count s1 + 1, funded_txo_sum := funded_txo_sum s1 + fi_value info\<rparr>
            | Spending info \<Rightarrow> s1\<lparr>spent_txo_count := spent_txo_count s1 + 1, spent_txo_sum := spent_txo_sum s1 + si_value info\<rparr>)
      in mempool_stats_loop entries (insert (info_txid entry) seen) s2)"

definition mempool_stats :: "'db mempool \<Rightarrow> fullhash \<Rightarrow> script_stats res" where
  "mempool_stats mp scripthash =
     (case map_of (mp_history mp) scripthash of
        None \<Rightarrow> Inr stats_default
      | Some entries \<Rightarrow>
          rbind (ensure (length entries \<le> utxos_checkpoint_limit (mp_chain mp)) TooBigHistory) (\<lambda>_.
            Inr (mempool_stats_loop entries {} stats_default)))"

definition mempool_txids :: "'db mempool \<Rightarrow> txid list" where
  "mempool_txids mp = map fst (mp_txstore mp)"

definition update_backlog_stats :: "nat \<Rightarrow> 'db mempool \<Rightarrow> 'db mempool res" where
  "update_backlog_stats now mp =
     rmap (\<lambda>stats. mp\<lparr>mp_backlog_stats := (stats, now)\<rparr>) (from_feeinfo_slice (map snd (mp_feeinfo mp)))"

text \<open>\<open>Vec::get\<close> at a \<open>u32\<close> index.\<close>

definition get_vout :: "transaction \<Rightarrow> u32 \<Rightarrow> txout option" where
  "get_vout tx vout = (if unat vout < length (tx_output tx) then Some (tx_output tx ! unat vout) else None)"

definition mempool_lookup_txo :: "tx_map \<Rightarrow> outpoint \<Rightarrow> txout option" where
  "mempool_lookup_txo txs p = Option.bind (map_of txs (op_txid p)) (\<lambda>tx. get_vout tx (op_vout p))"

definition mempool_lookup_txos :: "bitcoin_lib \<Rightarrow> 'db mempool \<Rightarrow> outpoint set \<Rightarrow> (outpoint \<Rightarrow> txout option) res" where
  "mempool_lookup_txos B mp outpoints =
     rmap (\<lambda>from_chain p. if p \<notin> outpoints then None
           else case mempool_lookup_txo (mp_txstore mp) p of Some txo \<Rightarrow> Some txo | None \<Rightarrow> from_chain p)
       (cq_lookup_txos B (mp_chain mp) {p \<in> outpoints. mempool_lookup_txo (mp_txstore mp) p = None})"

section \<open>Adding transactions\<close>

definition spending_entry :: "bitcoin_lib \<Rightarrow> txid \<Rightarrow> transaction \<Rightarrow> u32 \<times> txout \<Rightarrow> (fullhash \<times> tx_history_info) res" where
  "spending_entry B txid tx = (\<lambda>(input_index, prevout).
     if unat input_index < length (tx_input tx)
     then let p = previous_output (tx_input tx ! unat input_index) in
       Inr (compute_script_hash B (script_pubkey prevout),
         Spending \<lparr>si_txid = txid, si_vin = input_index, si_prev_txid = op_txid p, si_prev_vout = op_vout p,
           si_value = txo_value prevout\<rparr>)
     else Inl (Panic ''called `Option::unwrap()` on a `None` value''))"

definition funding_entry :: "bitcoin_lib \<Rightarrow> txid \<Rightarrow> u32 \<times> txout \<Rightarrow> fullhash \<times> tx_history_info" where
  "funding_entry B txid = (\<lambda>(index, txo).
     (compute_script_hash B (script_pubkey txo),
      Funding \<lparr>fi_txid = txid, fi_vout = index, fi_value = txo_value txo\<rparr>))"

definition tx_entries ::
  "bitcoin_lib \<Rightarrow> indexer_config \<Rightarrow> txid \<Rightarrow> transaction \<Rightarrow> (u32 \<times> txout) list \<Rightarrow> (fullhash \<times> tx_history_info) list res" where
  "tx_entries B c txid tx prevouts =
     rmap ((@) (map (funding_entry B txid)
         (filter (\<lambda>(_, txo). is_spendable B txo \<or> index_unspendables c) (enum32 (tx_output tx)))))
       (collect (map (spending_entry B txid tx) prevouts))"

definition push_entry ::
  "fullhash \<times> tx_history_info \<Rightarrow> (fullhash \<times> tx_history_info list) list \<Rightarrow> (fullhash \<times> tx_history_info list) list" where
  "push_entry = (\<lambda>(scripthash, entry) h.
     AList.update scripthash ((case map_of h scripthash of None \<Rightarrow> [] | Some es \<Rightarrow> es) @ [entry]) h)"

definition add_edges :: "txid \<Rightarrow> transaction \<Rightarrow> (outpoint \<times> (txid \<times> u32)) list \<Rightarrow> (outpoint \<times> (txid \<times> u32)) list" where
  "add_edges txid tx es = fold (\<lambda>(i, txi). AList.update (previous_output txi) (txid, i)) (enum32 (tx_input tx)) es"

definition add_tx ::
  "bitcoin_lib \<Rightarrow> (outpoint \<Rightarrow> txout option) \<Rightarrow> 'db mempool \<Rightarrow> txid \<times> transaction \<Rightarrow> 'db mempool res" where
  "add_tx B txos mp = (\<lambda>(txid, tx).
     rbind (extract_tx_prevouts B tx txos False) (\<lambda>prevouts.
     rbind (tx_entries B (mp_config mp) txid tx prevouts) (\<lambda>entries.
       let info = tx_fee_info_new B tx prevouts;
           overview = \<lparr>ov_txid = txid, ov_fee = fi_fee info, ov_vsize = fi_vsize info,
             ov_value = sum_list (map (txo_value \<circ> snd) prevouts)\<rparr>
       in Inr (mp\<lparr>mp_txstore := AList.update txid tx (mp_txstore mp),
            mp_recent := take RECENT_TXS_SIZE (overview # mp_recent mp),
            mp_feeinfo := AList.update txid info (mp_feeinfo mp),
            mp_history := fold push_entry entries (mp_history mp),
            mp_tx_scripthashes := AList.update txid (remdups_adj (sort (map fst entries))) (mp_tx_scripthashes mp),
            mp_edges := add_edges txid tx (mp_edges mp)\<rparr>))))"

text \<open>The previous outputs of a batch that the batch itself does not create.\<close>

definition external_prevouts :: "bitcoin_lib \<Rightarrow> tx_map \<Rightarrow> transaction list \<Rightarrow> outpoint set" where
  "external_prevouts B txs_map txs = {p \<in> get_prev_outpoints B txs. mempool_lookup_txo txs_map p = None}"

definition mempool_add :: "bitcoin_lib \<Rightarrow> 'db mempool \<Rightarrow> tx_map \<Rightarrow> 'db mempool res" where
  "mempool_add B mp txs_map =
     (let spent_prevouts = get_prev_outpoints B (map snd txs_map) in
      rbind (mempool_lookup_txos B mp (external_prevouts B txs_map (map snd txs_map))) (\<lambda>remain.
        let txos = (\<lambda>p. if p \<in> spent_prevouts
                        then case mempool_lookup_txo txs_map p of Some txo \<Rightarrow> Some txo | None \<Rightarrow> remain p
                        else remain p)
        in rfold (add_tx B txos) mp txs_map))"

text \<open>\<open>Result::is_err\<close> on a computation that may panic.\<close>

definition is_err :: "'a res \<Rightarrow> bool res" where
  "is_err r = rmap (\<lambda>v. v = None) (ok_opt (rmap (\<lambda>_. ()) r))"

text \<open>The closure of the dropped transactions: their descendants in the batch.\<close>

definition spends_from :: "txid set \<Rightarrow> transaction \<Rightarrow> bool" where
  "spends_from txids tx = list_ex (\<lambda>txin. op_txid (previous_output txin) \<in> txids) (tx_input tx)"

function drop_descendants :: "tx_map \<Rightarrow> txid set \<Rightarrow> txid set \<Rightarrow> txid set" where
  "drop_descendants txs dropped frontier =
     (if frontier = {} then dropped
      else
        let frontier' = set (map fst (filter (\<lambda>(txid, tx). txid \<notin> dropped \<and> spends_from frontier tx) txs))
        in drop_descendants txs (dropped \<union> frontier') frontier')"
  by pat_completeness auto

termination
proof (relation "measures [\<lambda>(txs, dropped, frontier). card (fst ` set txs - dropped),
    \<lambda>(txs, dropped, frontier). if frontier = {} then 0 else 1]", simp)
  fix txs :: tx_map and dropped frontier x
  assume ne: "frontier \<noteq> {}" and x: "x = set (map fst (filter (\<lambda>(txid, tx). txid \<notin> dropped \<and> spends_from frontier tx) txs))"
  show "((txs, dropped \<union> x, x), txs, dropped, frontier)
    \<in> measures [\<lambda>(txs, dropped, frontier). card (fst ` set txs - dropped),
        \<lambda>(txs, dropped, frontier). if frontier = {} then 0 else 1]"
  proof (cases "x = {}")
    case True
    then show ?thesis using ne by simp
  next
    case False
    moreover have "x \<subseteq> fst ` set txs - dropped" unfolding x by auto
    ultimately have "card (fst ` set txs - (dropped \<union> x)) < card (fst ` set txs - dropped)"
      by (intro psubset_card_mono) auto
    then show ?thesis by simp
  qed
qed

declare drop_descendants.simps [simp del]

definition drop_unresolvable :: "bitcoin_lib \<Rightarrow> 'db mempool \<Rightarrow> tx_map \<Rightarrow> (txid set \<times> tx_map) res" where
  "drop_unresolvable B mp txs_map =
     rmap (\<lambda>unresolved.
         let first = set (concat unresolved);
             dropped = drop_descendants txs_map first first
         in (dropped, filter (\<lambda>(txid, _). txid \<notin> dropped) txs_map))
       (collect (map (\<lambda>(txid, tx).
           rmap (\<lambda>err. if err then [txid] else []) (is_err (mempool_lookup_txos B mp (external_prevouts B txs_map [tx]))))
         txs_map))"

section \<open>Removing transactions\<close>

definition prune_bucket ::
  "txid \<Rightarrow> (fullhash \<times> tx_history_info list) list \<Rightarrow> fullhash \<Rightarrow> (fullhash \<times> tx_history_info list) list res" where
  "prune_bucket txid h scripthash =
     rbind (expect ''missing history bucket'' (map_of h scripthash)) (\<lambda>entries.
       let kept = filter (\<lambda>entry. info_txid entry \<noteq> txid) entries in
       if length entries - length kept = 0 then Inl (Panic ''tx not found in history bucket'')
       else Inr (if kept = [] then AList.delete scripthash h else AList.update scripthash kept h))"

definition prune_history_entries ::
  "(fullhash \<times> tx_history_info list) list \<Rightarrow> fullhash list \<Rightarrow> txid \<Rightarrow> (fullhash \<times> tx_history_info list) list res" where
  "prune_history_entries h scripthashes txid = rfold (prune_bucket txid) h scripthashes"

definition drop_edge :: "txid \<Rightarrow> txin \<Rightarrow> (outpoint \<times> (txid \<times> u32)) list \<Rightarrow> (outpoint \<times> (txid \<times> u32)) list" where
  "drop_edge txid txin es =
     (case map_of es (previous_output txin) of
        Some (owner, _) \<Rightarrow> if owner = txid then AList.delete (previous_output txin) es else es
      | None \<Rightarrow> es)"

definition remove_edges :: "txid \<Rightarrow> transaction \<Rightarrow> (outpoint \<times> (txid \<times> u32)) list \<Rightarrow> (outpoint \<times> (txid \<times> u32)) list" where
  "remove_edges txid tx es = fold (drop_edge txid) (tx_input tx) es"

definition remove_tx :: "'db mempool \<Rightarrow> txid \<Rightarrow> 'db mempool res" where
  "remove_tx mp txid =
     rbind (expect ''missing mempool tx'' (map_of (mp_txstore mp) txid)) (\<lambda>tx.
     rbind (expect ''missing mempool tx feeinfo'' (map_of (mp_feeinfo mp) txid)) (\<lambda>_.
     rbind (expect ''missing tx_scripthashes'' (map_of (mp_tx_scripthashes mp) txid)) (\<lambda>scripthashes.
     rbind (prune_history_entries (mp_history mp) scripthashes txid) (\<lambda>h.
       Inr (mp\<lparr>mp_txstore := AList.delete txid (mp_txstore mp),
          mp_feeinfo := AList.delete txid (mp_feeinfo mp),
          mp_tx_scripthashes := AList.delete txid (mp_tx_scripthashes mp),
          mp_history := h,
          mp_edges := remove_edges txid tx (mp_edges mp)\<rparr>)))))"

definition mempool_remove :: "'db mempool \<Rightarrow> txid list \<Rightarrow> 'db mempool res" where
  "mempool_remove mp to_remove = rfold remove_tx mp to_remove"

end
