(* ===== verification/MempoolIndex.thy ===== *)
theory MempoolIndex
  imports Mempool
begin

text \<open>
  The indexes of the mempool: the invariant that ties the fee, script hash, history and spend
  indexes to the stored transactions, and that adding and removing transactions keep it. The
  panics of \<open>remove\<close> and \<open>prune_history_entries\<close> cannot happen where it holds.
\<close>

section \<open>The history index\<close>

type_synonym history_index = "(fullhash \<times> tx_history_info list) list"

definition entries_at :: "history_index \<Rightarrow> fullhash \<Rightarrow> tx_history_info list" where
  "entries_at h sh = (case map_of h sh of None \<Rightarrow> [] | Some es \<Rightarrow> es)"

definition buckets_ok :: "history_index \<Rightarrow> bool" where
  "buckets_ok h \<longleftrightarrow> distinct (map fst h) \<and> (\<forall>sh es. map_of h sh = Some es \<longrightarrow> es \<noteq> [])"

abbreviation of_txid :: "txid \<Rightarrow> tx_history_info \<Rightarrow> bool" where
  "of_txid t e \<equiv> info_txid e = t"

definition touching :: "fullhash \<Rightarrow> (fullhash \<times> tx_history_info) list \<Rightarrow> tx_history_info list" where
  "touching sh es = map snd (filter (\<lambda>x. fst x = sh) es)"

lemma map_of_entries_at: "buckets_ok h \<Longrightarrow> map_of h sh = (if entries_at h sh = [] then None else Some (entries_at h sh))"
  by (auto simp: buckets_ok_def entries_at_def split: option.splits)

lemma buckets_ok_Nil [simp]: "buckets_ok []"
  by (simp add: buckets_ok_def)

lemma entries_at_Nil [simp]: "entries_at [] sh = []"
  by (simp add: entries_at_def)

lemma touching_simps [simp]:
  "touching sh [] = []"
  "touching sh (x # es) = (if fst x = sh then snd x # touching sh es else touching sh es)"
  by (simp_all add: touching_def)

lemma touching_set: "e \<in> set (touching sh es) \<longleftrightarrow> (sh, e) \<in> set es"
  by (force simp: touching_def)

lemma touching_eq_Nil: "touching sh es = [] \<longleftrightarrow> sh \<notin> fst ` set es"
  by (force simp: touching_def filter_empty_conv)

lemma entries_at_push: "entries_at (push_entry x h) sh = entries_at h sh @ (if fst x = sh then [snd x] else [])"
  by (cases x) (auto simp: entries_at_def push_entry_def update_conv')

lemma buckets_ok_push: "buckets_ok h \<Longrightarrow> buckets_ok (push_entry x h)"
  by (cases x) (auto simp: buckets_ok_def push_entry_def update_conv' distinct_update)

lemma entries_at_fold: "entries_at (fold push_entry es h) sh = entries_at h sh @ touching sh es"
  by (induction es arbitrary: h) (simp_all add: entries_at_push)

lemma buckets_ok_fold: "buckets_ok h \<Longrightarrow> buckets_ok (fold push_entry es h)"
  by (induction es arbitrary: h) (simp_all add: buckets_ok_push)

lemma prune_bucket_Inr:
  assumes ok: "buckets_ok h" and e: "\<exists>e \<in> set (entries_at h sh). of_txid t e"
  shows "\<exists>h'. prune_bucket t h sh = Inr h' \<and> buckets_ok h' \<and>
    (\<forall>s. entries_at h' s = (if s = sh then filter (\<lambda>e. \<not> of_txid t e) (entries_at h s) else entries_at h s))"
proof -
  define es where "es = entries_at h sh"
  define kept where "kept = filter (\<lambda>e. \<not> of_txid t e) es"
  have m: "map_of h sh = Some es" using map_of_entries_at [OF ok, of sh] e by (auto simp: es_def)
  obtain e where "e \<in> set es" "\<not> (\<not> of_txid t e)" using assms(2) es_def by auto
  then have "length kept < length es" unfolding kept_def by (rule length_filter_less)
  then have p: "prune_bucket t h sh = Inr (if kept = [] then AList.delete sh h else AList.update sh kept h)"
    using m by (simp add: prune_bucket_def kept_def [symmetric])
  have "map_of (if kept = [] then AList.delete sh h else AList.update sh kept h) s =
      (if s = sh then if kept = [] then None else Some kept else map_of h s)" for s
    by (simp add: delete_conv' update_conv')
  then have "(\<forall>s. entries_at (if kept = [] then AList.delete sh h else AList.update sh kept h) s =
      (if s = sh then kept else entries_at h s)) \<and>
      buckets_ok (if kept = [] then AList.delete sh h else AList.update sh kept h)"
    using ok by (auto simp: entries_at_def buckets_ok_def distinct_delete distinct_update)
  then show ?thesis unfolding p kept_def es_def by (intro exI conjI) (rule refl, auto)
qed

lemma prune_history_entries_Inr:
  assumes "buckets_ok h" and "\<forall>sh \<in> set shs. \<exists>e \<in> set (entries_at h sh). of_txid t e" and "distinct shs"
  shows "\<exists>h'. prune_history_entries h shs t = Inr h' \<and> buckets_ok h' \<and>
    (\<forall>s. entries_at h' s = (if s \<in> set shs then filter (\<lambda>e. \<not> of_txid t e) (entries_at h s) else entries_at h s))"
  using assms
proof (induction shs arbitrary: h)
  case Nil
  then show ?case by (simp add: prune_history_entries_def)
next
  case (Cons sh shs)
  have "\<exists>e \<in> set (entries_at h sh). of_txid t e" using Cons.prems(2) by simp
  from prune_bucket_Inr [OF Cons.prems(1) this] obtain h1 where h1: "prune_bucket t h sh = Inr h1" "buckets_ok h1"
    "\<forall>s. entries_at h1 s = (if s = sh then filter (\<lambda>e. \<not> of_txid t e) (entries_at h s) else entries_at h s)" by blast
  have "\<forall>s \<in> set shs. \<exists>e \<in> set (entries_at h1 s). of_txid t e" using Cons.prems(2,3) h1(3) by auto
  then obtain h2 where h2: "prune_history_entries h1 shs t = Inr h2" "buckets_ok h2"
    "\<forall>s. entries_at h2 s = (if s \<in> set shs then filter (\<lambda>e. \<not> of_txid t e) (entries_at h1 s) else entries_at h1 s)"
    using Cons.IH [OF h1(2)] Cons.prems(3) by auto
  have "prune_history_entries h (sh # shs) t = Inr h2" using h1(1) h2(1) by (simp add: prune_history_entries_def)
  moreover have "entries_at h2 s =
      (if s \<in> set (sh # shs) then filter (\<lambda>e. \<not> of_txid t e) (entries_at h s) else entries_at h s)" for s
    using h1(3) h2(3) Cons.prems(3) by simp
  ultimately show ?case using h2(2) by blast
qed

definition history_ok :: "txid set \<Rightarrow> history_index \<Rightarrow> (txid \<Rightarrow> (fullhash \<times> tx_history_info) list) \<Rightarrow> bool" where
  "history_ok txids h E \<longleftrightarrow>
     buckets_ok h \<and>
     (\<forall>sh. \<forall>e \<in> set (entries_at h sh). info_txid e \<in> txids) \<and>
     (\<forall>sh. \<forall>t \<in> txids. filter (of_txid t) (entries_at h sh) = touching sh (E t))"

lemma filter_touching_own: "\<forall>x \<in> set es. info_txid (snd x) = t \<Longrightarrow> filter (of_txid t) (touching sh es) = touching sh es"
  by (auto simp: filter_id_conv touching_def)

lemma filter_touching_other: "\<forall>x \<in> set es. info_txid (snd x) = t \<Longrightarrow> u \<noteq> t \<Longrightarrow> filter (of_txid u) (touching sh es) = []"
  by (auto simp: filter_empty_conv touching_def)

lemma history_ok_add:
  assumes ok: "history_ok txids h E" and fresh: "t \<notin> txids" and own: "\<forall>x \<in> set es. info_txid (snd x) = t"
  shows "history_ok (insert t txids) (fold push_entry es h) (E(t := es))"
  unfolding history_ok_def
proof (intro conjI allI ballI)
  show "buckets_ok (fold push_entry es h)" using ok by (simp add: history_ok_def buckets_ok_fold)
next
  fix sh e
  assume "e \<in> set (entries_at (fold push_entry es h) sh)"
  then consider "e \<in> set (entries_at h sh)" | "(sh, e) \<in> set es" by (auto simp: entries_at_fold touching_set)
  then show "info_txid e \<in> insert t txids" using ok own by cases (auto simp: history_ok_def)
next
  fix sh u
  assume u: "u \<in> insert t txids"
  have none: "filter (of_txid t) (entries_at h sh) = []" using ok fresh by (auto simp: history_ok_def filter_empty_conv)
  show "filter (of_txid u) (entries_at (fold push_entry es h) sh) = touching sh ((E(t := es)) u)"
  proof (cases "u = t")
    case True
    then show ?thesis using none filter_touching_own [OF own] by (simp add: entries_at_fold)
  next
    case False
    then have "filter (of_txid u) (entries_at h sh) = touching sh (E u)" using ok u by (simp add: history_ok_def)
    then show ?thesis using filter_touching_other [OF own False] False by (simp add: entries_at_fold)
  qed
qed

lemma history_ok_remove:
  assumes ok: "history_ok txids h E" and t: "t \<in> txids" and shs: "set shs = fst ` set (E t)" "distinct shs"
  shows "\<exists>h'. prune_history_entries h shs t = Inr h' \<and> history_ok (txids - {t}) h' E \<and>
    (\<forall>s. entries_at h' s = filter (\<lambda>e. \<not> of_txid t e) (entries_at h s))"
proof -
  have b: "buckets_ok h" using ok by (simp add: history_ok_def)
  have f: "filter (of_txid t) (entries_at h s) = touching s (E t)" for s using ok t by (simp add: history_ok_def)
  have "\<exists>e \<in> set (entries_at h s). of_txid t e" if "s \<in> set shs" for s
  proof -
    have "touching s (E t) \<noteq> []" using that shs(1) by (simp add: touching_eq_Nil)
    then show ?thesis unfolding f [symmetric] by (simp add: filter_empty_conv)
  qed
  from prune_history_entries_Inr [OF b _ shs(2)] this obtain h' where h': "prune_history_entries h shs t = Inr h'"
    "buckets_ok h'"
    "\<forall>s. entries_at h' s = (if s \<in> set shs then filter (\<lambda>e. \<not> of_txid t e) (entries_at h s) else entries_at h s)"
    by blast
  have "filter (\<lambda>e. \<not> of_txid t e) (entries_at h s) = entries_at h s" if "s \<notin> set shs" for s
  proof -
    have "filter (of_txid t) (entries_at h s) = []" unfolding f using that shs(1) by (simp add: touching_eq_Nil)
    then show ?thesis by (simp add: filter_empty_conv filter_id_conv)
  qed
  then have e: "\<forall>s. entries_at h' s = filter (\<lambda>e. \<not> of_txid t e) (entries_at h s)" using h'(3) by simp
  have "filter (of_txid u) (filter (\<lambda>e. \<not> of_txid t e) xs) = filter (of_txid u) xs" if "u \<noteq> t" for u xs
    unfolding filter_filter using that by (intro filter_cong) auto
  then have "history_ok (txids - {t}) h' E" using ok h'(2) e by (simp add: history_ok_def) blast
  then show ?thesis using h'(1) e by blast
qed

section \<open>The spend index\<close>

type_synonym edge_index = "(outpoint \<times> (txid \<times> u32)) list"

definition spent_by :: "transaction \<Rightarrow> outpoint set" where
  "spent_by tx = previous_output ` set (tx_input tx)"

definition is_input :: "transaction \<Rightarrow> u32 \<Rightarrow> outpoint \<Rightarrow> bool" where
  "is_input tx i p \<longleftrightarrow> (\<exists>txi. (i, txi) \<in> set (enum32 (tx_input tx)) \<and> previous_output txi = p)"

definition edges_ok :: "tx_map \<Rightarrow> edge_index \<Rightarrow> bool" where
  "edges_ok txs es \<longleftrightarrow>
     distinct (map fst es) \<and>
     (\<forall>p t i. map_of es p = Some (t, i) \<longrightarrow> (\<exists>tx. map_of txs t = Some tx \<and> is_input tx i p))"

definition edges_complete :: "tx_map \<Rightarrow> edge_index \<Rightarrow> bool" where
  "edges_complete txs es \<longleftrightarrow> (\<forall>t tx p. map_of txs t = Some tx \<longrightarrow> p \<in> spent_by tx \<longrightarrow> map_of es p \<noteq> None)"

definition conflict_free :: "tx_map \<Rightarrow> bool" where
  "conflict_free txs \<longleftrightarrow>
     (\<forall>t u tx ux. map_of txs t = Some tx \<longrightarrow> map_of txs u = Some ux \<longrightarrow> t \<noteq> u \<longrightarrow> spent_by tx \<inter> spent_by ux = {})"

lemma is_input_spent: "is_input tx i p \<Longrightarrow> p \<in> spent_by tx"
  by (auto simp: is_input_def spent_by_def dest: enum32_memD)

definition put_edges :: "txid \<Rightarrow> (u32 \<times> txin) list \<Rightarrow> edge_index \<Rightarrow> edge_index" where
  "put_edges t ins es = fold (\<lambda>(i, txi). AList.update (previous_output txi) (t, i)) ins es"

lemma put_edges_simps:
  "put_edges t [] es = es"
  "put_edges t ((i, txi) # ins) es = put_edges t ins (AList.update (previous_output txi) (t, i) es)"
  by (simp_all add: put_edges_def)

lemma put_edges_cases:
  "map_of (put_edges t ins es) p = map_of es p \<and> p \<notin> (previous_output \<circ> snd) ` set ins \<or>
   (\<exists>i txi. map_of (put_edges t ins es) p = Some (t, i) \<and> (i, txi) \<in> set ins \<and> previous_output txi = p)"
proof (induction ins arbitrary: es)
  case (Cons x ins)
  obtain i txi where x: "x = (i, txi)" by (cases x)
  show ?case using Cons.IH [of "AList.update (previous_output txi) (t, i) es"] unfolding x put_edges_simps
    by (auto simp: update_conv' split: if_splits)
qed (simp add: put_edges_simps)

lemma distinct_put_edges: "distinct (map fst es) \<Longrightarrow> distinct (map fst (put_edges t ins es))"
  by (induction ins arbitrary: es) (auto simp: put_edges_def distinct_update)

lemma add_edges_put: "add_edges t tx es = put_edges t (enum32 (tx_input tx)) es"
  by (simp add: add_edges_def put_edges_def)

lemma spent_by_enum32: "(previous_output \<circ> snd) ` set (enum32 (tx_input tx)) = spent_by tx"
proof -
  have "snd ` set (enum32 (tx_input tx)) = set (tx_input tx)" using map_snd_enum32 [of "tx_input tx"] by (metis list.set_map)
  then show ?thesis unfolding spent_by_def image_comp [symmetric] by simp
qed

lemma add_edges_other: "p \<notin> spent_by tx \<Longrightarrow> map_of (add_edges t tx es) p = map_of es p"
  using put_edges_cases [of t "enum32 (tx_input tx)" es p] unfolding add_edges_put spent_by_enum32
  by (auto simp: spent_by_def dest: enum32_memD)

lemma add_edges_own: "p \<in> spent_by tx \<Longrightarrow> \<exists>i. map_of (add_edges t tx es) p = Some (t, i) \<and> is_input tx i p"
  using put_edges_cases [of t "enum32 (tx_input tx)" es p] unfolding add_edges_put spent_by_enum32
  by (auto simp: is_input_def)

lemma map_of_drop_edge:
  "map_of (drop_edge t txin es) p =
     (if p = previous_output txin \<and> (\<exists>i. map_of es p = Some (t, i)) then None else map_of es p)"
  by (auto simp: drop_edge_def delete_conv' split: option.splits)

lemma map_of_remove_edges:
  "map_of (remove_edges t tx es) p =
     (if p \<in> spent_by tx \<and> (\<exists>i. map_of es p = Some (t, i)) then None else map_of es p)"
proof -
  have "map_of (fold (drop_edge t) ins es) p =
     (if p \<in> previous_output ` set ins \<and> (\<exists>i. map_of es p = Some (t, i)) then None else map_of es p)" for ins
    by (induction ins arbitrary: es) (auto simp: map_of_drop_edge)
  then show ?thesis unfolding remove_edges_def spent_by_def .
qed

lemma distinct_drop_edge: "distinct (map fst es) \<Longrightarrow> distinct (map fst (drop_edge t txin es))"
  by (auto simp: drop_edge_def distinct_delete split: option.splits)

lemma distinct_remove_edges: "distinct (map fst es) \<Longrightarrow> distinct (map fst (remove_edges t tx es))"
  unfolding remove_edges_def
  by (rule fold_invariant [where Q = "\<lambda>_. True"]) (simp_all add: distinct_drop_edge)

lemma edges_ok_add:
  assumes ok: "edges_ok txs es" and fresh: "map_of txs t = None"
  shows "edges_ok (AList.update t tx txs) (add_edges t tx es)"
  unfolding edges_ok_def
proof (intro conjI allI impI)
  show "distinct (map fst (add_edges t tx es))" using ok by (simp add: edges_ok_def add_edges_put distinct_put_edges)
next
  fix p u i
  assume m: "map_of (add_edges t tx es) p = Some (u, i)"
  show "\<exists>tx'. map_of (AList.update t tx txs) u = Some tx' \<and> is_input tx' i p"
  proof (cases "p \<in> spent_by tx")
    case True
    then show ?thesis using add_edges_own [OF True, of t es] m by (simp add: update_conv')
  next
    case False
    then have "map_of es p = Some (u, i)" using m add_edges_other by metis
    then have "\<exists>tx'. map_of txs u = Some tx' \<and> is_input tx' i p" using ok by (simp add: edges_ok_def)
    then show ?thesis using fresh by (auto simp: update_conv')
  qed
qed

lemma edges_ok_remove:
  assumes ok: "edges_ok txs es" and t: "map_of txs t = Some tx"
  shows "edges_ok (AList.delete t txs) (remove_edges t tx es)"
  unfolding edges_ok_def
proof (intro conjI allI impI)
  show "distinct (map fst (remove_edges t tx es))" using ok by (simp add: edges_ok_def distinct_remove_edges)
next
  fix p u i
  assume "map_of (remove_edges t tx es) p = Some (u, i)"
  then have m: "map_of es p = Some (u, i)" and n: "p \<in> spent_by tx \<Longrightarrow> u \<noteq> t"
    by (auto simp: map_of_remove_edges split: if_splits)
  obtain tx' where tx': "map_of txs u = Some tx'" "is_input tx' i p" using ok m unfolding edges_ok_def by blast
  then have "u \<noteq> t" using n t is_input_spent by auto
  then show "\<exists>tx'. map_of (AList.delete t txs) u = Some tx' \<and> is_input tx' i p" using tx' by (simp add: delete_conv')
qed

lemma edges_complete_add:
  assumes "edges_complete txs es"
  shows "edges_complete (AList.update t tx txs) (add_edges t tx es)"
  unfolding edges_complete_def
proof (intro allI impI)
  fix u ux p
  assume u: "map_of (AList.update t tx txs) u = Some ux" "p \<in> spent_by ux"
  show "map_of (add_edges t tx es) p \<noteq> None"
  proof (cases "p \<in> spent_by tx")
    case True
    then show ?thesis using add_edges_own [OF True, of t es] by auto
  next
    case False
    then have "map_of txs u = Some ux" using u by (auto simp: update_conv' split: if_splits)
    then show ?thesis using assms u(2) add_edges_other [OF False] by (simp add: edges_complete_def)
  qed
qed

lemma edges_complete_remove:
  assumes "edges_complete txs es" and "conflict_free txs" and "map_of txs t = Some tx"
  shows "edges_complete (AList.delete t txs) (remove_edges t tx es)"
  unfolding edges_complete_def
proof (intro allI impI)
  fix u ux p
  assume u: "map_of (AList.delete t txs) u = Some ux" "p \<in> spent_by ux"
  then have u': "map_of txs u = Some ux" "u \<noteq> t" by (auto simp: delete_conv' split: if_splits)
  then have "p \<notin> spent_by tx" using assms(2,3) u(2) unfolding conflict_free_def by blast
  then show "map_of (remove_edges t tx es) p \<noteq> None"
    using assms(1) u' u(2) by (simp add: map_of_remove_edges edges_complete_def)
qed

lemma conflict_free_delete: "conflict_free txs \<Longrightarrow> conflict_free (AList.delete t txs)"
  unfolding conflict_free_def delete_conv' by (metis fun_upd_apply option.distinct(1))

section \<open>The invariant\<close>

definition tx_indexed :: "bitcoin_lib \<Rightarrow> 'db mempool \<Rightarrow> txid \<Rightarrow> (fullhash \<times> tx_history_info) list \<Rightarrow> bool" where
  "tx_indexed B mp t es \<longleftrightarrow>
     (\<exists>tx txos prevouts.
        map_of (mp_txstore mp) t = Some tx \<and>
        extract_tx_prevouts B tx txos False = Inr prevouts \<and>
        tx_entries B (mp_config mp) t tx prevouts = Inr es \<and>
        map_of (mp_feeinfo mp) t = Some (tx_fee_info_new B tx prevouts) \<and>
        map_of (mp_tx_scripthashes mp) t = Some (remdups_adj (sort (map fst es))))"

abbreviation indexed_txids :: "'db mempool \<Rightarrow> txid set" where
  "indexed_txids mp \<equiv> dom (map_of (mp_txstore mp))"

definition mempool_inv :: "bitcoin_lib \<Rightarrow> 'db mempool \<Rightarrow> (txid \<Rightarrow> (fullhash \<times> tx_history_info) list) \<Rightarrow> bool" where
  "mempool_inv B mp E \<longleftrightarrow>
     distinct (map fst (mp_txstore mp)) \<and> distinct (map fst (mp_feeinfo mp)) \<and> distinct (map fst (mp_tx_scripthashes mp)) \<and>
     dom (map_of (mp_feeinfo mp)) = indexed_txids mp \<and>
     dom (map_of (mp_tx_scripthashes mp)) = indexed_txids mp \<and>
     (\<forall>t \<in> indexed_txids mp. tx_indexed B mp t (E t)) \<and>
     history_ok (indexed_txids mp) (mp_history mp) E \<and>
     edges_ok (mp_txstore mp) (mp_edges mp) \<and>
     length (mp_recent mp) \<le> RECENT_TXS_SIZE"

definition mempool_ok :: "bitcoin_lib \<Rightarrow> 'db mempool \<Rightarrow> bool" where
  "mempool_ok B mp \<longleftrightarrow> (\<exists>E. mempool_inv B mp E)"

lemma mempool_ok_new: "mempool_ok B (mempool_new now q c)"
  by (simp add: mempool_ok_def mempool_inv_def mempool_new_def history_ok_def edges_ok_def)

lemma mempool_inv_backlog: "mempool_inv B (mp\<lparr>mp_backlog_stats := s\<rparr>) E = mempool_inv B mp E"
  by (simp add: mempool_inv_def tx_indexed_def)

lemma mempool_inv_chain: "mempool_inv B (mp\<lparr>mp_chain := q\<rparr>) E = mempool_inv B mp E"
  by (simp add: mempool_inv_def tx_indexed_def)

lemma spending_entry_txid: "spending_entry B t tx x = Inr y \<Longrightarrow> info_txid (snd y) = t"
  by (auto simp: spending_entry_def Let_def info_txid_def split: prod.splits if_splits)

lemma funding_entry_txid: "info_txid (snd (funding_entry B t x)) = t"
  by (simp add: funding_entry_def info_txid_def split: prod.splits)

lemma tx_entries_txid: "tx_entries B c t tx prevouts = Inr es \<Longrightarrow> \<forall>x \<in> set es. info_txid (snd x) = t"
proof
  fix x
  assume "tx_entries B c t tx prevouts = Inr es" "x \<in> set es"
  then consider y where "x = funding_entry B t y" | y where "spending_entry B t tx y = Inr x"
    by (auto simp: tx_entries_def rmap_Inr_iff collect_map_mem)
  then show "info_txid (snd x) = t" by cases (simp_all add: funding_entry_txid spending_entry_txid)
qed

lemma distinct_remdups_adj_sorted: "sorted xs \<Longrightarrow> distinct (remdups_adj xs)"
  by (induction xs rule: remdups_adj.induct) auto

lemma distinct_sorted_hashes: "distinct (remdups_adj (sort (xs :: fullhash list)))"
  by (rule distinct_remdups_adj_sorted) simp

lemma add_tx_Inr:
  assumes "add_tx B txos mp (t, tx) = Inr mp'"
  obtains prevouts es ov where
    "extract_tx_prevouts B tx txos False = Inr prevouts"
    "tx_entries B (mp_config mp) t tx prevouts = Inr es"
    "mp' = mp\<lparr>mp_txstore := AList.update t tx (mp_txstore mp),
            mp_recent := take RECENT_TXS_SIZE (ov # mp_recent mp),
            mp_feeinfo := AList.update t (tx_fee_info_new B tx prevouts) (mp_feeinfo mp),
            mp_history := fold push_entry es (mp_history mp),
            mp_tx_scripthashes := AList.update t (remdups_adj (sort (map fst es))) (mp_tx_scripthashes mp),
            mp_edges := add_edges t tx (mp_edges mp)\<rparr>"
  using assms by (auto simp: add_tx_def rbind_Inr_iff Let_def)

lemma add_tx_store:
  assumes "add_tx B txos mp (t, tx) = Inr mp'"
  shows "mp_txstore mp' = AList.update t tx (mp_txstore mp) \<and> mp_edges mp' = add_edges t tx (mp_edges mp)"
  by (rule add_tx_Inr [OF assms]) simp

lemma mempool_inv_add_tx:
  assumes inv: "mempool_inv B mp E" and fresh: "t \<notin> indexed_txids mp" and add: "add_tx B txos mp (t, tx) = Inr mp'"
  shows "\<exists>es. mempool_inv B mp' (E(t := es))"
proof -
  obtain prevouts es ov where pv: "extract_tx_prevouts B tx txos False = Inr prevouts"
    and es: "tx_entries B (mp_config mp) t tx prevouts = Inr es"
    and mp': "mp' = mp\<lparr>mp_txstore := AList.update t tx (mp_txstore mp),
            mp_recent := take RECENT_TXS_SIZE (ov # mp_recent mp),
            mp_feeinfo := AList.update t (tx_fee_info_new B tx prevouts) (mp_feeinfo mp),
            mp_history := fold push_entry es (mp_history mp),
            mp_tx_scripthashes := AList.update t (remdups_adj (sort (map fst es))) (mp_tx_scripthashes mp),
            mp_edges := add_edges t tx (mp_edges mp)\<rparr>"
    by (rule add_tx_Inr [OF add])
  have dom': "indexed_txids mp' = insert t (indexed_txids mp)" by (simp add: mp' update_conv')
  have "tx_indexed B mp' u ((E(t := es)) u)" if u: "u \<in> indexed_txids mp'" for u
  proof (cases "u = t")
    case True
    then show ?thesis using pv es by (auto simp: tx_indexed_def mp' update_conv')
  next
    case False
    then have "tx_indexed B mp u (E u)" using inv u dom' by (simp add: mempool_inv_def)
    then show ?thesis using False by (simp add: tx_indexed_def mp' update_conv')
  qed
  moreover have "history_ok (indexed_txids mp') (mp_history mp') (E(t := es))"
    using inv fresh tx_entries_txid [OF es] unfolding dom' by (simp add: mempool_inv_def mp' history_ok_add)
  moreover have "edges_ok (mp_txstore mp') (mp_edges mp')"
  proof -
    have "edges_ok (mp_txstore mp) (mp_edges mp)" using inv by (simp add: mempool_inv_def)
    moreover have "map_of (mp_txstore mp) t = None" using fresh by blast
    ultimately have "edges_ok (AList.update t tx (mp_txstore mp)) (add_edges t tx (mp_edges mp))" by (rule edges_ok_add)
    then show ?thesis by (simp add: mp')
  qed
  moreover have "dom (map_of (mp_feeinfo mp')) = indexed_txids mp'" "dom (map_of (mp_tx_scripthashes mp')) = indexed_txids mp'"
    using inv unfolding dom' by (simp_all add: mempool_inv_def mp' update_conv')
  moreover have "distinct (map fst (mp_txstore mp'))" "distinct (map fst (mp_feeinfo mp'))"
      "distinct (map fst (mp_tx_scripthashes mp'))" "length (mp_recent mp') \<le> RECENT_TXS_SIZE"
    using inv by (simp_all add: mempool_inv_def mp' distinct_update)
  ultimately show ?thesis unfolding mempool_inv_def by blast
qed

lemma mempool_inv_remove_tx:
  assumes inv: "mempool_inv B mp E" and t: "t \<in> indexed_txids mp"
  shows "\<exists>mp'. remove_tx mp t = Inr mp' \<and> mempool_inv B mp' E \<and> mp_config mp' = mp_config mp \<and> mp_chain mp' = mp_chain mp \<and>
    map_of (mp_txstore mp') = (map_of (mp_txstore mp))(t := None) \<and>
    (\<forall>sh. entries_at (mp_history mp') sh = filter (\<lambda>e. \<not> of_txid t e) (entries_at (mp_history mp) sh)) \<and>
    mp_edges mp' = remove_edges t (the (map_of (mp_txstore mp) t)) (mp_edges mp) \<and>
    map_of (mp_feeinfo mp') = (map_of (mp_feeinfo mp))(t := None) \<and>
    map_of (mp_tx_scripthashes mp') = (map_of (mp_tx_scripthashes mp))(t := None)"
proof -
  have "tx_indexed B mp t (E t)" using inv t by (simp add: mempool_inv_def)
  then obtain tx f where tx: "map_of (mp_txstore mp) t = Some tx" and f: "map_of (mp_feeinfo mp) t = Some f"
    and sh: "map_of (mp_tx_scripthashes mp) t = Some (remdups_adj (sort (map fst (E t))))"
    unfolding tx_indexed_def by blast
  have hist: "history_ok (indexed_txids mp) (mp_history mp) E" using inv by (simp add: mempool_inv_def)
  obtain h' where h': "prune_history_entries (mp_history mp) (remdups_adj (sort (map fst (E t)))) t = Inr h'"
    "history_ok (indexed_txids mp - {t}) h' E"
    "\<forall>s. entries_at h' s = filter (\<lambda>e. \<not> of_txid t e) (entries_at (mp_history mp) s)"
    using history_ok_remove [OF hist t, of "remdups_adj (sort (map fst (E t)))"]
    by (auto simp: distinct_sorted_hashes)
  define mp' where "mp' = mp\<lparr>mp_txstore := AList.delete t (mp_txstore mp), mp_feeinfo := AList.delete t (mp_feeinfo mp),
      mp_tx_scripthashes := AList.delete t (mp_tx_scripthashes mp), mp_history := h',
      mp_edges := remove_edges t tx (mp_edges mp)\<rparr>"
  have r: "remove_tx mp t = Inr mp'" using tx f sh h'(1) by (simp add: remove_tx_def mp'_def)
  have dom': "indexed_txids mp' = indexed_txids mp - {t}" by (simp add: mp'_def delete_conv')
  have "tx_indexed B mp' u (E u)" if u: "u \<in> indexed_txids mp'" for u
  proof -
    have "u \<noteq> t" "tx_indexed B mp u (E u)" using inv u dom' by (simp_all add: mempool_inv_def)
    then show ?thesis by (simp add: tx_indexed_def mp'_def delete_conv')
  qed
  moreover have "edges_ok (mp_txstore mp') (mp_edges mp')"
    using inv tx by (simp add: mempool_inv_def mp'_def edges_ok_remove)
  moreover have "dom (map_of (mp_feeinfo mp')) = indexed_txids mp'" "dom (map_of (mp_tx_scripthashes mp')) = indexed_txids mp'"
    using inv unfolding dom' by (simp_all add: mempool_inv_def mp'_def delete_conv')
  moreover have "distinct (map fst (mp_txstore mp'))" "distinct (map fst (mp_feeinfo mp'))"
      "distinct (map fst (mp_tx_scripthashes mp'))" "length (mp_recent mp') \<le> RECENT_TXS_SIZE"
    using inv by (simp_all add: mempool_inv_def mp'_def distinct_delete)
  moreover have "history_ok (indexed_txids mp') (mp_history mp') E" using h'(2) unfolding dom' by (simp add: mp'_def)
  ultimately have "mempool_inv B mp' E" unfolding mempool_inv_def by blast
  then show ?thesis using r h'(3) tx by (intro exI [of _ mp']) (simp add: mp'_def delete_conv')
qed

section \<open>Batches\<close>

text \<open>What adding a batch and removing a set of transactions do to the indexes, as maps.\<close>

abbreviation batch_spends :: "tx_map \<Rightarrow> outpoint set" where
  "batch_spends txs \<equiv> \<Union> (spent_by ` snd ` set txs)"

definition batch_added :: "tx_map \<Rightarrow> 'db mempool \<Rightarrow> 'db mempool \<Rightarrow> bool" where
  "batch_added txs mp mp' \<longleftrightarrow>
     mp_chain mp' = mp_chain mp \<and> mp_config mp' = mp_config mp \<and>
     map_of (mp_txstore mp') = map_of (mp_txstore mp) ++ map_of txs \<and>
     (\<forall>u. u \<notin> fst ` set txs \<longrightarrow> map_of (mp_feeinfo mp') u = map_of (mp_feeinfo mp) u \<and>
        map_of (mp_tx_scripthashes mp') u = map_of (mp_tx_scripthashes mp) u) \<and>
     (\<forall>sh. \<exists>es. entries_at (mp_history mp') sh = entries_at (mp_history mp) sh @ es \<and> info_txid ` set es \<subseteq> fst ` set txs) \<and>
     (\<forall>p. p \<notin> batch_spends txs \<longrightarrow> map_of (mp_edges mp') p = map_of (mp_edges mp) p) \<and>
     (\<forall>p \<in> batch_spends txs. \<exists>t i. map_of (mp_edges mp') p = Some (t, i) \<and> t \<in> fst ` set txs)"

definition batch_removed :: "txid set \<Rightarrow> 'db mempool \<Rightarrow> 'db mempool \<Rightarrow> bool" where
  "batch_removed ts mp mp' \<longleftrightarrow>
     mp_chain mp' = mp_chain mp \<and> mp_config mp' = mp_config mp \<and>
     map_of (mp_txstore mp') = map_of (mp_txstore mp) |` (- ts) \<and>
     map_of (mp_feeinfo mp') = map_of (mp_feeinfo mp) |` (- ts) \<and>
     map_of (mp_tx_scripthashes mp') = map_of (mp_tx_scripthashes mp) |` (- ts) \<and>
     (\<forall>sh. entries_at (mp_history mp') sh = filter (\<lambda>e. info_txid e \<notin> ts) (entries_at (mp_history mp) sh)) \<and>
     (\<forall>p. map_of (mp_edges mp') p =
        (case map_of (mp_edges mp) p of Some (t, i) \<Rightarrow> if t \<in> ts then None else Some (t, i) | None \<Rightarrow> None))"

lemma batch_addedI:
  assumes "mp_chain mp' = mp_chain mp" and "mp_config mp' = mp_config mp"
    and "map_of (mp_txstore mp') = map_of (mp_txstore mp) ++ map_of txs"
    and "\<And>u. u \<notin> fst ` set txs \<Longrightarrow> map_of (mp_feeinfo mp') u = map_of (mp_feeinfo mp) u"
    and "\<And>u. u \<notin> fst ` set txs \<Longrightarrow> map_of (mp_tx_scripthashes mp') u = map_of (mp_tx_scripthashes mp) u"
    and "\<And>sh. \<exists>es. entries_at (mp_history mp') sh = entries_at (mp_history mp) sh @ es \<and> info_txid ` set es \<subseteq> fst ` set txs"
    and "\<And>p. p \<notin> batch_spends txs \<Longrightarrow> map_of (mp_edges mp') p = map_of (mp_edges mp) p"
    and "\<And>p. p \<in> batch_spends txs \<Longrightarrow> \<exists>t i. map_of (mp_edges mp') p = Some (t, i) \<and> t \<in> fst ` set txs"
  shows "batch_added txs mp mp'"
  unfolding batch_added_def using assms by (intro conjI allI impI ballI)

lemma batch_addedD:
  assumes "batch_added txs mp mp'"
  shows "mp_chain mp' = mp_chain mp" and "mp_config mp' = mp_config mp"
    and "map_of (mp_txstore mp') = map_of (mp_txstore mp) ++ map_of txs"
    and "u \<notin> fst ` set txs \<Longrightarrow> map_of (mp_feeinfo mp') u = map_of (mp_feeinfo mp) u"
    and "u \<notin> fst ` set txs \<Longrightarrow> map_of (mp_tx_scripthashes mp') u = map_of (mp_tx_scripthashes mp) u"
    and "\<exists>es. entries_at (mp_history mp') sh = entries_at (mp_history mp) sh @ es \<and> info_txid ` set es \<subseteq> fst ` set txs"
    and "p \<notin> batch_spends txs \<Longrightarrow> map_of (mp_edges mp') p = map_of (mp_edges mp) p"
    and "p \<in> batch_spends txs \<Longrightarrow> \<exists>t i. map_of (mp_edges mp') p = Some (t, i) \<and> t \<in> fst ` set txs"
proof -
  note c = assms [unfolded batch_added_def]
  show "mp_chain mp' = mp_chain mp" using c by (rule conjunct1)
  note c = c [THEN conjunct2]
  show "mp_config mp' = mp_config mp" using c by (rule conjunct1)
  note c = c [THEN conjunct2]
  show "map_of (mp_txstore mp') = map_of (mp_txstore mp) ++ map_of txs" using c by (rule conjunct1)
  note c = c [THEN conjunct2]
  show "map_of (mp_feeinfo mp') u = map_of (mp_feeinfo mp) u"
      "map_of (mp_tx_scripthashes mp') u = map_of (mp_tx_scripthashes mp) u" if "u \<notin> fst ` set txs"
    using c [THEN conjunct1, rule_format, OF that] by simp_all
  note c = c [THEN conjunct2]
  show "\<exists>es. entries_at (mp_history mp') sh = entries_at (mp_history mp) sh @ es \<and> info_txid ` set es \<subseteq> fst ` set txs"
    using c [THEN conjunct1] by (rule spec)
  note c = c [THEN conjunct2]
  show "map_of (mp_edges mp') p = map_of (mp_edges mp) p" if "p \<notin> batch_spends txs"
    using c [THEN conjunct1, rule_format, OF that] .
  show "\<exists>t i. map_of (mp_edges mp') p = Some (t, i) \<and> t \<in> fst ` set txs" if "p \<in> batch_spends txs"
    using c [THEN conjunct2] that by (rule bspec)
qed

lemma batch_added_step:
  assumes fresh: "t \<notin> fst ` set txs" and add: "add_tx B txos mp (t, tx) = Inr mp1" and rest: "batch_added txs mp1 mp2"
  shows "batch_added ((t, tx) # txs) mp mp2"
proof -
  obtain prevouts es ov where es: "tx_entries B (mp_config mp) t tx prevouts = Inr es"
    and mp1: "mp1 = mp\<lparr>mp_txstore := AList.update t tx (mp_txstore mp),
            mp_recent := take RECENT_TXS_SIZE (ov # mp_recent mp),
            mp_feeinfo := AList.update t (tx_fee_info_new B tx prevouts) (mp_feeinfo mp),
            mp_history := fold push_entry es (mp_history mp),
            mp_tx_scripthashes := AList.update t (remdups_adj (sort (map fst es))) (mp_tx_scripthashes mp),
            mp_edges := add_edges t tx (mp_edges mp)\<rparr>"
    by (rule add_tx_Inr [OF add])
  have f: "mp_chain mp1 = mp_chain mp" "mp_config mp1 = mp_config mp"
    "map_of (mp_txstore mp1) = (map_of (mp_txstore mp))(t \<mapsto> tx)"
    "u \<noteq> t \<Longrightarrow> map_of (mp_feeinfo mp1) u = map_of (mp_feeinfo mp) u"
    "u \<noteq> t \<Longrightarrow> map_of (mp_tx_scripthashes mp1) u = map_of (mp_tx_scripthashes mp) u"
    "entries_at (mp_history mp1) sh = entries_at (mp_history mp) sh @ touching sh es"
    "mp_edges mp1 = add_edges t tx (mp_edges mp)" for u sh
    by (simp_all add: mp1 update_conv' entries_at_fold)
  note d = batch_addedD [OF rest]
  show ?thesis
  proof (rule batch_addedI)
    show "mp_chain mp2 = mp_chain mp" "mp_config mp2 = mp_config mp" using d(1,2) f(1,2) by simp_all
    have "map_of txs t = None" using fresh by (simp add: map_of_eq_None_iff)
    then show "map_of (mp_txstore mp2) = map_of (mp_txstore mp) ++ map_of ((t, tx) # txs)"
      unfolding d(3) f(3) by (auto simp: map_add_def split: option.split)
  next
    fix u
    assume "u \<notin> fst ` set ((t, tx) # txs)"
    then have "u \<noteq> t" "u \<notin> fst ` set txs" by simp_all
    then show "map_of (mp_feeinfo mp2) u = map_of (mp_feeinfo mp) u"
        "map_of (mp_tx_scripthashes mp2) u = map_of (mp_tx_scripthashes mp) u"
      using d(4,5) f(4,5) by simp_all
  next
    fix sh
    obtain es' where es': "entries_at (mp_history mp2) sh = entries_at (mp_history mp1) sh @ es'"
      "info_txid ` set es' \<subseteq> fst ` set txs" using d(6) by blast
    have "entries_at (mp_history mp2) sh = entries_at (mp_history mp) sh @ touching sh es @ es'"
      using es'(1) f(6) by simp
    moreover have "info_txid ` set (touching sh es) \<subseteq> {t}" using tx_entries_txid [OF es] by (auto simp: touching_def)
    ultimately show "\<exists>es. entries_at (mp_history mp2) sh = entries_at (mp_history mp) sh @ es \<and>
        info_txid ` set es \<subseteq> fst ` set ((t, tx) # txs)"
      using es'(2) by (intro exI [of _ "touching sh es @ es'"] conjI) (assumption, auto)
  next
    fix p
    assume "p \<notin> batch_spends ((t, tx) # txs)"
    then have "p \<notin> spent_by tx" "p \<notin> batch_spends txs" by simp_all
    then show "map_of (mp_edges mp2) p = map_of (mp_edges mp) p"
      using d(7) add_edges_other [of p tx t "mp_edges mp"] unfolding f(7) by metis
  next
    fix p
    assume p: "p \<in> batch_spends ((t, tx) # txs)"
    show "\<exists>u i. map_of (mp_edges mp2) p = Some (u, i) \<and> u \<in> fst ` set ((t, tx) # txs)"
    proof (cases "p \<in> batch_spends txs")
      case True
      then obtain u i where "map_of (mp_edges mp2) p = Some (u, i)" "u \<in> fst ` set txs" using d(8) by blast
      then show ?thesis by (intro exI [of _ u] exI [of _ i]) simp
    next
      case False
      then have "map_of (mp_edges mp2) p = map_of (add_edges t tx (mp_edges mp)) p" using d(7) unfolding f(7) by blast
      moreover have "p \<in> spent_by tx" using p False by simp
      ultimately show ?thesis using add_edges_own [of p tx t "mp_edges mp"] by (intro exI [of _ t]) auto
    qed
  qed
qed

lemma batch_added_Nil: "batch_added [] mp mp"
  unfolding batch_added_def by auto

lemma rfold_add_tx:
  assumes "mempool_inv B mp E" and "distinct (map fst txs)" and "fst ` set txs \<inter> indexed_txids mp = {}"
    and "rfold (add_tx B txos) mp txs = Inr mp'"
  shows "(\<exists>E'. mempool_inv B mp' E') \<and> batch_added txs mp mp' \<and>
    (edges_complete (mp_txstore mp) (mp_edges mp) \<longrightarrow> edges_complete (mp_txstore mp') (mp_edges mp'))"
  using assms
proof (induction txs arbitrary: mp E)
  case Nil
  then show ?case using batch_added_Nil by auto
next
  case (Cons x txs)
  obtain t tx where x: "x = (t, tx)" by (cases x)
  obtain mp1 where mp1: "add_tx B txos mp (t, tx) = Inr mp1" "rfold (add_tx B txos) mp1 txs = Inr mp'"
    using Cons.prems(4) by (auto simp: x rbind_Inr_iff)
  have fresh: "t \<notin> indexed_txids mp" "t \<notin> fst ` set txs" using Cons.prems(2,3) by (auto simp: x)
  obtain es where inv: "mempool_inv B mp1 (E(t := es))" using mempool_inv_add_tx [OF Cons.prems(1) fresh(1) mp1(1)] by blast
  have store: "mp_txstore mp1 = AList.update t tx (mp_txstore mp)" "mp_edges mp1 = add_edges t tx (mp_edges mp)"
    using add_tx_store [OF mp1(1)] by simp_all
  have "fst ` set txs \<inter> indexed_txids mp1 = {}" using Cons.prems(2,3) fresh by (auto simp: x store update_conv')
  moreover have "distinct (map fst txs)" using Cons.prems(2) by simp
  ultimately have ih: "(\<exists>E'. mempool_inv B mp' E') \<and> batch_added txs mp1 mp' \<and>
    (edges_complete (mp_txstore mp1) (mp_edges mp1) \<longrightarrow> edges_complete (mp_txstore mp') (mp_edges mp'))"
    using Cons.IH [OF inv _ _ mp1(2)] by blast
  moreover have "edges_complete (mp_txstore mp) (mp_edges mp) \<longrightarrow> edges_complete (mp_txstore mp1) (mp_edges mp1)"
    unfolding store by (simp add: edges_complete_add)
  ultimately show ?case using batch_added_step [OF fresh(2) mp1(1)] x by blast
qed

lemma mempool_add_spec:
  assumes "mempool_ok B mp" and "distinct (map fst txs)" and "fst ` set txs \<inter> indexed_txids mp = {}"
    and "mempool_add B mp txs = Inr mp'"
  shows "mempool_ok B mp' \<and> batch_added txs mp mp' \<and>
    (edges_complete (mp_txstore mp) (mp_edges mp) \<longrightarrow> edges_complete (mp_txstore mp') (mp_edges mp'))"
proof -
  obtain E where inv: "mempool_inv B mp E" using assms(1) by (auto simp: mempool_ok_def)
  have "\<exists>txos. rfold (add_tx B txos) mp txs = Inr mp'"
    using assms(4) unfolding mempool_add_def Let_def rbind_Inr_iff by (elim exE conjE) (rule exI)
  then obtain txos where "rfold (add_tx B txos) mp txs = Inr mp'" ..
  from rfold_add_tx [OF inv assms(2,3) this] show ?thesis unfolding mempool_ok_def .
qed

lemma batch_removed_step:
  assumes "batch_removed ts mp1 mp2" and "mp_chain mp1 = mp_chain mp" and "mp_config mp1 = mp_config mp"
    and "map_of (mp_txstore mp1) = (map_of (mp_txstore mp))(t := None)"
    and "map_of (mp_feeinfo mp1) = (map_of (mp_feeinfo mp))(t := None)"
    and "map_of (mp_tx_scripthashes mp1) = (map_of (mp_tx_scripthashes mp))(t := None)"
    and "\<forall>sh. entries_at (mp_history mp1) sh = filter (\<lambda>e. \<not> of_txid t e) (entries_at (mp_history mp) sh)"
    and "\<forall>p. map_of (mp_edges mp1) p = (case map_of (mp_edges mp) p of Some (u, i) \<Rightarrow> if u = t then None else Some (u, i) | None \<Rightarrow> None)"
  shows "batch_removed (insert t ts) mp mp2"
  unfolding batch_removed_def
proof (intro conjI allI)
  note r = assms(1) [unfolded batch_removed_def]
  show "mp_chain mp2 = mp_chain mp" "mp_config mp2 = mp_config mp" using r assms(2,3) by simp_all
  show "map_of (mp_txstore mp2) = map_of (mp_txstore mp) |` (- insert t ts)"
    "map_of (mp_feeinfo mp2) = map_of (mp_feeinfo mp) |` (- insert t ts)"
    "map_of (mp_tx_scripthashes mp2) = map_of (mp_tx_scripthashes mp) |` (- insert t ts)"
    using r unfolding assms(4-6) by (auto simp: restrict_map_def)
  show "entries_at (mp_history mp2) sh = filter (\<lambda>e. info_txid e \<notin> insert t ts) (entries_at (mp_history mp) sh)" for sh
    using r assms(7) by (simp add: conj_commute)
  show "map_of (mp_edges mp2) p =
      (case map_of (mp_edges mp) p of Some (u, i) \<Rightarrow> if u \<in> insert t ts then None else Some (u, i) | None \<Rightarrow> None)" for p
    using r assms(8) by (auto split: option.splits)
qed

lemma mempool_remove_spec:
  assumes "mempool_inv B mp E" and "distinct ts" and "set ts \<subseteq> indexed_txids mp"
  shows "\<exists>mp'. mempool_remove mp ts = Inr mp' \<and> mempool_inv B mp' E \<and> batch_removed (set ts) mp mp'"
  using assms
proof (induction ts arbitrary: mp)
  case Nil
  have "batch_removed {} mp mp" by (auto simp: batch_removed_def split: option.split)
  then show ?case using Nil by (simp add: mempool_remove_def)
next
  case (Cons t ts)
  have t: "t \<in> indexed_txids mp" using Cons.prems(3) by simp
  from mempool_inv_remove_tx [OF Cons.prems(1) t] obtain mp1 where r: "remove_tx mp t = Inr mp1"
    and inv: "mempool_inv B mp1 E" and f: "mp_config mp1 = mp_config mp" "mp_chain mp1 = mp_chain mp"
      "map_of (mp_txstore mp1) = (map_of (mp_txstore mp))(t := None)"
      "\<forall>sh. entries_at (mp_history mp1) sh = filter (\<lambda>e. \<not> of_txid t e) (entries_at (mp_history mp) sh)"
      "mp_edges mp1 = remove_edges t (the (map_of (mp_txstore mp) t)) (mp_edges mp)"
      "map_of (mp_feeinfo mp1) = (map_of (mp_feeinfo mp))(t := None)"
      "map_of (mp_tx_scripthashes mp1) = (map_of (mp_tx_scripthashes mp))(t := None)"
    by (elim exE conjE)
  have "set ts \<subseteq> indexed_txids mp1" using Cons.prems(2,3) unfolding f(3) by auto
  then obtain mp2 where mp2: "mempool_remove mp1 ts = Inr mp2" "mempool_inv B mp2 E" "batch_removed (set ts) mp1 mp2"
    using Cons.IH [OF inv] Cons.prems(2) by auto
  have own: "p \<in> spent_by (the (map_of (mp_txstore mp) t))" if m: "map_of (mp_edges mp) p = Some (t, i)" for p i
  proof -
    have "edges_ok (mp_txstore mp) (mp_edges mp)" using Cons.prems(1) by (simp add: mempool_inv_def)
    then obtain tx where "map_of (mp_txstore mp) t = Some tx" "is_input tx i p" using m unfolding edges_ok_def by blast
    then show ?thesis by (simp add: is_input_spent)
  qed
  have "map_of (mp_edges mp1) p = (case map_of (mp_edges mp) p of Some (u, i) \<Rightarrow> if u = t then None else Some (u, i) | None \<Rightarrow> None)" for p
    unfolding f(5) map_of_remove_edges using own [of p] by (auto split: option.split)
  then have "batch_removed (set (t # ts)) mp mp2"
    using batch_removed_step [OF mp2(3) f(2,1,3,6,7,4)] by simp
  then show ?case using r mp2 by (simp add: mempool_remove_def)
qed

section \<open>Adding and removing again\<close>

text \<open>Two mempools that no query tells apart.\<close>

definition same_view :: "'db mempool \<Rightarrow> 'db mempool \<Rightarrow> bool" where
  "same_view mp mp' \<longleftrightarrow>
     mp_chain mp' = mp_chain mp \<and> mp_config mp' = mp_config mp \<and>
     map_of (mp_txstore mp') = map_of (mp_txstore mp) \<and> map_of (mp_feeinfo mp') = map_of (mp_feeinfo mp) \<and>
     map_of (mp_tx_scripthashes mp') = map_of (mp_tx_scripthashes mp) \<and>
     map_of (mp_history mp') = map_of (mp_history mp) \<and> map_of (mp_edges mp') = map_of (mp_edges mp)"

lemma restrict_to_old:
  assumes "\<And>u. u \<notin> T \<Longrightarrow> m1 u = m u" and "T \<inter> dom m = {}"
  shows "m1 |` (- T) = m"
proof
  fix u
  have "u \<in> T \<Longrightarrow> m u = None" using assms(2) by blast
  then show "(m1 |` (- T)) u = m u" using assms(1) by (simp add: restrict_map_def)
qed

lemma add_remove_view:
  assumes ok: "mempool_inv B mp E" and ok2: "mempool_inv B mp2 E2"
    and fresh: "fst ` set txs \<inter> indexed_txids mp = {}"
    and unspent: "\<forall>p \<in> batch_spends txs. \<not> has_spend mp p"
    and add: "batch_added txs mp mp1" and rem: "batch_removed (fst ` set txs) mp1 mp2"
  shows "same_view mp mp2"
  unfolding same_view_def
proof (intro conjI)
  note a = batch_addedD [OF add] and r = rem [unfolded batch_removed_def]
  define T where "T = fst ` set txs"
  note fresh = fresh [folded T_def] and a = a [folded T_def] and r = r [folded T_def]
  show "mp_chain mp2 = mp_chain mp" "mp_config mp2 = mp_config mp" using a(1,2) r by simp_all
  have d: "dom (map_of (mp_feeinfo mp)) = indexed_txids mp" "dom (map_of (mp_tx_scripthashes mp)) = indexed_txids mp"
    using ok by (simp_all add: mempool_inv_def)
  have "(map_of (mp_txstore mp) ++ map_of txs) u = map_of (mp_txstore mp) u" if "u \<notin> T" for u
  proof -
    have "map_of txs u = None" using that unfolding T_def by (simp add: map_of_eq_None_iff)
    then show ?thesis by (simp add: map_add_def)
  qed
  then show "map_of (mp_txstore mp2) = map_of (mp_txstore mp)" 
    using r a(3) restrict_to_old [OF _ fresh, of "map_of (mp_txstore mp1)"] by simp
  show "map_of (mp_feeinfo mp2) = map_of (mp_feeinfo mp)" using r restrict_to_old [of T "map_of (mp_feeinfo mp1)" "map_of (mp_feeinfo mp)", OF a(4)] d(1) fresh by simp
  show "map_of (mp_tx_scripthashes mp2) = map_of (mp_tx_scripthashes mp)" using r restrict_to_old [of T "map_of (mp_tx_scripthashes mp1)" "map_of (mp_tx_scripthashes mp)", OF a(5)] d(2) fresh by simp
  have "entries_at (mp_history mp2) sh = entries_at (mp_history mp) sh" for sh
  proof -
    obtain es where es: "entries_at (mp_history mp1) sh = entries_at (mp_history mp) sh @ es" "info_txid ` set es \<subseteq> T"
      using a(6) by blast
    have "info_txid e \<notin> T" if "e \<in> set (entries_at (mp_history mp) sh)" for e
      using ok that fresh unfolding mempool_inv_def history_ok_def by blast
    then have "filter (\<lambda>e. info_txid e \<notin> T) (entries_at (mp_history mp) sh) = entries_at (mp_history mp) sh"
      by (simp add: filter_id_conv)
    moreover have "filter (\<lambda>e. info_txid e \<notin> T) es = []" using es(2) by (auto simp: filter_empty_conv)
    ultimately show ?thesis using r es(1) by simp
  qed
  moreover have "buckets_ok (mp_history mp)" "buckets_ok (mp_history mp2)"
    using ok ok2 by (simp_all add: mempool_inv_def history_ok_def)
  ultimately show "map_of (mp_history mp2) = map_of (mp_history mp)" by (intro ext) (simp add: map_of_entries_at)
  show "map_of (mp_edges mp2) = map_of (mp_edges mp)"
  proof
    fix p
    show "map_of (mp_edges mp2) p = map_of (mp_edges mp) p"
    proof (cases "p \<in> batch_spends txs")
      case True
      then obtain t i where "map_of (mp_edges mp1) p = Some (t, i)" "t \<in> T" using a(8) by blast
      moreover have "map_of (mp_edges mp) p = None" using unspent True by (simp only: has_spend_def) blast
      ultimately show ?thesis using r by simp
    next
      case False
      then have e: "map_of (mp_edges mp1) p = map_of (mp_edges mp) p" using a(7) by blast
      have "t \<notin> T" if "map_of (mp_edges mp) p = Some (t, i)" for t i
        using ok that fresh unfolding mempool_inv_def edges_ok_def by blast
      then show ?thesis using r e by (auto split: option.split)
    qed
  qed
qed

text \<open>
  Claim C24. Adding a batch of new transactions to the mempool and removing them again is a round trip: for
  transactions that are not yet indexed and spend nothing the mempool already spends, once \<open>add\<close>
  has indexed the batch, \<open>remove\<close> of the same transactions in any order succeeds without meeting one
  of its panics, and every index answers every lookup as before.
\<close>

theorem mempool_add_remove:
  assumes "mempool_ok B mp" and "distinct (map fst txs)" and "fst ` set txs \<inter> indexed_txids mp = {}"
    and "\<forall>p \<in> batch_spends txs. \<not> has_spend mp p"
    and "mempool_add B mp txs = Inr mp1" and "distinct ts" and "set ts = fst ` set txs"
  shows "\<exists>mp2. mempool_remove mp1 ts = Inr mp2 \<and> mempool_ok B mp2 \<and> same_view mp mp2"
proof -
  have add: "mempool_ok B mp1" "batch_added txs mp mp1" using mempool_add_spec [OF assms(1,2,3,5)] by simp_all
  obtain E E1 where inv: "mempool_inv B mp E" "mempool_inv B mp1 E1" using assms(1) add(1) by (auto simp: mempool_ok_def)
  have "fst ` set txs \<subseteq> indexed_txids mp1"
    using batch_addedD(3) [OF add(2)] by (simp add: dom_map_of_conv_image_fst)
  then obtain mp2 where mp2: "mempool_remove mp1 ts = Inr mp2" "mempool_inv B mp2 E1" "batch_removed (set ts) mp1 mp2"
    using mempool_remove_spec [OF inv(2) assms(6)] assms(7) by auto
  then have "same_view mp mp2" using add_remove_view [OF inv(1) mp2(2) assms(3,4) add(2)] assms(7) by simp
  then show ?thesis using mp2 by (auto simp: mempool_ok_def)
qed

end
