(* ===== verification/MempoolSync.thy ===== *)
theory MempoolSync
  imports MempoolIndex Indexer
begin

text \<open>
  Synchronising the mempool with the daemon: fetching transactions, \<open>add_missing\<close> and \<open>ensure_txs\<close> for
  transactions a client broadcast, and \<open>update\<close>, with the closure computations that keep a batch
  indexable when some of its transactions are gone. Transactions are broadcast while an update is
  running: the steps at which the update holds the lock are definitions of their own.

  The calls to the daemon are the fields of \<open>mempool_rpc\<close>, with what one call returned.
\<close>

section \<open>The daemon\<close>

record mempool_rpc =
  rpc_getrawmempool :: "txid list res"
  rpc_getrawtransaction :: "txid \<Rightarrow> transaction option res"
  rpc_getmempooltx :: "txid \<Rightarrow> transaction res"
  rpc_tip :: "blockhash res"

definition RPC_INVALID_ADDRESS_OR_KEY :: int where
  "RPC_INVALID_ADDRESS_OR_KEY = -5"

text \<open>A reply that is not a transaction in hexadecimal is \<open>Inr None\<close>.\<close>

definition available_tx :: "mempool_rpc \<Rightarrow> txid \<Rightarrow> tx_map res" where
  "available_tx M txid =
     (case rpc_getrawtransaction M txid of
        Inr val \<Rightarrow> rmap (\<lambda>tx. [(txid, tx)]) (ok_or (Msg ''failed to deserialize'') val)
      | Inl (RpcError code msg method) \<Rightarrow>
          if code = RPC_INVALID_ADDRESS_OR_KEY then Inr [] else Inl (RpcError code msg method)
      | Inl e \<Rightarrow> Inl e)"

definition gettransactions_available :: "mempool_rpc \<Rightarrow> txid list \<Rightarrow> tx_map res" where
  "gettransactions_available M txids = rmap concat (collect (map (available_tx M) txids))"

definition getmempooltxids :: "mempool_rpc \<Rightarrow> txid list res" where
  "getmempooltxids M = rpc_getrawmempool M"

section \<open>Transactions a client broadcast\<close>

definition missing_txids :: "'db mempool \<Rightarrow> txid list \<Rightarrow> txid list" where
  "missing_txids mp txids = filter (\<lambda>t. map_of (mp_txstore mp) t = None) txids"

fun fetch_missing :: "mempool_rpc \<Rightarrow> txid list \<Rightarrow> tx_map \<Rightarrow> tx_map \<Rightarrow> txid list \<Rightarrow> tx_map \<times> txid list" where
  "fetch_missing M [] known_txs txs_map unavailable = (txs_map, unavailable)"
| "fetch_missing M (t # missing) known_txs txs_map unavailable =
     (case map_of known_txs t of
        Some tx \<Rightarrow> fetch_missing M missing (AList.delete t known_txs) (AList.update t tx txs_map) unavailable
      | None \<Rightarrow>
          (case rpc_getmempooltx M t of
             Inr tx \<Rightarrow> fetch_missing M missing known_txs (AList.update t tx txs_map) unavailable
           | Inl e \<Rightarrow> fetch_missing M missing known_txs txs_map (unavailable @ [t])))"

definition not_indexed :: "'db mempool \<Rightarrow> tx_map \<Rightarrow> tx_map" where
  "not_indexed mp txs_map = filter (\<lambda>(t, _). map_of (mp_txstore mp) t = None) txs_map"

text \<open>The part of \<open>add_missing\<close> under the write lock.\<close>

definition insert_missing :: "bitcoin_lib \<Rightarrow> 'db mempool \<Rightarrow> tx_map \<Rightarrow> 'db mempool res" where
  "insert_missing B mp txs_map =
     (if not_indexed mp txs_map = [] then Inr mp else mempool_add B mp (not_indexed mp txs_map))"

text \<open>A failed \<open>add\<close> has changed nothing.\<close>

definition add_missing :: "bitcoin_lib \<Rightarrow> mempool_rpc \<Rightarrow> 'db mempool \<Rightarrow> txid list \<Rightarrow> tx_map \<Rightarrow> 'db mempool \<times> txid list res" where
  "add_missing B M mp txids known_txs =
     (case fetch_missing M (missing_txids mp txids) known_txs [] [] of
        (txs_map, unavailable) \<Rightarrow>
          (case insert_missing B mp txs_map of
             Inr mp' \<Rightarrow> (mp', Inr unavailable)
           | Inl e \<Rightarrow> (mp, Inl e)))"

definition ensure_txs_with :: "bitcoin_lib \<Rightarrow> mempool_rpc \<Rightarrow> 'db mempool \<Rightarrow> txid list \<Rightarrow> tx_map \<Rightarrow> 'db mempool \<times> unit res" where
  "ensure_txs_with B M mp txids known_txs =
     (case add_missing B M mp txids known_txs of
        (mp', r) \<Rightarrow> (mp', rbind r (\<lambda>unavailable. ensure (unavailable = []) (Msg ''cannot find mempool txids''))))"

definition ensure_txs :: "bitcoin_lib \<Rightarrow> mempool_rpc \<Rightarrow> 'db mempool \<Rightarrow> txid list \<Rightarrow> 'db mempool \<times> unit res" where
  "ensure_txs B M mp txids = ensure_txs_with B M mp txids []"

definition ensure_tx :: "bitcoin_lib \<Rightarrow> mempool_rpc \<Rightarrow> 'db mempool \<Rightarrow> txid \<Rightarrow> 'db mempool \<times> unit res" where
  "ensure_tx B M mp txid = ensure_txs_with B M mp [txid] []"

section \<open>Updates\<close>

definition difference :: "'a list \<Rightarrow> 'a list \<Rightarrow> 'a list" where
  "difference xs ys = filter (\<lambda>x. x \<notin> set ys) xs"

definition update_evict :: "'db mempool \<Rightarrow> txid list \<Rightarrow> 'db mempool res" where
  "update_evict mp evicted = (if evicted = [] then Inr mp else mempool_remove mp evicted)"

function drop_replaced :: "tx_map \<Rightarrow> txid set \<Rightarrow> tx_map" where
  "drop_replaced fetched replaced =
     (if replaced = {} then fetched
      else drop_replaced (filter (\<lambda>(_, tx). \<not> spends_from replaced tx) fetched)
        (set (map fst (filter (\<lambda>(_, tx). spends_from replaced tx) fetched))))"
  by pat_completeness auto

termination
proof (relation "measures [\<lambda>(fetched, replaced). length fetched, \<lambda>(fetched, replaced). if replaced = {} then 0 else 1]", simp)
  fix fetched :: tx_map and replaced :: "txid set"
  assume ne: "replaced \<noteq> {}"
  show "((filter (\<lambda>(_, tx). \<not> spends_from replaced tx) fetched,
      set (map fst (filter (\<lambda>(_, tx). spends_from replaced tx) fetched))), fetched, replaced)
    \<in> measures [\<lambda>(fetched, replaced). length fetched, \<lambda>(fetched, replaced). if replaced = {} then 0 else 1]"
  proof (cases "filter (\<lambda>(_, tx). spends_from replaced tx) fetched = []")
    case True
    then have "filter (\<lambda>(_, tx). \<not> spends_from replaced tx) fetched = fetched"
      by (auto simp: filter_empty_conv filter_id_conv)
    then show ?thesis using ne True by simp
  next
    case False
    then obtain x where "x \<in> set fetched" "\<not> (\<lambda>(_, tx). \<not> spends_from replaced tx) x" by (auto simp: filter_empty_conv)
    then have "length (filter (\<lambda>(_, tx). \<not> spends_from replaced tx) fetched) < length fetched" by (rule length_filter_less)
    then show ?thesis by simp
  qed
qed

declare drop_replaced.simps [simp del]

text \<open>The part of \<open>update\<close> between its locks; \<open>None\<close> when the chain tip moved.\<close>

definition fetch_new :: "mempool_rpc \<Rightarrow> blockhash \<Rightarrow> txid list \<Rightarrow> tx_map option res" where
  "fetch_new M best_tip fresh_txids =
     rbind (gettransactions_available M fresh_txids) (\<lambda>fetched_txs.
     rbind (rpc_tip M) (\<lambda>best.
       if best \<noteq> best_tip then Inr None
       else Inr (Some (drop_replaced fetched_txs (set (filter (\<lambda>t. map_of fetched_txs t = None) fresh_txids))))))"

definition refresh_backlog :: "nat \<Rightarrow> 'db mempool \<Rightarrow> 'db mempool res" where
  "refresh_backlog now mp =
     (if now - snd (mp_backlog_stats mp) > from_secs BACKLOG_STATS_TTL then update_backlog_stats now mp else Inr mp)"

text \<open>The part of \<open>update\<close> under its last write lock.\<close>

definition indexed_with :: "nat \<Rightarrow> 'db mempool \<Rightarrow> mempool_sync_status \<Rightarrow> 'db mempool \<times> mempool_sync_status res" where
  "indexed_with now mp status =
     (case refresh_backlog now mp of Inr mp' \<Rightarrow> (mp', Inr status) | Inl e \<Rightarrow> (mp, Inl e))"

definition add_fetched :: "bitcoin_lib \<Rightarrow> nat \<Rightarrow> 'db mempool \<Rightarrow> tx_map \<Rightarrow> 'db mempool \<times> mempool_sync_status res" where
  "add_fetched B now mp txs =
     (case mempool_add B mp txs of
        Inr mp' \<Rightarrow> indexed_with now mp' Synced
      | Inl e \<Rightarrow>
          if is_panic e then (mp, Inl e)
          else
            (case drop_unresolvable B mp txs of
               Inl e' \<Rightarrow> (mp, Inl e')
             | Inr (unresolvable, rest) \<Rightarrow>
                 if unresolvable = {} then (mp, Inr FailedToIndex)
                 else
                   (case mempool_add B mp rest of
                      Inr mp' \<Rightarrow> indexed_with now mp' FailedToIndex
                    | Inl e' \<Rightarrow> (mp, if is_panic e' then Inl e' else Inr FailedToIndex))))"

definition index_fetched :: "bitcoin_lib \<Rightarrow> nat \<Rightarrow> 'db mempool \<Rightarrow> tx_map \<Rightarrow> 'db mempool \<times> mempool_sync_status res" where
  "index_fetched B now mp fetched_txs =
     (if fetched_txs = [] then (mp, Inr Synced)
      else if not_indexed mp fetched_txs = [] then indexed_with now mp Synced
      else add_fetched B now mp (not_indexed mp fetched_txs))"

text \<open>An update that no other thread interrupts.\<close>

definition mempool_update ::
  "bitcoin_lib \<Rightarrow> mempool_rpc \<Rightarrow> nat \<Rightarrow> blockhash \<Rightarrow> 'db mempool \<Rightarrow> 'db mempool \<times> mempool_sync_status res" where
  "mempool_update B M now best_tip mp =
     (case chain_err ''failed to update mempool from daemon'' (getmempooltxids M) of
        Inl e \<Rightarrow> (mp, Inl e)
      | Inr bitcoind_txids \<Rightarrow>
          let indexed = mempool_txids mp;
              fresh_txids = difference bitcoind_txids indexed
          in case update_evict mp (difference indexed bitcoind_txids) of
               Inl e \<Rightarrow> (mp, Inl e)
             | Inr mp1 \<Rightarrow>
                 if fresh_txids = [] then (mp1, Inr Synced)
                 else case fetch_new M best_tip fresh_txids of
                   Inl e \<Rightarrow> (mp1, Inl e)
                 | Inr None \<Rightarrow> (mp1, Inr TipMoved)
                 | Inr (Some fetched_txs) \<Rightarrow> index_fetched B now mp1 fetched_txs)"

section \<open>Updates and broadcasts interleaved\<close>

text \<open>
  Where an update is: it has the daemon's list (\<open>Listed\<close>), it has compared it with the indexed
  transactions (\<open>Evicting\<close>), it is fetching (\<open>Fetching\<close>), it is about to index (\<open>Indexing\<close>).
\<close>

datatype update_pc = Idle | Listed "txid list" | Evicting "txid list" "txid list" | Fetching "txid list" | Indexing tx_map

record 'db sync_state =
  sy_mempool :: "'db mempool"
  sy_update :: update_pc

inductive sync_step :: "bitcoin_lib \<Rightarrow> 'db sync_state \<Rightarrow> 'db sync_state \<Rightarrow> bool" for B where
  step_list: "sy_update s = Idle \<Longrightarrow> getmempooltxids M = Inr txids \<Longrightarrow> distinct txids \<Longrightarrow>
    sync_step B s (s\<lparr>sy_update := Listed txids\<rparr>)"
| step_compare: "sy_update s = Listed txids \<Longrightarrow> indexed = mempool_txids (sy_mempool s) \<Longrightarrow>
    sync_step B s (s\<lparr>sy_update := Evicting (difference indexed txids) (difference txids indexed)\<rparr>)"
| step_evict: "sy_update s = Evicting evicted new \<Longrightarrow> update_evict (sy_mempool s) evicted = Inr mp \<Longrightarrow>
    sync_step B s (s\<lparr>sy_mempool := mp, sy_update := if new = [] then Idle else Fetching new\<rparr>)"
| step_fetch: "sy_update s = Fetching new \<Longrightarrow> fetch_new M best_tip new = Inr (Some fetched) \<Longrightarrow>
    sync_step B s (s\<lparr>sy_update := Indexing fetched\<rparr>)"
| step_give_up: "sy_update s = Fetching new \<Longrightarrow> \<nexists>fetched. fetch_new M best_tip new = Inr (Some fetched) \<Longrightarrow>
    sync_step B s (s\<lparr>sy_update := Idle\<rparr>)"
| step_index: "sy_update s = Indexing fetched \<Longrightarrow> index_fetched B now (sy_mempool s) fetched = (mp, Inr status) \<Longrightarrow>
    sync_step B s (s\<lparr>sy_mempool := mp, sy_update := Idle\<rparr>)"
| step_broadcast: "fetch_missing M missing known_txs [] [] = (txs, unavailable) \<Longrightarrow>
    insert_missing B (sy_mempool s) txs = Inr mp \<Longrightarrow>
    sync_step B s (s\<lparr>sy_mempool := mp\<rparr>)"
| step_chain: "sync_step B s (s\<lparr>sy_mempool := (sy_mempool s)\<lparr>mp_chain := q\<rparr>\<rparr>)"

text \<open>The states reached from an empty mempool through states where \<open>P\<close> holds.\<close>

inductive sync_reachable :: "bitcoin_lib \<Rightarrow> ('db mempool \<Rightarrow> bool) \<Rightarrow> 'db sync_state \<Rightarrow> bool" for B P where
  reach_start: "sync_reachable B P \<lparr>sy_mempool = mempool_new now q c, sy_update = Idle\<rparr>"
| reach_step: "sync_reachable B P s \<Longrightarrow> sync_step B s s' \<Longrightarrow> P (sy_mempool s') \<Longrightarrow> sync_reachable B P s'"

section \<open>The invariant of a synchronised mempool\<close>

definition update_ok :: "'db mempool \<Rightarrow> update_pc \<Rightarrow> bool" where
  "update_ok mp pc =
     (case pc of
        Idle \<Rightarrow> True
      | Listed txids \<Rightarrow> distinct txids
      | Evicting evicted new \<Rightarrow> distinct evicted \<and> set evicted \<subseteq> indexed_txids mp \<and> distinct new
      | Fetching new \<Rightarrow> distinct new
      | Indexing fetched \<Rightarrow> distinct (map fst fetched))"

lemma distinct_keys_filter: "distinct (map fst xs) \<Longrightarrow> distinct (map fst (filter P xs))"
  by (simp add: distinct_map_filter)

lemma not_indexed_fresh: "fst ` set (not_indexed mp txs) \<inter> indexed_txids mp = {}"
  by (auto simp: not_indexed_def)

lemma distinct_not_indexed: "distinct (map fst txs) \<Longrightarrow> distinct (map fst (not_indexed mp txs))"
  by (simp add: not_indexed_def distinct_keys_filter)

lemma available_tx_keys: "available_tx M t = Inr xs \<Longrightarrow> map fst xs = [] \<or> map fst xs = [t]"
  by (auto simp: available_tx_def rmap_Inr_iff split: sum.splits error.splits if_splits)

lemma gettransactions_available_keys:
  "gettransactions_available M txids = Inr xs \<Longrightarrow> fst ` set xs \<subseteq> set txids \<and> (distinct txids \<longrightarrow> distinct (map fst xs))"
proof (induction txids arbitrary: xs)
  case (Cons t txids)
  obtain ys zs where ys: "available_tx M t = Inr ys" and zs: "gettransactions_available M txids = Inr zs" and xs: "xs = ys @ zs"
    using Cons.prems by (cases "available_tx M t") (auto simp: gettransactions_available_def res_iffs)
  show ?case using Cons.IH [OF zs] available_tx_keys [OF ys] unfolding xs by auto
qed (simp add: gettransactions_available_def)

lemma drop_replaced_filter: "\<exists>Q. drop_replaced fetched replaced = filter Q fetched"
proof (induction fetched replaced rule: drop_replaced.induct)
  case (1 fetched replaced)
  show ?case
  proof (cases "replaced = {}")
    case True
    then show ?thesis by (intro exI [of _ "\<lambda>_. True"]) (simp add: drop_replaced.simps)
  next
    case False
    then show ?thesis using "1.IH" [OF False] unfolding drop_replaced.simps [of fetched replaced] by (auto simp: filter_filter)
  qed
qed

lemma fetch_new_keys: "fetch_new M best_tip new = Inr (Some fetched) \<Longrightarrow> distinct new \<Longrightarrow> distinct (map fst fetched)"
proof -
  assume f: "fetch_new M best_tip new = Inr (Some fetched)" and d: "distinct new"
  obtain xs where xs: "gettransactions_available M new = Inr xs"
      "fetched = drop_replaced xs (set (filter (\<lambda>t. map_of xs t = None) new))"
    using f by (auto simp: fetch_new_def rbind_Inr_iff split: if_splits)
  then show ?thesis
    using gettransactions_available_keys [OF xs(1)] d drop_replaced_filter [of xs "set (filter (\<lambda>t. map_of xs t = None) new)"]
    by (auto simp: distinct_keys_filter)
qed

lemma fetch_missing_keys:
  "fetch_missing M missing known_txs txs unavailable = (txs', unavailable') \<Longrightarrow> distinct (map fst txs) \<Longrightarrow> distinct (map fst txs')"
  by (induction M missing known_txs txs unavailable rule: fetch_missing.induct)
    (auto simp: distinct_update split: option.splits sum.splits)

lemma refresh_backlog_Inr: "refresh_backlog now mp = Inr mp' \<Longrightarrow> \<exists>b. mp' = mp\<lparr>mp_backlog_stats := b\<rparr>"
proof (cases "now - snd (mp_backlog_stats mp) > from_secs BACKLOG_STATS_TTL")
  case True
  then show "refresh_backlog now mp = Inr mp' \<Longrightarrow> ?thesis"
    unfolding refresh_backlog_def update_backlog_stats_def by (auto simp: rmap_Inr_iff)
next
  case False
  then show "refresh_backlog now mp = Inr mp' \<Longrightarrow> ?thesis"
    unfolding refresh_backlog_def by (intro exI [of _ "mp_backlog_stats mp"]) simp
qed

lemma indexed_with_Inr: "indexed_with now mp st = (mp', Inr st') \<Longrightarrow> \<exists>b. mp' = mp\<lparr>mp_backlog_stats := b\<rparr>"
  unfolding indexed_with_def by (cases "refresh_backlog now mp") (simp_all add: refresh_backlog_Inr del: split_paired_Ex)

text \<open>A step that extends the mempool: by a batch of new transactions or by none.\<close>

definition grows :: "bitcoin_lib \<Rightarrow> 'db mempool \<Rightarrow> 'db mempool \<Rightarrow> bool" where
  "grows B mp mp' \<longleftrightarrow>
     mp' = mp \<or>
     (\<exists>txs. distinct (map fst txs) \<and> fst ` set txs \<inter> indexed_txids mp = {} \<and> mempool_add B mp txs = Inr mp')"

lemma drop_unresolvable_filter: "drop_unresolvable B mp txs = Inr (d, rest) \<Longrightarrow> rest = filter (\<lambda>(t, _). t \<notin> d) txs"
  unfolding drop_unresolvable_def by (auto simp: rmap_Inr_iff Let_def)

lemma growsI: "distinct (map fst txs) \<Longrightarrow> fst ` set txs \<inter> indexed_txids mp = {} \<Longrightarrow> mempool_add B mp txs = Inr mp' \<Longrightarrow> grows B mp mp'"
  unfolding grows_def by blast

lemma grows_refl: "grows B mp mp"
  unfolding grows_def by blast

lemma no_backlog_change: "\<exists>b. mp = mp\<lparr>mp_backlog_stats := b\<rparr>"
  by (intro exI [of _ "mp_backlog_stats mp"]) simp

lemma add_fetched_grows:
  assumes r: "add_fetched B now mp txs = (mp', Inr status)" and d: "distinct (map fst txs)" and f: "fst ` set txs \<inter> indexed_txids mp = {}"
  shows "\<exists>mp1 b. grows B mp mp1 \<and> mp' = mp1\<lparr>mp_backlog_stats := b\<rparr>"
proof (cases "mempool_add B mp txs")
  case (Inr mp1)
  then have "indexed_with now mp1 Synced = (mp', Inr status)" using r by (simp add: add_fetched_def)
  from indexed_with_Inr [OF this] show ?thesis using growsI [OF d f Inr] by blast
next
  case (Inl e)
  then have r': "(case drop_unresolvable B mp txs of
            Inl e' \<Rightarrow> (mp, Inl e')
          | Inr (unresolvable, rest) \<Rightarrow>
              if unresolvable = {} then (mp, Inr FailedToIndex)
              else
                (case mempool_add B mp rest of
                   Inr mp' \<Rightarrow> indexed_with now mp' FailedToIndex
                 | Inl e' \<Rightarrow> (mp, if is_panic e' then Inl e' else Inr FailedToIndex))) = (mp', Inr status)"
    using r by (simp add: add_fetched_def split: if_splits)
  then obtain u rest where u: "drop_unresolvable B mp txs = Inr (u, rest)"
    by (cases "drop_unresolvable B mp txs") auto
  show ?thesis
  proof (cases "\<exists>mp1. mempool_add B mp rest = Inr mp1 \<and> u \<noteq> {}")
    case True
    then obtain mp1 where mp1: "mempool_add B mp rest = Inr mp1" "u \<noteq> {}" by blast
    then have "indexed_with now mp1 FailedToIndex = (mp', Inr status)" using r' u by simp
    moreover have "grows B mp mp1"
    proof (rule growsI [OF _ _ mp1(1)])
      show "distinct (map fst rest)" unfolding drop_unresolvable_filter [OF u] using d by (rule distinct_keys_filter)
      show "fst ` set rest \<inter> indexed_txids mp = {}" unfolding drop_unresolvable_filter [OF u] using f by auto
    qed
    ultimately show ?thesis using indexed_with_Inr by blast
  next
    case False
    then have "mp' = mp" using r' u by (cases "mempool_add B mp rest") (auto split: if_splits)
    then show ?thesis using grows_refl no_backlog_change by blast
  qed
qed

lemma index_fetched_grows:
  assumes r: "index_fetched B now mp fetched = (mp', Inr status)" and d: "distinct (map fst fetched)"
  shows "\<exists>mp1 b. grows B mp mp1 \<and> mp' = mp1\<lparr>mp_backlog_stats := b\<rparr>"
proof -
  consider "fetched = []" | "fetched \<noteq> []" "not_indexed mp fetched = []" | "fetched \<noteq> []" "not_indexed mp fetched \<noteq> []" by blast
  then show ?thesis
  proof cases
    case 1
    then have "mp' = mp" using r by (simp add: index_fetched_def)
    then show ?thesis using grows_refl no_backlog_change by blast
  next
    case 2
    then have "indexed_with now mp Synced = (mp', Inr status)" using r by (simp add: index_fetched_def)
    then show ?thesis using indexed_with_Inr grows_refl by blast
  next
    case 3
    then have "add_fetched B now mp (not_indexed mp fetched) = (mp', Inr status)" using r by (simp add: index_fetched_def)
    then show ?thesis using add_fetched_grows distinct_not_indexed [OF d] not_indexed_fresh by blast
  qed
qed

lemma insert_missing_grows:
  assumes "insert_missing B mp txs = Inr mp'" and "distinct (map fst txs)"
  shows "grows B mp mp'"
proof (cases "not_indexed mp txs = []")
  case True
  then show ?thesis using assms(1) grows_refl by (simp add: insert_missing_def)
next
  case False
  then have "mempool_add B mp (not_indexed mp txs) = Inr mp'" using assms(1) by (simp add: insert_missing_def)
  then show ?thesis using growsI distinct_not_indexed [OF assms(2)] not_indexed_fresh by blast
qed

abbreviation all_spends :: "'db mempool \<Rightarrow> bool" where
  "all_spends mp \<equiv> edges_complete (mp_txstore mp) (mp_edges mp)"

lemma grows_ok:
  assumes g: "grows B mp mp'" and ok: "mempool_ok B mp"
  shows "mempool_ok B mp' \<and> indexed_txids mp \<subseteq> indexed_txids mp' \<and> (all_spends mp \<longrightarrow> all_spends mp')"
proof (cases "mp' = mp")
  case False
  then obtain txs where txs: "distinct (map fst txs)" "fst ` set txs \<inter> indexed_txids mp = {}" "mempool_add B mp txs = Inr mp'"
    using g unfolding grows_def by blast
  from mempool_add_spec [OF ok txs] have s: "mempool_ok B mp'" "batch_added txs mp mp'" "all_spends mp \<longrightarrow> all_spends mp'" by simp_all
  then show ?thesis using batch_addedD(3) [OF s(2)] by auto
qed (use ok in simp)

lemma backlog_ok: "mempool_ok B (mp\<lparr>mp_backlog_stats := b\<rparr>) = mempool_ok B mp"
  by (simp add: mempool_ok_def mempool_inv_backlog)

lemma chain_ok: "mempool_ok B (mp\<lparr>mp_chain := q\<rparr>) = mempool_ok B mp"
  by (simp add: mempool_ok_def mempool_inv_chain)

lemma all_spends_removed:
  assumes r: "batch_removed ts mp mp'" and e: "edges_ok (mp_txstore mp) (mp_edges mp)"
    and c: "conflict_free (mp_txstore mp)" and a: "all_spends mp"
  shows "all_spends mp'"
  unfolding edges_complete_def
proof (intro allI impI)
  fix u ux p
  assume u: "map_of (mp_txstore mp') u = Some ux" and p: "p \<in> spent_by ux"
  have u': "map_of (mp_txstore mp) u = Some ux" "u \<notin> ts"
    using r u by (auto simp: batch_removed_def restrict_map_def split: if_splits)
  obtain t i where ti: "map_of (mp_edges mp) p = Some (t, i)" using a u'(1) p unfolding edges_complete_def by fast
  obtain tx where tx: "map_of (mp_txstore mp) t = Some tx" "is_input tx i p" using e ti unfolding edges_ok_def by blast
  have "t = u" using c tx u'(1) p is_input_spent [OF tx(2)] unfolding conflict_free_def by blast
  then show "map_of (mp_edges mp') p \<noteq> None" using r ti u'(2) by (simp add: batch_removed_def)
qed

lemma update_evict_ok:
  assumes ok: "mempool_ok B mp" and d: "distinct evicted" and s: "set evicted \<subseteq> indexed_txids mp"
  shows "\<exists>mp'. update_evict mp evicted = Inr mp' \<and> mempool_ok B mp' \<and>
    map_of (mp_txstore mp') = map_of (mp_txstore mp) |` (- set evicted) \<and>
    (conflict_free (mp_txstore mp) \<longrightarrow> all_spends mp \<longrightarrow> all_spends mp')"
proof (cases "evicted = []")
  case True
  then show ?thesis using ok by (simp add: update_evict_def restrict_map_def)
next
  case False
  obtain E where E: "mempool_inv B mp E" using ok by (auto simp: mempool_ok_def)
  obtain mp' where r: "mempool_remove mp evicted = Inr mp'" "mempool_inv B mp' E" "batch_removed (set evicted) mp mp'"
    using mempool_remove_spec [OF E d s] by blast
  have e: "edges_ok (mp_txstore mp) (mp_edges mp)" using E by (simp add: mempool_inv_def)
  have "mempool_ok B mp'" using r(2) by (auto simp: mempool_ok_def)
  moreover have "map_of (mp_txstore mp') = map_of (mp_txstore mp) |` (- set evicted)" using r(3) by (simp add: batch_removed_def)
  ultimately show ?thesis using r(1) False all_spends_removed [OF r(3) e] by (simp add: update_evict_def)
qed

lemma set_mempool_txids: "set (mempool_txids mp) = indexed_txids mp"
  by (simp add: mempool_txids_def dom_map_of_conv_image_fst)

lemma update_ok_mono: "update_ok mp pc \<Longrightarrow> indexed_txids mp \<subseteq> indexed_txids mp' \<Longrightarrow> update_ok mp' pc"
  by (cases pc) (simp_all add: update_ok_def, blast)

lemma sync_step_ok:
  assumes st: "sync_step B s s'" and ok: "mempool_ok B (sy_mempool s)" and pc: "update_ok (sy_mempool s) (sy_update s)"
  shows "mempool_ok B (sy_mempool s') \<and> update_ok (sy_mempool s') (sy_update s') \<and>
    (conflict_free (mp_txstore (sy_mempool s)) \<longrightarrow> all_spends (sy_mempool s) \<longrightarrow> all_spends (sy_mempool s'))"
  using st
proof cases
  case (step_list M txids)
  then show ?thesis using ok by (simp add: update_ok_def)
next
  case (step_compare txids indexed)
  obtain E where "mempool_inv B (sy_mempool s) E" using ok by (auto simp: mempool_ok_def)
  then have "distinct (mempool_txids (sy_mempool s))" by (simp add: mempool_inv_def mempool_txids_def)
  moreover have "distinct txids" using pc step_compare by (simp add: update_ok_def)
  moreover have "set (difference indexed txids) \<subseteq> indexed_txids (sy_mempool s)"
    unfolding step_compare(3) difference_def set_mempool_txids [symmetric] by auto
  ultimately show ?thesis using ok step_compare(1,3) by (simp add: update_ok_def difference_def)
next
  case (step_evict evicted new mp)
  have "distinct evicted" "set evicted \<subseteq> indexed_txids (sy_mempool s)" "distinct new"
    using pc step_evict by (simp_all add: update_ok_def)
  with update_evict_ok [OF ok this(1,2)] show ?thesis using step_evict by (auto simp: update_ok_def)
next
  case (step_fetch new M best_tip fetched)
  then show ?thesis using ok pc fetch_new_keys [OF step_fetch(3)] by (simp add: update_ok_def)
next
  case (step_give_up new M best_tip)
  then show ?thesis using ok by (simp add: update_ok_def)
next
  case (step_index fetched now mp status)
  have "distinct (map fst fetched)" using pc step_index by (simp add: update_ok_def)
  then obtain mp1 b where g: "grows B (sy_mempool s) mp1" and mp: "mp = mp1\<lparr>mp_backlog_stats := b\<rparr>"
    using index_fetched_grows [OF step_index(3)] by blast
  then show ?thesis using grows_ok [OF g ok] step_index(1) by (simp add: update_ok_def backlog_ok)
next
  case (step_broadcast M missing known_txs txs unavailable mp)
  have "grows B (sy_mempool s) mp" using insert_missing_grows [OF step_broadcast(3)] fetch_missing_keys [OF step_broadcast(2)] by simp
  from grows_ok [OF this ok] have g: "mempool_ok B mp" "indexed_txids (sy_mempool s) \<subseteq> indexed_txids mp"
    "all_spends (sy_mempool s) \<longrightarrow> all_spends mp" by simp_all
  then show ?thesis using update_ok_mono [OF pc g(2)] step_broadcast(1) by simp
next
  case (step_chain q)
  then show ?thesis using ok pc by (cases "sy_update s") (simp_all add: update_ok_def chain_ok)
qed

lemma all_spends_new: "all_spends (mempool_new now q c)"
  by (simp add: edges_complete_def mempool_new_def)

lemma conflict_free_new: "conflict_free (mp_txstore (mempool_new now q c))"
  by (simp add: conflict_free_def mempool_new_def)

lemma sync_reachable_ok: "sync_reachable B P s \<Longrightarrow> mempool_ok B (sy_mempool s) \<and> update_ok (sy_mempool s) (sy_update s)"
proof (induction rule: sync_reachable.induct)
  case (reach_start now q c)
  then show ?case using mempool_ok_new by (simp add: update_ok_def)
next
  case (reach_step s s')
  then show ?case using sync_step_ok by blast
qed

text \<open>
  Claim C5. Whatever the daemon answers, and however broadcasts, the updates of the mempool and the growth of the
  chain interleave, every reachable mempool is well formed: the stored transactions, their fees, the
  script hashes they touch and their history entries agree, each spend index entry names an input of
  a stored transaction, the list of recent transactions holds at most ten, and the eviction that an update is
  about to perform succeeds without a panic.
\<close>

theorem mempool_well_formed:
  assumes "sync_reachable B P s"
  shows "mempool_ok B (sy_mempool s) \<and>
    (\<forall>evicted new. sy_update s = Evicting evicted new \<longrightarrow> (\<exists>mp'. update_evict (sy_mempool s) evicted = Inr mp'))"
proof (intro conjI allI impI)
  have ok: "mempool_ok B (sy_mempool s)" "update_ok (sy_mempool s) (sy_update s)" using sync_reachable_ok [OF assms] by simp_all
  then show "mempool_ok B (sy_mempool s)" by simp
  fix evicted new
  assume "sy_update s = Evicting evicted new"
  then have "distinct evicted" "set evicted \<subseteq> indexed_txids (sy_mempool s)" using ok(2) by (simp_all add: update_ok_def)
  from update_evict_ok [OF ok(1) this] show "\<exists>mp'. update_evict (sy_mempool s) evicted = Inr mp'" by blast
qed

end
