(* ===== verification/MempoolUtxo.thy ===== *)
theory MempoolUtxo
  imports MempoolSync
begin

text \<open>
  What the mempool answers: the unspent outputs of a script are exactly the outputs of the stored
  transactions that pay to it and that no stored transaction spends.
\<close>

section \<open>Unspent outputs\<close>

lemma funding_in_tx_entries:
  assumes "tx_entries B c t tx prevouts = Inr es"
  shows "(sh, Funding f) \<in> set es \<longleftrightarrow>
    (\<exists>i < length (tx_output tx). (is_spendable B (tx_output tx ! i) \<or> index_unspendables c) \<and>
       sh = compute_script_hash B (script_pubkey (tx_output tx ! i)) \<and>
       f = \<lparr>fi_txid = t, fi_vout = of_nat i, fi_value = txo_value (tx_output tx ! i)\<rparr>)"
proof -
  define fs where "fs = filter (\<lambda>(_, txo). is_spendable B txo \<or> index_unspendables c) (enum32 (tx_output tx))"
  obtain ss where ss: "collect (map (spending_entry B t tx) prevouts) = Inr ss" and es: "es = map (funding_entry B t) fs @ ss"
    using assms by (auto simp: tx_entries_def rmap_Inr_iff fs_def)
  have "(sh, Funding f) \<notin> set ss"
  proof
    assume "(sh, Funding f) \<in> set ss"
    then obtain x where "spending_entry B t tx x = Inr (sh, Funding f)" using collect_map_mem [OF ss] by blast
    then show False by (auto simp: spending_entry_def Let_def split: prod.splits if_splits)
  qed
  moreover have "(sh, Funding f) \<in> funding_entry B t ` set fs \<longleftrightarrow>
    (\<exists>i < length (tx_output tx). (is_spendable B (tx_output tx ! i) \<or> index_unspendables c) \<and>
       sh = compute_script_hash B (script_pubkey (tx_output tx ! i)) \<and>
       f = \<lparr>fi_txid = t, fi_vout = of_nat i, fi_value = txo_value (tx_output tx ! i)\<rparr>)"
    unfolding fs_def set_filter set_enum32 by (auto simp: funding_entry_def image_iff)
  ultimately show ?thesis unfolding es by simp
qed

lemma entries_at_indexed:
  assumes "mempool_inv B mp E"
  shows "e \<in> set (entries_at (mp_history mp) sh) \<longleftrightarrow> (\<exists>t \<in> indexed_txids mp. (sh, e) \<in> set (E t))"
proof
  have h: "history_ok (indexed_txids mp) (mp_history mp) E" using assms by (simp add: mempool_inv_def)
  have f: "filter (of_txid t) (entries_at (mp_history mp) sh) = touching sh (E t)" if "t \<in> indexed_txids mp" for t
    using h that unfolding history_ok_def by blast
  show "\<exists>t \<in> indexed_txids mp. (sh, e) \<in> set (E t)" if e: "e \<in> set (entries_at (mp_history mp) sh)"
  proof (rule bexI [of _ "info_txid e"])
    show i: "info_txid e \<in> indexed_txids mp" using h e unfolding history_ok_def by blast
    have "e \<in> set (filter (of_txid (info_txid e)) (entries_at (mp_history mp) sh))" using e by simp
    then show "(sh, e) \<in> set (E (info_txid e))" unfolding f [OF i] touching_set .
  qed
  show "e \<in> set (entries_at (mp_history mp) sh)" if r: "\<exists>t \<in> indexed_txids mp. (sh, e) \<in> set (E t)"
  proof -
    obtain t where t: "t \<in> indexed_txids mp" "(sh, e) \<in> set (E t)" using r by blast
    then have "e \<in> set (filter (of_txid t) (entries_at (mp_history mp) sh))" unfolding f [OF t(1)] touching_set by simp
    then show ?thesis by simp
  qed
qed

lemma has_spend_iff:
  assumes "mempool_inv B mp E" and "all_spends mp"
  shows "has_spend mp p \<longleftrightarrow> (\<exists>t tx. map_of (mp_txstore mp) t = Some tx \<and> p \<in> spent_by tx)"
proof
  assume "has_spend mp p"
  then obtain t i where "map_of (mp_edges mp) p = Some (t, i)" by (auto simp: has_spend_def)
  moreover have "edges_ok (mp_txstore mp) (mp_edges mp)" using assms(1) by (simp add: mempool_inv_def)
  ultimately obtain tx where "map_of (mp_txstore mp) t = Some tx" "is_input tx i p" unfolding edges_ok_def by blast
  then show "\<exists>t tx. map_of (mp_txstore mp) t = Some tx \<and> p \<in> spent_by tx" using is_input_spent by blast
next
  assume "\<exists>t tx. map_of (mp_txstore mp) t = Some tx \<and> p \<in> spent_by tx"
  then obtain t tx where "map_of (mp_txstore mp) t = Some tx" "p \<in> spent_by tx" by blast
  then have "map_of (mp_edges mp) p \<noteq> None" using assms(2) unfolding edges_complete_def by blast
  then show "has_spend mp p" by (simp only: has_spend_def) simp
qed

text \<open>The unspent outputs of the stored transactions.\<close>

definition pays :: "bitcoin_lib \<Rightarrow> 'db mempool \<Rightarrow> fullhash \<Rightarrow> txid \<Rightarrow> nat \<Rightarrow> txout \<Rightarrow> bool" where
  "pays B mp sh t i txo \<longleftrightarrow>
     (\<exists>tx. map_of (mp_txstore mp) t = Some tx \<and> i < length (tx_output tx) \<and> tx_output tx ! i = txo) \<and>
     sh = compute_script_hash B (script_pubkey txo) \<and> (is_spendable B txo \<or> index_unspendables (mp_config mp))"

definition spent_in_mempool :: "'db mempool \<Rightarrow> outpoint \<Rightarrow> bool" where
  "spent_in_mempool mp p \<longleftrightarrow> (\<exists>t tx. map_of (mp_txstore mp) t = Some tx \<and> p \<in> spent_by tx)"

definition unspent_outputs :: "bitcoin_lib \<Rightarrow> 'db mempool \<Rightarrow> fullhash \<Rightarrow> utxo set" where
  "unspent_outputs B mp sh =
     {\<lparr>ut_txid = t, ut_vout = of_nat i, ut_confirmed = None, ut_value = txo_value txo\<rparr> | t i txo.
        pays B mp sh t i txo \<and> \<not> spent_in_mempool mp \<lparr>op_txid = t, op_vout = of_nat i\<rparr>}"

lemma funding_entries:
  assumes inv: "mempool_inv B mp E"
  shows "Funding f \<in> set (entries_at (mp_history mp) sh) \<longleftrightarrow>
    (\<exists>i txo. pays B mp sh (fi_txid f) i txo \<and> f = \<lparr>fi_txid = fi_txid f, fi_vout = of_nat i, fi_value = txo_value txo\<rparr>)"
    (is "_ \<longleftrightarrow> ?rhs")
proof
  have ti: "\<exists>tx prevouts. map_of (mp_txstore mp) t = Some tx \<and> tx_entries B (mp_config mp) t tx prevouts = Inr (E t)"
    if "t \<in> indexed_txids mp" for t using inv that unfolding mempool_inv_def tx_indexed_def by blast
  show ?rhs if r: "Funding f \<in> set (entries_at (mp_history mp) sh)"
  proof -
    obtain t where t: "t \<in> indexed_txids mp" "(sh, Funding f) \<in> set (E t)" using entries_at_indexed [OF inv] r by blast
    obtain tx prevouts where tx: "map_of (mp_txstore mp) t = Some tx" "tx_entries B (mp_config mp) t tx prevouts = Inr (E t)"
      using ti [OF t(1)] by blast
    obtain i where "i < length (tx_output tx)" "is_spendable B (tx_output tx ! i) \<or> index_unspendables (mp_config mp)"
      "sh = compute_script_hash B (script_pubkey (tx_output tx ! i))"
      and f: "f = \<lparr>fi_txid = t, fi_vout = of_nat i, fi_value = txo_value (tx_output tx ! i)\<rparr>"
      using t(2) unfolding funding_in_tx_entries [OF tx(2)] by blast
    then have "pays B mp sh (fi_txid f) i (tx_output tx ! i)" using tx(1) unfolding pays_def by (simp add: f)
    moreover have "f = \<lparr>fi_txid = fi_txid f, fi_vout = of_nat i, fi_value = txo_value (tx_output tx ! i)\<rparr>" by (simp add: f)
    ultimately show ?thesis by blast
  qed
  show "Funding f \<in> set (entries_at (mp_history mp) sh)" if r: ?rhs
  proof -
    obtain i txo where p: "pays B mp sh (fi_txid f) i txo" and f: "f = \<lparr>fi_txid = fi_txid f, fi_vout = of_nat i, fi_value = txo_value txo\<rparr>"
      using r by blast
    obtain tx where tx: "map_of (mp_txstore mp) (fi_txid f) = Some tx" "i < length (tx_output tx)" "tx_output tx ! i = txo"
      using p unfolding pays_def by blast
    then have t: "fi_txid f \<in> indexed_txids mp" by blast
    obtain prevouts where e: "tx_entries B (mp_config mp) (fi_txid f) tx prevouts = Inr (E (fi_txid f))" using ti [OF t] tx(1) by auto
    have "(sh, Funding f) \<in> set (E (fi_txid f))"
      unfolding funding_in_tx_entries [OF e] using tx p f by (intro exI [of _ i]) (simp add: pays_def)
    then show ?thesis using entries_at_indexed [OF inv] t by blast
  qed
qed

definition unconfirmed_utxo :: "funding_info \<Rightarrow> utxo" where
  "unconfirmed_utxo f = \<lparr>ut_txid = fi_txid f, ut_vout = fi_vout f, ut_confirmed = None, ut_value = fi_value f\<rparr>"

lemma funding_utxo_simps: "funding_utxo (Funding f) = Some (unconfirmed_utxo f)" "funding_utxo (Spending x) = None"
  by (simp_all add: funding_utxo_def unconfirmed_utxo_def)

lemma map_filter_funding: "u \<in> set (List.map_filter funding_utxo es) \<longleftrightarrow> (\<exists>f. Funding f \<in> set es \<and> u = unconfirmed_utxo f)"
proof (induction es)
  case (Cons e es)
  then show ?case by (cases e) (auto simp: List.map_filter_simps funding_utxo_simps)
qed (simp add: List.map_filter_simps)

lemma mempool_utxo_spec:
  assumes inv: "mempool_inv B mp E" and all: "all_spends mp" and r: "mempool_utxo mp sh = Inr us"
  shows "set us = unspent_outputs B mp sh"
proof (rule set_eqI)
  fix u
  define es where "es = entries_at (mp_history mp) sh"
  have us: "us = filter (\<lambda>u. \<not> has_spend mp (outpoint_from_utxo u)) (List.map_filter funding_utxo es)"
    using r by (auto simp: mempool_utxo_def es_def entries_at_def rbind_Inr_iff List.map_filter_simps split: option.splits)
  have spent: "has_spend mp p = spent_in_mempool mp p" for p
    unfolding spent_in_mempool_def by (rule has_spend_iff [OF inv all])
  have "u \<in> set us \<longleftrightarrow> (\<exists>f. Funding f \<in> set es \<and> u = unconfirmed_utxo f) \<and> \<not> spent_in_mempool mp (outpoint_from_utxo u)"
    unfolding us set_filter spent mem_Collect_eq map_filter_funding ..
  also have "\<dots> \<longleftrightarrow> (\<exists>t i txo. pays B mp sh t i txo \<and>
      u = unconfirmed_utxo \<lparr>fi_txid = t, fi_vout = of_nat i, fi_value = txo_value txo\<rparr>) \<and> \<not> spent_in_mempool mp (outpoint_from_utxo u)"
    unfolding es_def funding_entries [OF inv] by (metis funding_info.select_convs(1))
  also have "\<dots> \<longleftrightarrow> u \<in> unspent_outputs B mp sh"
    unfolding unspent_outputs_def by (auto simp: unconfirmed_utxo_def outpoint_from_utxo_def) blast+
  finally show "u \<in> set us \<longleftrightarrow> u \<in> unspent_outputs B mp sh" .
qed

lemma sync_reachable_all_spends:
  assumes "sync_reachable B (\<lambda>mp. conflict_free (mp_txstore mp)) s"
  shows "conflict_free (mp_txstore (sy_mempool s)) \<and> all_spends (sy_mempool s)"
  using assms
proof (induction rule: sync_reachable.induct)
  case (reach_start now q c)
  then show ?case by (simp add: all_spends_new conflict_free_new)
next
  case (reach_step s s')
  then show ?case using sync_step_ok [OF reach_step(2)] sync_reachable_ok [OF reach_step(1)] by blast
qed

text \<open>
  Claim C16. The unspent outputs that \<open>Mempool::utxo\<close> lists for a script hash: in every mempool reached
  without two stored transactions spending the same output, however updates and broadcasts
  interleave, they are the outputs of the stored transactions that pay to the script (the
  unspendable ones only when these are indexed) and that no stored transaction spends, each with
  its value and no confirmation; the only error is \<open>TooBigHistory\<close>, when the script has more history entries
  than the limit.
\<close>

theorem mempool_utxo_exact:
  assumes "sync_reachable B (\<lambda>mp. conflict_free (mp_txstore mp)) s"
  shows "(\<exists>us. mempool_utxo (sy_mempool s) sh = Inr us \<and> set us = unspent_outputs B (sy_mempool s) sh) \<or>
    (mempool_utxo (sy_mempool s) sh = Inl TooBigHistory \<and>
     length (entries_at (mp_history (sy_mempool s)) sh) > utxos_checkpoint_limit (mp_chain (sy_mempool s)))"
proof (cases "mempool_utxo (sy_mempool s) sh")
  case (Inr us)
  obtain E where "mempool_inv B (sy_mempool s) E" using sync_reachable_ok [OF assms] by (auto simp: mempool_ok_def)
  then show ?thesis using mempool_utxo_spec [OF _ _ Inr] sync_reachable_all_spends [OF assms] Inr by blast
next
  case (Inl e)
  then show ?thesis by (auto simp: mempool_utxo_def entries_at_def ensure_def split: option.splits if_splits)
qed

end
