(* ===== verification/MempoolResolve.thy ===== *)
theory MempoolResolve
  imports MempoolUtxo
begin

text \<open>
  Batches with previous outputs that are nowhere to be found: when \<open>add\<close> succeeds, and what
  \<open>drop_unresolvable\<close> removes from a batch for the retried \<open>add\<close> to succeed.
\<close>

section \<open>When a batch can be added\<close>

abbreviation chain_db :: "'db mempool \<Rightarrow> 'db DB" where
  "chain_db mp \<equiv> txstore_db (cq_store (mp_chain mp))"

definition resolved :: "bitcoin_lib \<Rightarrow> 'db mempool \<Rightarrow> outpoint \<Rightarrow> bool" where
  "resolved B mp p \<longleftrightarrow> mempool_lookup_txo (mp_txstore mp) p \<noteq> None \<or> (\<exists>txo. cq_lookup_txo B (mp_chain mp) p = Inr (Some txo))"

lemma finite_prev_outpoints [simp]: "finite (get_prev_outpoints B txs)" "finite (external_prevouts B m txs)"
  by (simp_all add: get_prev_outpoints_def external_prevouts_def)

lemma lookup_txos_no_panic:
  assumes "db_ok d" and "lookup_txos B d ps = Inl e"
  shows "\<not> is_panic e"
proof -
  define f where "f = (\<lambda>p. rbind (ok_or (MissingTxo p) (db_view d (tx_out_key p))) (\<lambda>raw.
            rmap (\<lambda>txo. (p, txo)) (ok_or (Msg ''failed to parse TxOut'') (deser_txout B raw))))"
  have l: "lookup_txos B d ps = rmap map_of (collect (map f (sorted_list_of_set ps)))"
    by (simp add: lookup_txos_def Let_def db_reads [OF assms(1)] zip_map1 zip_same_conv_map comp_def f_def)
  have f: "f p = Inl e' \<Longrightarrow> \<not> is_panic e'" for p e'
    by (cases "db_view d (tx_out_key p)"; cases "deser_txout B (the (db_view d (tx_out_key p)))") (auto simp: f_def is_panic_def)
  have "collect (map f xs) = Inl e' \<Longrightarrow> \<not> is_panic e'" for xs e'
  proof (induction xs)
    case (Cons x xs)
    then show ?case using f [of x] by (cases "f x"; cases "collect (map f xs)") auto
  qed simp
  then show ?thesis using assms(2) unfolding l by (cases "collect (map f (sorted_list_of_set ps))") auto
qed

lemma mempool_lookup_txos_spec:
  assumes db: "db_ok (chain_db mp)" and fin: "finite ps"
  shows "(\<exists>m. mempool_lookup_txos B mp ps = Inr m) \<longleftrightarrow> (\<forall>p \<in> ps. resolved B mp p)"
    and "mempool_lookup_txos B mp ps = Inr m \<Longrightarrow> p \<in> ps \<Longrightarrow> m p \<noteq> None"
    and "mempool_lookup_txos B mp ps = Inl e \<Longrightarrow> \<not> is_panic e"
proof -
  define qs where "qs = {p \<in> ps. mempool_lookup_txo (mp_txstore mp) p = None}"
  have fq: "finite qs" using fin by (simp add: qs_def)
  note l = lookup_txos_spec [OF db fq, of B]
  have m: "mempool_lookup_txos B mp ps =
     rmap (\<lambda>from_chain p. if p \<notin> ps then None
           else case mempool_lookup_txo (mp_txstore mp) p of Some txo \<Rightarrow> Some txo | None \<Rightarrow> from_chain p)
       (lookup_txos B (chain_db mp) qs)"
    by (simp add: mempool_lookup_txos_def cq_lookup_txos_def qs_def)
  have "(\<exists>m. mempool_lookup_txos B mp ps = Inr m) \<longleftrightarrow> (\<exists>m. lookup_txos B (chain_db mp) qs = Inr m)"
    unfolding m by (auto simp: rmap_Inr_iff)
  also have "\<dots> \<longleftrightarrow> (\<forall>p \<in> qs. \<exists>txo. lookup_txo B (chain_db mp) p = Inr (Some txo))" using l by blast
  also have "\<dots> \<longleftrightarrow> (\<forall>p \<in> ps. resolved B mp p)" by (auto simp: qs_def resolved_def cq_lookup_txo_def)
  finally show "(\<exists>m. mempool_lookup_txos B mp ps = Inr m) \<longleftrightarrow> (\<forall>p \<in> ps. resolved B mp p)" .
  show "m p \<noteq> None" if r: "mempool_lookup_txos B mp ps = Inr m" and p: "p \<in> ps"
  proof -
    obtain c where c: "lookup_txos B (chain_db mp) qs = Inr c"
      and mc: "m = (\<lambda>p. if p \<notin> ps then None
           else case mempool_lookup_txo (mp_txstore mp) p of Some txo \<Rightarrow> Some txo | None \<Rightarrow> c p)"
      using r unfolding m rmap_Inr_iff by blast
    show ?thesis
    proof (cases "mempool_lookup_txo (mp_txstore mp) p")
      case None
      then have "p \<in> qs" using p by (simp add: qs_def)
      then show ?thesis using l(1) [OF c] p None by (force simp: mc)
    qed (simp add: mc p)
  qed
  show "\<not> is_panic e" if "mempool_lookup_txos B mp ps = Inl e"
    using that lookup_txos_no_panic [OF db, of B qs] unfolding m by (cases "lookup_txos B (chain_db mp) qs") auto
qed

lemma extract_tx_prevouts_total:
  assumes "\<forall>txi \<in> set (tx_input tx). has_prevout B txi \<longrightarrow> txos (previous_output txi) \<noteq> None"
  shows "\<exists>pv. extract_tx_prevouts B tx txos False = Inr pv \<and> (\<forall>(i, txo) \<in> set pv. unat i < length (tx_input tx))"
proof -
  define ins where "ins = filter (\<lambda>(i, txi). has_prevout B txi) (enum32 (tx_input tx))"
  have "\<forall>x \<in> set ins. txos (previous_output (snd x)) \<noteq> None" using assms unfolding ins_def by (auto dest: enum32_memD)
  then have "(case txos (previous_output (snd x)) of Some txo \<Rightarrow> Inr [(fst x, txo)] | None \<Rightarrow> Inl (Panic ''missing outpoint'')) =
      Inr [(fst x, the (txos (previous_output (snd x))))]" if "x \<in> set ins" for x using that by auto
  then have eq: "map (\<lambda>(i, txi). case txos (previous_output txi) of Some txo \<Rightarrow> Inr [(i, txo)]
        | None \<Rightarrow> if False then Inr [] else Inl (Panic ''missing outpoint'')) ins =
      map (\<lambda>x. Inr [(fst x, the (txos (previous_output (snd x))))]) ins"
    by (intro map_cong) (auto simp: case_prod_unfold)
  have "extract_tx_prevouts B tx txos False = Inr (concat (map (\<lambda>x. [(fst x, the (txos (previous_output (snd x))))]) ins))"
    unfolding extract_tx_prevouts_def ins_def [symmetric] eq by (simp only: collect_map_Inr rmap_simps)
  moreover have "unat (fst x) < length (tx_input tx)" if "x \<in> set ins" for x
  proof -
    obtain i where "i < length (tx_input tx)" "fst x = of_nat i" using \<open>x \<in> set ins\<close> by (auto simp: ins_def set_enum32)
    then show ?thesis by (simp add: unat_of_nat)
  qed
  ultimately show ?thesis by auto
qed

lemma tx_entries_total:
  assumes "\<forall>(i, txo) \<in> set pv. unat i < length (tx_input tx)"
  shows "\<exists>es. tx_entries B c t tx pv = Inr es"
proof -
  have "\<forall>x \<in> set pv. \<exists>y. spending_entry B t tx x = Inr y" using assms by (auto simp: spending_entry_def Let_def)
  then have "\<exists>ys. collect (map (spending_entry B t tx) pv) = Inr ys" unfolding collect_map_total .
  then show ?thesis unfolding tx_entries_def by (auto simp: rmap_Inr_iff)
qed

lemma add_tx_total:
  assumes "\<forall>txi \<in> set (tx_input tx). has_prevout B txi \<longrightarrow> txos (previous_output txi) \<noteq> None"
  shows "\<exists>mp'. add_tx B txos mp (t, tx) = Inr mp'"
proof -
  obtain pv where pv: "extract_tx_prevouts B tx txos False = Inr pv" "\<forall>(i, txo) \<in> set pv. unat i < length (tx_input tx)"
    using extract_tx_prevouts_total [OF assms] by blast
  obtain es where "tx_entries B (mp_config mp) t tx pv = Inr es" using tx_entries_total [OF pv(2)] by blast
  then show ?thesis using pv(1) by (simp add: add_tx_def Let_def)
qed

lemma mempool_add_Inr_iff:
  assumes db: "db_ok (chain_db mp)"
  shows "(\<exists>mp'. mempool_add B mp txs = Inr mp') \<longleftrightarrow> (\<forall>p \<in> external_prevouts B txs (map snd txs). resolved B mp p)"
    (is "?l \<longleftrightarrow> ?r")
proof
  let ?ps = "external_prevouts B txs (map snd txs)"
  note spec = mempool_lookup_txos_spec [OF db, of ?ps B]
  show ?r if ?l
  proof -
    have "\<exists>m. mempool_lookup_txos B mp ?ps = Inr m" using that by (auto simp: mempool_add_def Let_def rbind_Inr_iff)
    then show ?thesis using spec(1) by simp
  qed
  show ?l if r: ?r
  proof -
    obtain m where m: "mempool_lookup_txos B mp ?ps = Inr m" using spec(1) r by auto
    define txos where "txos = (\<lambda>p. if p \<in> get_prev_outpoints B (map snd txs)
        then case mempool_lookup_txo txs p of Some txo \<Rightarrow> Some txo | None \<Rightarrow> m p else m p)"
    have some: "txos p \<noteq> None" if "p \<in> get_prev_outpoints B (map snd txs)" for p
      using that spec(2) [OF _ m, of p] unfolding txos_def
      by (cases "mempool_lookup_txo txs p") (auto simp: external_prevouts_def)
    have total: "\<exists>mp'. rfold (add_tx B txos) mp ys = Inr mp'" if "set ys \<subseteq> set txs" for ys mp
      using that
    proof (induction ys arbitrary: mp)
      case (Cons y ys)
      obtain t tx where y: "y = (t, tx)" by (cases y)
      then have "tx \<in> set (map snd txs)" using Cons.prems by force
      then have "\<forall>txi \<in> set (tx_input tx). has_prevout B txi \<longrightarrow> txos (previous_output txi) \<noteq> None"
        using some unfolding get_prev_outpoints_def by force
      from add_tx_total [OF this] obtain mp1 where "add_tx B txos mp y = Inr mp1" unfolding y by blast
      then show ?case using Cons by simp
    qed simp
    show ?thesis using total [OF subset_refl] m unfolding mempool_add_def Let_def txos_def by simp
  qed
qed

section \<open>Dropping what cannot be added\<close>

inductive unresolvable :: "bitcoin_lib \<Rightarrow> 'db mempool \<Rightarrow> tx_map \<Rightarrow> txid \<Rightarrow> bool" for B mp txs where
  unresolvable_input: "(t, tx) \<in> set txs \<Longrightarrow> p \<in> get_prev_outpoints B [tx] \<Longrightarrow> mempool_lookup_txo txs p = None \<Longrightarrow>
    \<not> resolved B mp p \<Longrightarrow> unresolvable B mp txs t"
| unresolvable_parent: "(t, tx) \<in> set txs \<Longrightarrow> unresolvable B mp txs u \<Longrightarrow> spends_from {u} tx \<Longrightarrow> unresolvable B mp txs t"

lemma spends_from_iff: "spends_from S tx \<longleftrightarrow> (\<exists>u \<in> S. spends_from {u} tx)"
  by (auto simp: spends_from_def list_ex_iff)

lemma drop_descendants_closed:
  assumes "frontier \<subseteq> dropped" and "\<forall>(t, tx) \<in> set txs. spends_from (dropped - frontier) tx \<longrightarrow> t \<in> dropped"
  shows "dropped \<subseteq> drop_descendants txs dropped frontier \<and>
    (\<forall>(t, tx) \<in> set txs. spends_from (drop_descendants txs dropped frontier) tx \<longrightarrow> t \<in> drop_descendants txs dropped frontier)"
  using assms
proof (induction txs dropped frontier rule: drop_descendants.induct)
  case (1 txs dropped frontier)
  define next_frontier where
    "next_frontier = set (map fst (filter (\<lambda>(txid, tx). txid \<notin> dropped \<and> spends_from frontier tx) txs))"
  show ?case
  proof (cases "frontier = {}")
    case True
    then have "drop_descendants txs dropped frontier = dropped" by (subst drop_descendants.simps) simp
    then show ?thesis using "1.prems" True by simp
  next
    case False
    have d: "drop_descendants txs dropped frontier = drop_descendants txs (dropped \<union> next_frontier) next_frontier"
      using False by (subst drop_descendants.simps) (simp add: next_frontier_def)
    have "t \<in> dropped \<union> next_frontier" if t: "(t, tx) \<in> set txs" "spends_from ((dropped \<union> next_frontier) - next_frontier) tx" for t tx
    proof -
      obtain u where u: "u \<in> dropped" "spends_from {u} tx"
        using t(2) spends_from_iff [of "(dropped \<union> next_frontier) - next_frontier" tx] by blast
      show ?thesis
      proof (cases "u \<in> frontier")
        case True
        then have "spends_from frontier tx" using u spends_from_iff [of frontier tx] by blast
        then show ?thesis using t(1) unfolding next_frontier_def by (cases "t \<in> dropped") (auto intro: image_eqI [of t fst "(t, tx)"])
      next
        case False
        then have "spends_from (dropped - frontier) tx" using u spends_from_iff [of "dropped - frontier" tx] by blast
        then show ?thesis using t(1) "1.prems"(2) by blast
      qed
    qed
    then have "\<forall>(t, tx) \<in> set txs. spends_from ((dropped \<union> next_frontier) - next_frontier) tx \<longrightarrow> t \<in> dropped \<union> next_frontier" by blast
    from "1.IH" [OF False next_frontier_def _ this] show ?thesis unfolding d by blast
  qed
qed

lemma drop_descendants_least:
  assumes "dropped \<subseteq> S" and "frontier \<subseteq> S" and "\<forall>(t, tx) \<in> set txs. spends_from S tx \<longrightarrow> t \<in> S"
  shows "drop_descendants txs dropped frontier \<subseteq> S"
  using assms
proof (induction txs dropped frontier rule: drop_descendants.induct)
  case (1 txs dropped frontier)
  define next_frontier where
    "next_frontier = set (map fst (filter (\<lambda>(txid, tx). txid \<notin> dropped \<and> spends_from frontier tx) txs))"
  show ?case
  proof (cases "frontier = {}")
    case True
    then have "drop_descendants txs dropped frontier = dropped" by (subst drop_descendants.simps) simp
    then show ?thesis using "1.prems" True by simp
  next
    case False
    have "t \<in> S" if t: "t \<in> next_frontier" for t
    proof -
      obtain tx where tx: "(t, tx) \<in> set txs" "spends_from frontier tx" using t unfolding next_frontier_def by auto
      then have "spends_from S tx" using "1.prems"(2) spends_from_iff [of S tx] spends_from_iff [of frontier tx] by blast
      then show ?thesis using tx(1) "1.prems"(3) by blast
    qed
    then have "next_frontier \<subseteq> S" by blast
    then have "drop_descendants txs (dropped \<union> next_frontier) next_frontier \<subseteq> S"
      using "1.IH" [OF False next_frontier_def] "1.prems"(1,3) by simp
    then show ?thesis using False by (subst drop_descendants.simps) (simp add: next_frontier_def)
  qed
qed

lemma is_err_lookup:
  assumes "db_ok (chain_db mp)" and "finite ps"
  shows "is_err (mempool_lookup_txos B mp ps) = Inr (\<not> (\<forall>p \<in> ps. resolved B mp p))"
proof (cases "mempool_lookup_txos B mp ps")
  case (Inr m)
  then show ?thesis using mempool_lookup_txos_spec(1) [OF assms, of B] by (simp add: is_err_def ok_opt_def)
next
  case (Inl e)
  then have "\<not> is_panic e" using mempool_lookup_txos_spec(3) [OF assms] by blast
  then have "is_err (mempool_lookup_txos B mp ps) = Inr True" using Inl
    by (cases e) (simp_all add: is_err_def ok_opt_def is_panic_def)
  moreover have "\<not> (\<forall>p \<in> ps. resolved B mp p)" using Inl mempool_lookup_txos_spec(1) [OF assms, of B] by auto
  ultimately show ?thesis by simp
qed

definition lacks_input :: "bitcoin_lib \<Rightarrow> 'db mempool \<Rightarrow> tx_map \<Rightarrow> transaction \<Rightarrow> bool" where
  "lacks_input B mp txs tx \<longleftrightarrow> (\<exists>p \<in> external_prevouts B txs [tx]. \<not> resolved B mp p)"

definition lacking :: "bitcoin_lib \<Rightarrow> 'db mempool \<Rightarrow> tx_map \<Rightarrow> txid set" where
  "lacking B mp txs = {t. \<exists>tx. (t, tx) \<in> set txs \<and> lacks_input B mp txs tx}"

lemma drop_unresolvable_eq:
  assumes db: "db_ok (chain_db mp)"
  shows "drop_unresolvable B mp txs =
    (let dropped = drop_descendants txs (lacking B mp txs) (lacking B mp txs)
     in Inr (dropped, filter (\<lambda>(t, _). t \<notin> dropped) txs))"
proof -
  have m: "map (\<lambda>(txid, tx). rmap (\<lambda>err. if err then [txid] else [])
        (is_err (mempool_lookup_txos B mp (external_prevouts B txs [tx])))) txs =
      map (\<lambda>x. Inr (if lacks_input B mp txs (snd x) then [fst x] else [])) txs"
    by (intro map_cong) (auto simp: is_err_lookup [OF db] lacks_input_def)
  have "set (concat (map (\<lambda>x. if lacks_input B mp txs (snd x) then [fst x] else []) txs)) = lacking B mp txs"
    unfolding lacking_def by (force split: if_splits)
  then show ?thesis unfolding drop_unresolvable_def m collect_map_Inr rmap_simps Let_def by (simp only:)
qed

lemma dropped_unresolvable:
  "drop_descendants txs (lacking B mp txs) (lacking B mp txs) = {t. unresolvable B mp txs t}"
proof
  define F where "F = lacking B mp txs"
  have base: "unresolvable B mp txs t" if "t \<in> F" for t
    using that unfolding F_def lacking_def lacks_input_def external_prevouts_def by (auto intro: unresolvable_input)
  have "t \<in> {t. unresolvable B mp txs t}" if "(t, tx) \<in> set txs" "spends_from {t. unresolvable B mp txs t} tx" for t tx
    using that spends_from_iff [of "{t. unresolvable B mp txs t}"] by (auto intro: unresolvable_parent)
  then have "drop_descendants txs F F \<subseteq> {t. unresolvable B mp txs t}"
    using base by (intro drop_descendants_least) auto
  then show "drop_descendants txs (lacking B mp txs) (lacking B mp txs) \<subseteq> {t. unresolvable B mp txs t}" unfolding F_def .
  have c: "F \<subseteq> drop_descendants txs F F"
    "\<forall>(t, tx) \<in> set txs. spends_from (drop_descendants txs F F) tx \<longrightarrow> t \<in> drop_descendants txs F F"
    using drop_descendants_closed [of F F txs] by (auto simp: spends_from_def list_ex_iff)
  have "t \<in> drop_descendants txs F F" if "unresolvable B mp txs t" for t
    using that
  proof induction
    case (unresolvable_input t tx p)
    then have "t \<in> F" unfolding F_def lacking_def lacks_input_def external_prevouts_def by blast
    then show ?case using c(1) by blast
  next
    case (unresolvable_parent t tx u)
    then have "spends_from (drop_descendants txs F F) tx" using spends_from_iff [of "drop_descendants txs F F" tx] by blast
    then show ?case using c(2) unresolvable_parent(1) by blast
  qed
  then show "{t. unresolvable B mp txs t} \<subseteq> drop_descendants txs (lacking B mp txs) (lacking B mp txs)" unfolding F_def by blast
qed

lemma map_of_filter_keys: "map_of (filter (\<lambda>(t, _). P t) txs) u = (if P u then map_of txs u else None)"
  by (induction txs) auto

lemma retained_resolved:
  assumes p: "p \<in> external_prevouts B rest (map snd rest)" and rest: "rest = filter (\<lambda>(t, _). \<not> unresolvable B mp txs t) txs"
  shows "resolved B mp p"
proof (rule ccontr)
  assume r: "\<not> resolved B mp p"
  have "p \<in> get_prev_outpoints B (map snd rest)" using p by (simp add: external_prevouts_def)
  then obtain t tx where tx: "(t, tx) \<in> set rest" "p \<in> get_prev_outpoints B [tx]" by (auto simp: get_prev_outpoints_def)
  then have t: "(t, tx) \<in> set txs" "\<not> unresolvable B mp txs t" unfolding rest by simp_all
  have "mempool_lookup_txo txs p \<noteq> None" using unresolvable_input [OF t(1) tx(2) _ r] t(2) by blast
  moreover have "mempool_lookup_txo rest p = None" using p by (simp add: external_prevouts_def)
  ultimately have "unresolvable B mp txs (op_txid p)"
    by (auto simp: mempool_lookup_txo_def rest map_of_filter_keys split: if_splits)
  moreover have "spends_from {op_txid p} tx" using tx(2) by (auto simp: get_prev_outpoints_def spends_from_def list_ex_iff)
  ultimately show False using unresolvable_parent [OF t(1)] t(2) by blast
qed

lemma none_unresolvable:
  "(\<exists>t. unresolvable B mp txs t) \<longleftrightarrow> (\<exists>p \<in> external_prevouts B txs (map snd txs). \<not> resolved B mp p)"
proof
  assume "\<exists>p \<in> external_prevouts B txs (map snd txs). \<not> resolved B mp p"
  then obtain p where p: "p \<in> get_prev_outpoints B (map snd txs)" "mempool_lookup_txo txs p = None" "\<not> resolved B mp p"
    by (auto simp: external_prevouts_def)
  then obtain t tx where "(t, tx) \<in> set txs" "p \<in> get_prev_outpoints B [tx]" by (auto simp: get_prev_outpoints_def)
  then show "\<exists>t. unresolvable B mp txs t" using unresolvable_input p(2,3) by blast
next
  assume "\<exists>t. unresolvable B mp txs t"
  then obtain t where "unresolvable B mp txs t" ..
  then show "\<exists>p \<in> external_prevouts B txs (map snd txs). \<not> resolved B mp p"
  proof induction
    case (unresolvable_input t tx p)
    then have "p \<in> external_prevouts B txs (map snd txs)" by (force simp: external_prevouts_def get_prev_outpoints_def)
    then show ?case using unresolvable_input(4) by blast
  qed
qed

text \<open>
  Claim C18. Recovery from a batch that cannot be indexed: over a database that meets its contract, \<open>add\<close>
  of a batch fails exactly when a transaction of the batch has an input found neither in the batch,
  nor in the mempool, nor on the chain; \<open>drop_unresolvable\<close> then removes precisely these transactions
  and their descendants in the batch, at least one, and the retried \<open>add\<close> of the remaining
  transactions succeeds, so an update indexes every transaction that can be indexed.
\<close>

theorem drop_unresolvable_recovers:
  assumes "db_ok (chain_db mp)"
  shows "((\<exists>mp'. mempool_add B mp txs = Inr mp') \<longleftrightarrow> (\<forall>t. \<not> unresolvable B mp txs t)) \<and>
    (\<exists>rest mp'. drop_unresolvable B mp txs = Inr ({t. unresolvable B mp txs t}, rest) \<and>
       rest = filter (\<lambda>(t, _). \<not> unresolvable B mp txs t) txs \<and> mempool_add B mp rest = Inr mp')"
proof (intro conjI)
  show "(\<exists>mp'. mempool_add B mp txs = Inr mp') \<longleftrightarrow> (\<forall>t. \<not> unresolvable B mp txs t)"
    unfolding mempool_add_Inr_iff [OF assms] using none_unresolvable [of B mp txs] by blast
  define rest where "rest = filter (\<lambda>(t, _). \<not> unresolvable B mp txs t) txs"
  have "drop_unresolvable B mp txs = Inr ({t. unresolvable B mp txs t}, rest)"
    unfolding drop_unresolvable_eq [OF assms] dropped_unresolvable rest_def Let_def by simp
  moreover have "\<exists>mp'. mempool_add B mp rest = Inr mp'"
    unfolding mempool_add_Inr_iff [OF assms] using retained_resolved [OF _ rest_def] by blast
  ultimately show "\<exists>rest mp'. drop_unresolvable B mp txs = Inr ({t. unresolvable B mp txs t}, rest) \<and>
       rest = filter (\<lambda>(t, _). \<not> unresolvable B mp txs t) txs \<and> mempool_add B mp rest = Inr mp'"
    unfolding rest_def by blast
qed

end
