(* ===== verification/Api.thy ===== *)
theory Api
  imports MempoolResolve History
begin

text \<open>
  The query interface of \<^verbatim>\<open>src/new_index/query.rs\<close>, which combines the confirmed chain with the mempool for the
  Electrum and REST servers, and the client side of the daemon that it uses: broadcasting, fee
  estimates and the relay fee with their caches.

  The chain and the mempool of a query object share one chain handle, so the state holds the mempool
  with its chain. \<open>Instant::now()\<close> is an argument in nanoseconds.
\<close>

section \<open>State\<close>

type_synonym u16 = "16 word"

record transaction_status =
  ts_confirmed :: bool
  ts_block_height :: "nat option"
  ts_block_hash :: "blockhash option"
  ts_block_time :: "u32 option"

definition transaction_status_from :: "block_id option \<Rightarrow> transaction_status" where
  "transaction_status_from blockid =
     (case blockid of
        Some b \<Rightarrow> \<lparr>ts_confirmed = True, ts_block_height = Some (bi_height b), ts_block_hash = Some (bi_hash b),
          ts_block_time = Some (bi_time b)\<rparr>
      | None \<Rightarrow> \<lparr>ts_confirmed = False, ts_block_height = None, ts_block_hash = None, ts_block_time = None\<rparr>)"

definition FEE_ESTIMATES_TTL :: nat where
  "FEE_ESTIMATES_TTL = 60"

definition CONF_TARGETS :: "u16 list" where
  "CONF_TARGETS = map of_nat [1..<26] @ [144, 504, 1008]"

record 'db query =
  qy_mempool :: "'db mempool"
  qy_utxos_limit :: nat
  qy_network :: network
  cached_estimates :: "(u16 \<times> f64) list \<times> nat option"
  cached_relayfee :: "f64 option"

abbreviation qy_chain :: "'db query \<Rightarrow> 'db chain_query" where
  "qy_chain q \<equiv> mp_chain (qy_mempool q)"

definition with_chain :: "'db query \<Rightarrow> 'db chain_query \<Rightarrow> 'db query" where
  "with_chain q c = q\<lparr>qy_mempool := (qy_mempool q)\<lparr>mp_chain := c\<rparr>\<rparr>"

definition query_new :: "'db mempool \<Rightarrow> nat \<Rightarrow> network \<Rightarrow> 'db query" where
  "query_new mp utxos_limit network =
     \<lparr>qy_mempool = mp, qy_utxos_limit = utxos_limit, qy_network = network, cached_estimates = ([], None), cached_relayfee = None\<rparr>"

section \<open>Chain and mempool together\<close>

definition query_utxo :: "bitcoin_lib \<Rightarrow> 'db query \<Rightarrow> fullhash \<Rightarrow> 'db query \<times> utxo list res" where
  "query_utxo B q scripthash =
     (case cq_utxo B (qy_chain q) scripthash (qy_utxos_limit q) of
        (c, r) \<Rightarrow>
          (with_chain q c,
           rbind r (\<lambda>utxos.
           rbind (mempool_utxo (qy_mempool (with_chain q c)) scripthash) (\<lambda>unconfirmed.
             let all = filter (\<lambda>u. \<not> has_spend (qy_mempool q) (outpoint_from_utxo u)) utxos @ unconfirmed in
             rmap (\<lambda>_. all) (ensure (length all \<le> qy_utxos_limit q) TooManyUtxos)))))"

text \<open>The subtraction on \<open>usize\<close> would wrap if the chain returned more than \<open>limit\<close> entries.\<close>

definition query_history_txids :: "'db query \<Rightarrow> fullhash \<Rightarrow> nat \<Rightarrow> (txid \<times> block_id option) list res" where
  "query_history_txids q scripthash limit =
     rmap (\<lambda>confirmed_txids.
         let rest = (if length confirmed_txids \<le> limit then limit - length confirmed_txids
                     else 2 ^ 64 + limit - length confirmed_txids)
         in map (\<lambda>(tx, b). (tx, Some b)) confirmed_txids @
            map (\<lambda>tx. (tx, None)) (mempool_history_txids (qy_mempool q) scripthash rest))
       (history_txids (qy_chain q) scripthash limit)"

definition query_stats :: "bitcoin_lib \<Rightarrow> 'db query \<Rightarrow> fullhash \<Rightarrow> 'db query \<times> (script_stats \<times> script_stats) res" where
  "query_stats B q scripthash =
     (case cq_stats B (qy_chain q) scripthash of
        (c, r) \<Rightarrow>
          (with_chain q c,
           rbind r (\<lambda>s. rmap (\<lambda>m. (s, m)) (mempool_stats (qy_mempool (with_chain q c)) scripthash))))"

text \<open>\<open>or_else\<close> on the result of a chain lookup.\<close>

definition or_else :: "'a option res \<Rightarrow> 'a option \<Rightarrow> 'a option res" where
  "or_else r v = rmap (\<lambda>found. case found of Some x \<Rightarrow> Some x | None \<Rightarrow> v) r"

definition query_lookup_txn :: "bitcoin_lib \<Rightarrow> light_rpc \<Rightarrow> 'db query \<Rightarrow> txid \<Rightarrow> transaction option res" where
  "query_lookup_txn B L q txid = or_else (cq_lookup_txn B L (qy_chain q) txid None) (mempool_lookup_txn (qy_mempool q) txid)"

definition query_lookup_raw_txn :: "bitcoin_lib \<Rightarrow> light_rpc \<Rightarrow> 'db query \<Rightarrow> txid \<Rightarrow> bytes option res" where
  "query_lookup_raw_txn B L q txid =
     or_else (lookup_raw_txn L (qy_chain q) txid None) (mempool_lookup_raw_txn B (qy_mempool q) txid)"

definition query_lookup_spend :: "'db query \<Rightarrow> outpoint \<Rightarrow> spending_input option res" where
  "query_lookup_spend q p = or_else (lookup_spend (qy_chain q) p) (mempool_lookup_spend (qy_mempool q) p)"

definition spendable_outpoints :: "bitcoin_lib \<Rightarrow> transaction \<Rightarrow> outpoint list" where
  "spendable_outpoints B tx =
     map (\<lambda>(vout, _). \<lparr>op_txid = compute_txid B tx, op_vout = vout\<rparr>)
       (filter (\<lambda>(_, txout). is_spendable B txout) (enum32 (tx_output tx)))"

text \<open>\<open>chain_spends.remove\<close> takes an entry out, so that it is found once.\<close>

fun take_spends ::
  "bitcoin_lib \<Rightarrow> 'db mempool \<Rightarrow> txid \<Rightarrow> (u32 \<times> txout) list \<Rightarrow> (outpoint \<Rightarrow> spending_input option) \<Rightarrow> spending_input option list" where
  "take_spends B mp txid [] chain_spends = []"
| "take_spends B mp txid ((vout, txout) # outs) chain_spends =
     (if is_spendable B txout
      then let p = \<lparr>op_txid = txid, op_vout = vout\<rparr> in
        (case chain_spends p of Some s \<Rightarrow> Some s | None \<Rightarrow> mempool_lookup_spend mp p) #
          take_spends B mp txid outs (chain_spends(p := None))
      else None # take_spends B mp txid outs chain_spends)"

definition lookup_tx_spends :: "bitcoin_lib \<Rightarrow> 'db query \<Rightarrow> transaction \<Rightarrow> spending_input option list res" where
  "lookup_tx_spends B q tx =
     rmap (take_spends B (qy_mempool q) (compute_txid B tx) (enum32 (tx_output tx)))
       (lookup_spends (qy_chain q) (set (spendable_outpoints B tx)))"

definition get_tx_status :: "'db query \<Rightarrow> txid \<Rightarrow> transaction_status res" where
  "get_tx_status q txid = rmap transaction_status_from (tx_confirming_block (qy_chain q) txid)"

definition get_mempool_tx_fee :: "'db query \<Rightarrow> txid \<Rightarrow> u64 option" where
  "get_mempool_tx_fee q txid = mempool_get_tx_fee (qy_mempool q) txid"

definition query_has_unconfirmed_parents :: "'db query \<Rightarrow> txid \<Rightarrow> bool" where
  "query_has_unconfirmed_parents q txid = has_unconfirmed_parents (qy_mempool q) txid"

section \<open>Broadcasting\<close>

text \<open>
  The fields of a result of \<open>submitpackage\<close> that are read, with the parsers of the \<open>bitcoin\<close> crate and the two broadcast calls
  as parameters.
\<close>

record tx_result =
  tr_txid :: string
  tr_other_wtxid :: "string option"
  tr_error :: "string option"

record submit_package_result =
  package_msg :: string
  tx_results :: "(string \<times> tx_result) list"

record broadcast_lib =
  parse_txid :: "string \<Rightarrow> txid option"
  parse_wtxid :: "string \<Rightarrow> fullhash option"
  from_hex :: "string \<Rightarrow> bytes option"
  compute_wtxid :: "transaction \<Rightarrow> fullhash"
  rpc_sendrawtransaction :: "string \<Rightarrow> txid res"
  rpc_submitpackage :: "string list \<Rightarrow> f64 option \<Rightarrow> f64 option \<Rightarrow> submit_package_result res"

definition accepted_txids :: "broadcast_lib \<Rightarrow> submit_package_result \<Rightarrow> txid list" where
  "accepted_txids W result =
     List.map_filter (\<lambda>tx. parse_txid W (tr_txid tx)) (filter (\<lambda>tx. tr_error tx = None) (map snd (tx_results result)))"

definition accepted_as_submitted :: "broadcast_lib \<Rightarrow> submit_package_result \<Rightarrow> (txid \<times> fullhash) list" where
  "accepted_as_submitted W result =
     List.map_filter (\<lambda>(wtxid, tx). Option.bind (parse_txid W (tr_txid tx)) (\<lambda>t.
         map_option (Pair t) (parse_wtxid W wtxid)))
       (filter (\<lambda>(_, tx). tr_error tx = None \<and> tr_other_wtxid tx = None) (tx_results result))"

definition submitted_txs :: "bitcoin_lib \<Rightarrow> broadcast_lib \<Rightarrow> string list \<Rightarrow> (txid \<times> fullhash) list \<Rightarrow> tx_map" where
  "submitted_txs B W txhexes submitted =
     fold (\<lambda>tx. AList.update (compute_txid B tx) tx)
       (filter (\<lambda>tx. (compute_txid B tx, compute_wtxid W tx) \<in> set submitted)
         (List.map_filter (deser_tx B) (List.map_filter (from_hex W) txhexes))) []"

text \<open>A failure to index what the daemon accepted is only logged; a panic aborts.\<close>

definition index_broadcast :: "bitcoin_lib \<Rightarrow> mempool_rpc \<Rightarrow> 'db query \<Rightarrow> txid list \<Rightarrow> tx_map \<Rightarrow> 'db query \<times> unit res" where
  "index_broadcast B M q accepted known_txs =
     (case ensure_txs_with B M (qy_mempool q) accepted known_txs of
        (mp, r) \<Rightarrow> (q\<lparr>qy_mempool := mp\<rparr>, rmap (\<lambda>_. ()) (ok_opt r)))"

definition broadcast_raw :: "bitcoin_lib \<Rightarrow> broadcast_lib \<Rightarrow> mempool_rpc \<Rightarrow> 'db query \<Rightarrow> string \<Rightarrow> 'db query \<times> txid res" where
  "broadcast_raw B W M q txhex =
     (case rpc_sendrawtransaction W txhex of
        Inl e \<Rightarrow> (q, Inl e)
      | Inr txid \<Rightarrow> (case index_broadcast B M q [txid] [] of (q', r) \<Rightarrow> (q', rmap (\<lambda>_. txid) r)))"

definition submit_package ::
  "bitcoin_lib \<Rightarrow> broadcast_lib \<Rightarrow> mempool_rpc \<Rightarrow> 'db query \<Rightarrow> string list \<Rightarrow> f64 option \<Rightarrow> f64 option \<Rightarrow>
     'db query \<times> submit_package_result res" where
  "submit_package B W M q txhex maxfeerate maxburnamount =
     (case rpc_submitpackage W txhex maxfeerate maxburnamount of
        Inl e \<Rightarrow> (q, Inl e)
      | Inr result \<Rightarrow>
          let accepted = accepted_txids W result in
          if accepted = [] then (q, Inr result)
          else (case index_broadcast B M q accepted (submitted_txs B W txhex (accepted_as_submitted W result)) of
              (q', r) \<Rightarrow> (q', rmap (\<lambda>_. result) r)))"

section \<open>Fees\<close>

text \<open>A reply to \<open>estimatesmartfee\<close>: whether it lists errors, and its rate in BTC/kB if it is a number.\<close>

record fee_reply =
  fr_errors :: bool
  fr_feerate :: "f64 option"

record fee_rpc =
  rpc_estimatesmartfee :: "u16 list \<Rightarrow> fee_reply list res"
  rpc_relayfee :: "f64 res"

definition fee_estimate :: "fee_reply \<times> u16 \<Rightarrow> (u16 \<times> f64) option res" where
  "fee_estimate = (\<lambda>(reply, target).
     if fr_errors reply then Inr None
     else rbind (expect ''invalid estimatesmartfee response'' (fr_feerate reply)) (\<lambda>feerate.
       if feerate = Fin (- 1) then Inr None else Inr (Some (target, f64_mul_rat feerate 100000))))"

definition estimatesmartfee_batch :: "fee_rpc \<Rightarrow> u16 list \<Rightarrow> (u16 \<times> f64) list res" where
  "estimatesmartfee_batch R conf_targets =
     rbind (rpc_estimatesmartfee R conf_targets) (\<lambda>replies. filter_map_res fee_estimate (zip replies conf_targets))"

definition daemon_get_relayfee :: "fee_rpc \<Rightarrow> f64 res" where
  "daemon_get_relayfee R = rmap (\<lambda>f. f64_mul_rat f 100000) (rpc_relayfee R)"

definition estimates_fresh :: "nat \<Rightarrow> 'db query \<Rightarrow> bool" where
  "estimates_fresh now q =
     (case snd (cached_estimates q) of
        Some cache_time \<Rightarrow> now - cache_time < from_secs FEE_ESTIMATES_TTL
      | None \<Rightarrow> False)"

definition update_fee_estimates :: "fee_rpc \<Rightarrow> nat \<Rightarrow> 'db query \<Rightarrow> 'db query res" where
  "update_fee_estimates R now q =
     rmap (\<lambda>r. case r of Some estimates \<Rightarrow> q\<lparr>cached_estimates := (estimates, Some now)\<rparr> | None \<Rightarrow> q)
       (ok_opt (estimatesmartfee_batch R CONF_TARGETS))"

text \<open>\<open>busy\<close>: another thread holds the refresh lock, so that \<open>try_lock\<close> returns \<open>WouldBlock\<close>.\<close>

definition refresh_fee_estimates_if_stale :: "fee_rpc \<Rightarrow> bool \<Rightarrow> nat \<Rightarrow> 'db query \<Rightarrow> 'db query res" where
  "refresh_fee_estimates_if_stale R busy now q =
     (if busy \<and> snd (cached_estimates q) \<noteq> None then Inr q
      else if estimates_fresh now q then Inr q
      else update_fee_estimates R now q)"

definition query_get_relayfee :: "fee_rpc \<Rightarrow> 'db query \<Rightarrow> 'db query \<times> f64 res" where
  "query_get_relayfee R q =
     (case cached_relayfee q of
        Some cached \<Rightarrow> (q, Inr cached)
      | None \<Rightarrow>
          (case daemon_get_relayfee R of
             Inl e \<Rightarrow> (q, Inl e)
           | Inr relayfee \<Rightarrow> (q\<lparr>cached_relayfee := Some relayfee\<rparr>, Inr relayfee)))"

definition estimate_fee :: "fee_rpc \<Rightarrow> bool \<Rightarrow> nat \<Rightarrow> 'db query \<Rightarrow> u16 \<Rightarrow> 'db query \<times> f64 option res" where
  "estimate_fee R busy now q conf_target =
     (if is_regtest (qy_network q) then (case query_get_relayfee R q of (q', r) \<Rightarrow> (q', ok_opt r))
      else if estimates_fresh now q then (q, Inr (map_of (fst (cached_estimates q)) conf_target))
      else case refresh_fee_estimates_if_stale R busy now q of
        Inl e \<Rightarrow> (q, Inl e)
      | Inr q' \<Rightarrow> (q', Inr (map_of (fst (cached_estimates q')) conf_target)))"

definition estimate_fee_map :: "fee_rpc \<Rightarrow> bool \<Rightarrow> nat \<Rightarrow> 'db query \<Rightarrow> 'db query \<times> (u16 \<times> f64) list res" where
  "estimate_fee_map R busy now q =
     (if estimates_fresh now q then (q, Inr (fst (cached_estimates q)))
      else case refresh_fee_estimates_if_stale R busy now q of
        Inl e \<Rightarrow> (q, Inl e)
      | Inr q' \<Rightarrow> (q', Inr (fst (cached_estimates q'))))"

section \<open>Unspent outputs, confirmed or not\<close>

text \<open>The confirmed unspent outputs of a script that no stored transaction spends.\<close>

definition confirmed_unspent :: "'db query \<Rightarrow> fullhash \<Rightarrow> utxo set" where
  "confirmed_unspent q sh =
     {u \<in> to_utxo ` set (replay (q_headers (qy_chain q)) (q_history (qy_chain q) sh) []).
        \<not> spent_in_mempool (qy_mempool q) (outpoint_from_utxo u)}"

lemma mempool_utxo_chain:
  assumes "utxos_checkpoint_limit c = utxos_checkpoint_limit (mp_chain mp)"
  shows "mempool_utxo (mp\<lparr>mp_chain := c\<rparr>) sh = mempool_utxo mp sh"
  using assms by (cases "map_of (mp_history mp) sh") (simp_all add: mempool_utxo_def has_spend_def)

lemma mempool_utxo_errors: "mempool_utxo mp sh = Inl e \<Longrightarrow> e = TooBigHistory"
  by (auto simp: mempool_utxo_def ensure_def split: option.splits if_splits)

text \<open>
  Claim C9. \<open>Query::utxo\<close> combines the chain with the mempool: with valid caches and a mempool reached without
  conflicting transactions, it returns exactly the outputs of the script that are confirmed and spent neither on
  the chain nor by a stored transaction, and the outputs of stored transactions that no stored
  transaction spends, at most \<open>utxos_limit\<close> in all; the only errors are the two limits, and the caches
  stay valid.
\<close>

theorem query_utxo_combined:
  assumes ok: "query_ok (qy_chain q)" and laws: "bitcoin_laws B" and caches: "\<forall>s. utxo_cache_valid B (qy_chain q) s"
    and reach: "sync_reachable B (\<lambda>mp. conflict_free (mp_txstore mp)) s" and mp: "qy_mempool q = sy_mempool s"
  shows "case query_utxo B q sh of (q', r) \<Rightarrow>
    query_ok (qy_chain q') \<and> (\<forall>s. utxo_cache_valid B (qy_chain q') s) \<and>
    (case r of
       Inr us \<Rightarrow> set us = confirmed_unspent q sh \<union> unspent_outputs B (qy_mempool q) sh \<and> length us \<le> qy_utxos_limit q
     | Inl e \<Rightarrow> e = TooBigHistory \<or> e = TooManyUtxos)"
proof -
  obtain c r where cr: "cq_utxo B (qy_chain q) sh (qy_utxos_limit q) = (c, r)" by fastforce
  from cq_utxo_transparent [OF ok laws caches, of sh "qy_utxos_limit q"]
  have c: "query_ok c" "\<forall>s. utxo_cache_valid B c s" "c = with_cache_db (qy_chain q) (cache_db (cq_store c))"
    and r: "case r of Inr us \<Rightarrow> us = map to_utxo (replay (q_headers (qy_chain q)) (q_history (qy_chain q) sh) [])
        | Inl e \<Rightarrow> e = TooBigHistory \<or> e = TooManyUtxos"
    unfolding cr by (auto split: sum.splits)
  have "utxos_checkpoint_limit c = utxos_checkpoint_limit (qy_chain q)" using arg_cong [OF c(3), of utxos_checkpoint_limit] by simp
  then have m: "mempool_utxo (qy_mempool (with_chain q c)) sh = mempool_utxo (qy_mempool q) sh"
    by (simp add: with_chain_def mempool_utxo_chain)
  obtain E where inv: "mempool_inv B (qy_mempool q) E" using sync_reachable_ok [OF reach] by (auto simp: mempool_ok_def mp)
  have all: "all_spends (qy_mempool q)" using sync_reachable_all_spends [OF reach] by (simp add: mp)
  have q: "query_utxo B q sh = (with_chain q c, rbind r (\<lambda>utxos. rbind (mempool_utxo (qy_mempool q) sh) (\<lambda>unconfirmed.
             let all = filter (\<lambda>u. \<not> has_spend (qy_mempool q) (outpoint_from_utxo u)) utxos @ unconfirmed in
             rmap (\<lambda>_. all) (ensure (length all \<le> qy_utxos_limit q) TooManyUtxos))))"
    by (simp add: query_utxo_def cr m)
  have spent: "has_spend (qy_mempool q) p = spent_in_mempool (qy_mempool q) p" for p
    unfolding spent_in_mempool_def by (rule has_spend_iff [OF inv all])
  have chain: "qy_chain (with_chain q c) = c" by (simp add: with_chain_def)
  consider e where "r = Inl e" | us e where "r = Inr us" "mempool_utxo (qy_mempool q) sh = Inl e"
    | us un where "r = Inr us" "mempool_utxo (qy_mempool q) sh = Inr un"
    by (cases r; cases "mempool_utxo (qy_mempool q) sh") blast+
  then show ?thesis
  proof cases
    case 1
    then show ?thesis using c r by (simp add: q chain)
  next
    case 2
    then show ?thesis using c mempool_utxo_errors [OF 2(2)] by (simp add: q chain)
  next
    case 3
    have "set (filter (\<lambda>u. \<not> has_spend (qy_mempool q) (outpoint_from_utxo u)) us @ un) =
        confirmed_unspent q sh \<union> unspent_outputs B (qy_mempool q) sh"
      using r 3(1) mempool_utxo_spec [OF inv all 3(2)] by (auto simp: confirmed_unspent_def spent)
    then show ?thesis using c 3 by (simp add: q chain Let_def ensure_def)
  qed
qed

section \<open>Spends of a whole transaction\<close>

definition spend_at :: "bitcoin_lib \<Rightarrow> 'db mempool \<Rightarrow> txid \<Rightarrow> (outpoint \<Rightarrow> spending_input option) \<Rightarrow> u32 \<times> txout \<Rightarrow> spending_input option" where
  "spend_at B mp txid m x =
     (if is_spendable B (snd x)
      then case m \<lparr>op_txid = txid, op_vout = fst x\<rparr> of
          Some s \<Rightarrow> Some s | None \<Rightarrow> mempool_lookup_spend mp \<lparr>op_txid = txid, op_vout = fst x\<rparr>
      else None)"

lemma spend_at_pair:
  "spend_at B mp txid m (vout, txout) =
     (if is_spendable B txout
      then case m \<lparr>op_txid = txid, op_vout = vout\<rparr> of
          Some s \<Rightarrow> Some s | None \<Rightarrow> mempool_lookup_spend mp \<lparr>op_txid = txid, op_vout = vout\<rparr>
      else None)"
  unfolding spend_at_def fst_conv snd_conv ..

lemma spend_at_other:
  assumes "\<And>p. p \<noteq> \<lparr>op_txid = txid, op_vout = vout\<rparr> \<Longrightarrow> m' p = m p" and "vout \<notin> fst ` set outs"
  shows "map (spend_at B mp txid m') outs = map (spend_at B mp txid m) outs"
proof (rule map_cong [OF refl])
  fix x
  assume "x \<in> set outs"
  then have "fst x \<noteq> vout" using assms(2) by force
  then have "m' \<lparr>op_txid = txid, op_vout = fst x\<rparr> = m \<lparr>op_txid = txid, op_vout = fst x\<rparr>" by (intro assms(1)) simp
  then show "spend_at B mp txid m' x = spend_at B mp txid m x" by (simp add: spend_at_def)
qed

lemma take_spends_map: "distinct (map fst outs) \<Longrightarrow> take_spends B mp txid outs m = map (spend_at B mp txid m) outs"
proof (induction B mp txid outs m rule: take_spends.induct)
  case (2 B mp txid vout txout outs m)
  have "map (spend_at B mp txid (m(\<lparr>op_txid = txid, op_vout = vout\<rparr> := None))) outs = map (spend_at B mp txid m) outs"
    using "2.prems" by (intro spend_at_other [where vout = vout]) simp_all
  then show ?case using 2 by (cases "is_spendable B txout") (simp_all add: Let_def spend_at_pair del: fun_upd_apply)
qed simp

lemma spend_steps:
  assumes "db_ok (history_db (cq_store c))"
  shows "lookup_spends c ps =
    rmap map_of (filter_map_res (\<lambda>p. rmap (map_option (Pair p)) (lookup_spend c p)) (sorted_list_of_set ps))"
proof -
  have "filter_map_res (\<lambda>(edge_val, p).
          obind (unwrap edge_val) (\<lambda>raw. rmap (map_option (Pair p)) (spending_input_of (q_headers c) raw)))
        (zip (multi_get (history_db (cq_store c)) (map tx_edge_key xs)) xs) =
      filter_map_res (\<lambda>p. rmap (map_option (Pair p)) (lookup_spend c p)) xs" for xs
  proof (induction xs)
    case (Cons p xs)
    have "obind (unwrap (Inr (db_view (history_db (cq_store c)) (tx_edge_key p))))
        (\<lambda>raw. rmap (map_option (Pair p)) (spending_input_of (q_headers c) raw)) = rmap (map_option (Pair p)) (lookup_spend c p)"
      by (cases "db_view (history_db (cq_store c)) (tx_edge_key p)")
        (simp_all add: lookup_spend_def db_reads [OF assms] obind_def)
    then show ?case using Cons by (simp add: db_reads [OF assms])
  qed (simp add: db_reads [OF assms])
  then show ?thesis by (simp add: lookup_spends_def Let_def)
qed

definition spend_of_output :: "bitcoin_lib \<Rightarrow> 'db query \<Rightarrow> txid \<Rightarrow> u32 \<times> txout \<Rightarrow> spending_input option res" where
  "spend_of_output B q txid x =
     (if is_spendable B (snd x) then query_lookup_spend q \<lparr>op_txid = txid, op_vout = fst x\<rparr> else Inr None)"

lemma spend_of_output_pair:
  "spend_of_output B q txid (vout, txout) =
     (if is_spendable B txout then query_lookup_spend q \<lparr>op_txid = txid, op_vout = vout\<rparr> else Inr None)"
  by (simp add: spend_of_output_def)

abbreviation spend_pairs :: "'db chain_query \<Rightarrow> outpoint list \<Rightarrow> (outpoint \<times> spending_input) list res" where
  "spend_pairs c ps \<equiv> filter_map_res (\<lambda>p. rmap (map_option (Pair p)) (lookup_spend c p)) ps"

abbreviation outpoints_of :: "bitcoin_lib \<Rightarrow> txid \<Rightarrow> (u32 \<times> txout) list \<Rightarrow> outpoint list" where
  "outpoints_of B txid outs \<equiv> map (\<lambda>(vout, _). \<lparr>op_txid = txid, op_vout = vout\<rparr>) (filter (\<lambda>(_, txout). is_spendable B txout) outs)"

lemma spend_pairs_keys: "spend_pairs c ps = Inr ys \<Longrightarrow> fst ` set ys \<subseteq> set ps"
proof (induction ps arbitrary: ys)
  case (Cons p ps)
  obtain o' zs where "lookup_spend c p = Inr o'" "spend_pairs c ps = Inr zs"
    and "ys = (case map_option (Pair p) o' of None \<Rightarrow> zs | Some z \<Rightarrow> z # zs)"
    using Cons.prems by (auto simp: res_iffs)
  then show ?case using Cons.IH by (cases o') auto
qed simp

lemma batched_spends:
  "distinct (map fst outs) \<Longrightarrow>
   rmap (\<lambda>ys. map (spend_at B (qy_mempool q) txid (map_of ys)) outs) (spend_pairs (qy_chain q) (outpoints_of B txid outs)) =
   collect (map (spend_of_output B q txid) outs)"
proof (induction outs)
  case (Cons x outs)
  obtain vout txout where x: "x = (vout, txout)" by (cases x)
  let ?p = "\<lparr>op_txid = txid, op_vout = vout\<rparr>"
  define rest where "rest = spend_pairs (qy_chain q) (outpoints_of B txid outs)"
  have ih: "rmap (\<lambda>ys. map (spend_at B (qy_mempool q) txid (map_of ys)) outs) rest = collect (map (spend_of_output B q txid) outs)"
    using Cons unfolding rest_def by simp
  show ?case
  proof (cases "is_spendable B txout")
    case False
    then show ?thesis using ih [symmetric]
      by (cases rest) (simp_all add: x rest_def [symmetric] spend_of_output_pair spend_at_pair)
  next
    case True
    have fresh: "?p \<notin> set (outpoints_of B txid outs)" "vout \<notin> fst ` set outs" using Cons.prems by (force simp: x)+
    have none: "map_of ys ?p = None" if "rest = Inr ys" for ys
      using spend_pairs_keys [OF that [unfolded rest_def]] fresh(1) by (auto simp: map_of_eq_None_iff)
    have other: "map (spend_at B (qy_mempool q) txid (map_of ((?p, s) # ys))) outs = map (spend_at B (qy_mempool q) txid (map_of ys)) outs" for s ys
      using fresh(2) by (intro spend_at_other [where vout = vout]) simp_all
    show ?thesis
    proof (cases "lookup_spend (qy_chain q) ?p")
      case (Inl e)
      then show ?thesis using True by (simp add: x spend_of_output_pair query_lookup_spend_def or_else_def)
    next
      case (Inr o')
      then show ?thesis using True ih [symmetric] none other
        by (cases rest; cases o')
          (simp_all add: x rest_def [symmetric] spend_of_output_pair query_lookup_spend_def or_else_def spend_at_pair)
    qed
  qed
qed simp

lemma strict_enum32: "length xs \<le> 2 ^ 32 \<Longrightarrow> sorted_wrt (<) (map fst (enum32 xs))"
  by (auto simp: sorted_wrt_iff_nth_less word_less_nat_alt unat_of_nat)

lemma outpoints_of_sorted:
  assumes "length (tx_output tx) \<le> 2 ^ 32"
  shows "sorted_list_of_set (set (spendable_outpoints B tx)) = spendable_outpoints B tx"
proof -
  have "sorted_wrt (\<lambda>x y. fst x < fst y) (filter (\<lambda>(_, txout). is_spendable B txout) (enum32 (tx_output tx)))"
    using strict_enum32 [OF assms] by (intro sorted_wrt_filter) (simp add: sorted_wrt_map)
  then have "sorted_wrt (<) (spendable_outpoints B tx)"
    unfolding spendable_outpoints_def sorted_wrt_map
    by (rule sorted_wrt_mono_rel [rotated]) (auto simp: less_outpoint_ext_def)
  then show ?thesis by (simp add: strict_sorted_iff sorted_list_of_set.idem_if_sorted_distinct)
qed

text \<open>
  Claim C39. \<open>lookup_tx_spends\<close>, which fetches the spends of all outputs of a transaction with one batched
  database read and takes each from the result, is equivalent to looking up every spendable output by itself,
  first on the chain and then in the mempool: the answers are the same and so is the panic a malformed
  row causes.
\<close>

theorem lookup_tx_spends_batched:
  assumes "db_ok (history_db (cq_store (qy_chain q)))" and "length (tx_output tx) \<le> 2 ^ 32"
  shows "lookup_tx_spends B q tx = collect (map (spend_of_output B q (compute_txid B tx)) (enum32 (tx_output tx)))"
proof -
  have d: "distinct (map fst (enum32 (tx_output tx)))" using strict_enum32 [OF assms(2)] by (simp add: strict_sorted_iff)
  have "lookup_tx_spends B q tx =
      rmap (\<lambda>ys. map (spend_at B (qy_mempool q) (compute_txid B tx) (map_of ys)) (enum32 (tx_output tx)))
        (spend_pairs (qy_chain q) (spendable_outpoints B tx))"
    unfolding lookup_tx_spends_def spend_steps [OF assms(1)] outpoints_of_sorted [OF assms(2)]
    by (cases "spend_pairs (qy_chain q) (spendable_outpoints B tx)") (simp_all add: take_spends_map [OF d])
  then show ?thesis unfolding spendable_outpoints_def batched_spends [OF d] .
qed

section \<open>What a broadcast adds\<close>

definition broadcast_batch :: "mempool_rpc \<Rightarrow> 'db mempool \<Rightarrow> txid list \<Rightarrow> tx_map \<Rightarrow> tx_map" where
  "broadcast_batch M mp accepted known_txs = not_indexed mp (fst (fetch_missing M (missing_txids mp accepted) known_txs [] []))"

definition batch_resolved :: "bitcoin_lib \<Rightarrow> 'db mempool \<Rightarrow> tx_map \<Rightarrow> bool" where
  "batch_resolved B mp batch \<longleftrightarrow> (\<forall>p \<in> external_prevouts B batch (map snd batch). resolved B mp p)"

lemma mempool_add_no_panic:
  assumes db: "db_ok (chain_db mp)" and "mempool_add B mp txs = Inl e"
  shows "\<not> is_panic e"
proof (cases "mempool_lookup_txos B mp (external_prevouts B txs (map snd txs))")
  case (Inl e')
  then show ?thesis using assms(2) mempool_lookup_txos_spec(3) [OF db finite_prev_outpoints(2) Inl]
    by (simp add: mempool_add_def Let_def)
next
  case (Inr m)
  then have "\<exists>mp'. mempool_add B mp txs = Inr mp'"
    using mempool_lookup_txos_spec(1) [OF db finite_prev_outpoints(2)] mempool_add_Inr_iff [OF db] by blast
  then show ?thesis using assms(2) by simp
qed

lemma fetch_missing_source:
  "fetch_missing M missing known_txs txs un = (txs', un') \<Longrightarrow> map_of txs' t = Some tx \<Longrightarrow>
     map_of txs t = Some tx \<or> t \<in> set missing \<and> (map_of known_txs t = Some tx \<or> rpc_getmempooltx M t = Inr tx)"
  by (induction M missing known_txs txs un rule: fetch_missing.induct)
    (auto simp: update_conv' delete_conv' split: option.splits sum.splits if_splits)

lemma fetch_missing_dom:
  "fetch_missing M missing known_txs txs un = (txs', un') \<Longrightarrow>
     dom (map_of txs') = dom (map_of txs) \<union> {t \<in> set missing. t \<in> dom (map_of known_txs) \<or> (\<exists>tx. rpc_getmempooltx M t = Inr tx)}"
proof (induction M missing known_txs txs un rule: fetch_missing.induct)
  case (2 M t missing known_txs txs un)
  then show ?case by (cases "map_of known_txs t"; cases "rpc_getmempooltx M t") (auto simp: update_conv' delete_conv' split: if_splits)
qed simp

lemma map_of_not_indexed: "map_of (not_indexed mp txs) t = (if t \<in> indexed_txids mp then None else map_of txs t)"
  unfolding not_indexed_def by (induction txs) (auto simp: domIff)

lemma broadcast_batch_source:
  assumes "map_of (broadcast_batch M mp accepted known_txs) t = Some tx"
  shows "t \<in> set accepted" and "t \<notin> indexed_txids mp" and "map_of known_txs t = Some tx \<or> rpc_getmempooltx M t = Inr tx"
proof -
  obtain txs un where f: "fetch_missing M (missing_txids mp accepted) known_txs [] [] = (txs, un)" by fastforce
  have t: "t \<notin> indexed_txids mp" "map_of txs t = Some tx"
    using assms by (auto simp: broadcast_batch_def f map_of_not_indexed split: if_splits)
  from fetch_missing_source [OF f t(2)] t(1)
  show "t \<in> set accepted" "t \<notin> indexed_txids mp" "map_of known_txs t = Some tx \<or> rpc_getmempooltx M t = Inr tx"
    by (auto simp: missing_txids_def)
qed

lemma broadcast_batch_dom:
  "dom (map_of (broadcast_batch M mp accepted known_txs)) =
     {t \<in> set accepted. t \<notin> indexed_txids mp \<and> (t \<in> dom (map_of known_txs) \<or> (\<exists>tx. rpc_getmempooltx M t = Inr tx))}"
proof -
  obtain txs un where f: "fetch_missing M (missing_txids mp accepted) known_txs [] [] = (txs, un)" by fastforce
  have "dom (map_of (broadcast_batch M mp accepted known_txs)) = dom (map_of txs) - indexed_txids mp"
    by (auto simp: broadcast_batch_def f map_of_not_indexed split: if_splits)
  then show ?thesis unfolding fetch_missing_dom [OF f] by (auto simp: missing_txids_def)
qed

lemma index_broadcast_outcome:
  assumes ok: "mempool_ok B (qy_mempool q)" and db: "db_ok (chain_db (qy_mempool q))"
    and batch: "batch = broadcast_batch M (qy_mempool q) accepted known_txs"
  obtains mp' where "index_broadcast B M q accepted known_txs = (q\<lparr>qy_mempool := mp'\<rparr>, Inr ())" and "mempool_ok B mp'"
    and "map_of (mp_txstore mp') =
      (if batch_resolved B (qy_mempool q) batch then map_of (mp_txstore (qy_mempool q)) ++ map_of batch
       else map_of (mp_txstore (qy_mempool q)))"
proof -
  let ?mp = "qy_mempool q"
  obtain txs un where f: "fetch_missing M (missing_txids ?mp accepted) known_txs [] [] = (txs, un)" by fastforce
  have b: "batch = not_indexed ?mp txs" by (simp add: batch broadcast_batch_def f)
  have keys: "distinct (map fst batch)" "fst ` set batch \<inter> indexed_txids ?mp = {}"
    using distinct_not_indexed [OF fetch_missing_keys [OF f]] not_indexed_fresh unfolding b by simp_all
  have add: "(\<exists>mp'. mempool_add B ?mp batch = Inr mp') \<longleftrightarrow> batch_resolved B ?mp batch"
    unfolding batch_resolved_def by (rule mempool_add_Inr_iff [OF db])
  define r where "r = (if batch = [] then Inr ?mp else mempool_add B ?mp batch)"
  have i: "index_broadcast B M q accepted known_txs =
      (case r of Inr mp' \<Rightarrow> (q\<lparr>qy_mempool := mp'\<rparr>, Inr ()) | Inl e \<Rightarrow> (q\<lparr>qy_mempool := ?mp\<rparr>, rmap (\<lambda>_. ()) (ok_opt (Inl e :: unit res))))"
    by (cases r) (auto simp: index_broadcast_def ensure_txs_with_def add_missing_def f insert_missing_def b [symmetric] r_def
        ok_opt_def ensure_def)
  show thesis
  proof (cases r)
    case (Inr mp')
    show thesis
    proof (cases "batch = []")
      case True
      then have "mp' = ?mp" using Inr by (simp add: r_def)
      then show thesis using that [of mp'] Inr ok True by (simp add: i)
    next
      case False
      then have m: "mempool_add B ?mp batch = Inr mp'" using Inr by (simp add: r_def)
      have "batch_added batch ?mp mp'" "mempool_ok B mp'" using mempool_add_spec [OF ok keys m] by simp_all
      then show thesis using that [of mp'] Inr m add batch_addedD(3) by (auto simp: i)
    qed
  next
    case (Inl e)
    then have m: "mempool_add B ?mp batch = Inl e" by (auto simp: r_def split: if_splits)
    have "ok_opt (Inl e :: unit res) = Inr None"
      using mempool_add_no_panic [OF db m] by (cases e) (simp_all add: ok_opt_def is_panic_def)
    moreover have "\<not> batch_resolved B ?mp batch" using add m by auto
    ultimately show thesis using that [of ?mp] ok Inl by (simp add: i)
  qed
qed

text \<open>
  Claim C23. After \<open>broadcast_raw\<close>, the client sees the transaction it sent: when the daemon accepts it, the answer is its
  txid, the mempool stays well formed, and the store gains exactly the daemon's copy of that transaction, unless it
  is there already, the daemon no longer has it or one of its previous outputs is unknown, when nothing
  changes. Indexing never turns an accepted transaction into an error or a panic, and a rejected one
  changes nothing.
\<close>

theorem broadcast_raw_outcome:
  assumes ok: "mempool_ok B (qy_mempool q)" and db: "db_ok (chain_db (qy_mempool q))"
    and r: "broadcast_raw B W M q txhex = (q', r)"
  shows "r = rpc_sendrawtransaction W txhex \<and> mempool_ok B (qy_mempool q') \<and> q' = q\<lparr>qy_mempool := qy_mempool q'\<rparr> \<and>
    map_of (mp_txstore (qy_mempool q')) =
      (case r of
         Inl _ \<Rightarrow> map_of (mp_txstore (qy_mempool q))
       | Inr t \<Rightarrow>
           (case rpc_getmempooltx M t of
              Inl _ \<Rightarrow> map_of (mp_txstore (qy_mempool q))
            | Inr tx \<Rightarrow>
                if t \<notin> indexed_txids (qy_mempool q) \<and> batch_resolved B (qy_mempool q) [(t, tx)]
                then (map_of (mp_txstore (qy_mempool q)))(t \<mapsto> tx)
                else map_of (mp_txstore (qy_mempool q))))"
proof (cases "rpc_sendrawtransaction W txhex")
  case (Inl e)
  then have "q' = q" "r = Inl e" using r by (simp_all add: broadcast_raw_def)
  then show ?thesis using Inl ok by simp
next
  case (Inr t)
  have b: "broadcast_batch M (qy_mempool q) [t] [] =
      (case rpc_getmempooltx M t of Inl _ \<Rightarrow> [] | Inr tx \<Rightarrow> if t \<notin> indexed_txids (qy_mempool q) then [(t, tx)] else [])"
    by (auto simp: broadcast_batch_def missing_txids_def not_indexed_def split: sum.splits)
  obtain mp' where mp: "index_broadcast B M q [t] [] = (q\<lparr>qy_mempool := mp'\<rparr>, Inr ())" "mempool_ok B mp'"
    and store: "map_of (mp_txstore mp') = (if batch_resolved B (qy_mempool q) (broadcast_batch M (qy_mempool q) [t] [])
        then map_of (mp_txstore (qy_mempool q)) ++ map_of (broadcast_batch M (qy_mempool q) [t] [])
        else map_of (mp_txstore (qy_mempool q)))"
    by (rule index_broadcast_outcome [OF ok db refl])
  have "q' = q\<lparr>qy_mempool := mp'\<rparr>" "r = Inr t" using r Inr mp(1) by (simp_all add: broadcast_raw_def)
  then show ?thesis using Inr mp(2) store unfolding b by (cases "rpc_getmempooltx M t") simp_all
qed

text \<open>The copy of a transaction that the daemon holds: its own answer, or the one submitted if it was accepted as it is.\<close>

definition daemon_copy :: "bitcoin_lib \<Rightarrow> broadcast_lib \<Rightarrow> mempool_rpc \<Rightarrow> string list \<Rightarrow> submit_package_result \<Rightarrow> txid \<Rightarrow> transaction \<Rightarrow> bool" where
  "daemon_copy B W M txhex result t tx \<longleftrightarrow>
     rpc_getmempooltx M t = Inr tx \<or>
     compute_txid B tx = t \<and>
     (\<exists>hex \<in> set txhex. \<exists>raw. from_hex W hex = Some raw \<and> deser_tx B raw = Some tx) \<and>
     (\<exists>(wtxid, res) \<in> set (tx_results result). tr_error res = None \<and> tr_other_wtxid res = None \<and>
        parse_txid W (tr_txid res) = Some t \<and> parse_wtxid W wtxid = Some (compute_wtxid W tx))"

lemma own_copy: "rpc_getmempooltx M t = Inr tx \<Longrightarrow> daemon_copy B W M txhex result t tx"
  by (simp add: daemon_copy_def)

lemma fold_update_source:
  "map_of (fold (\<lambda>tx. AList.update (f tx) tx) txs al) t = Some tx \<Longrightarrow> map_of al t = Some tx \<or> tx \<in> set txs \<and> f tx = t"
  by (induction txs arbitrary: al) (fastforce simp: update_conv' split: if_splits)+

lemma set_map_filter: "set (List.map_filter f xs) = {y. \<exists>x \<in> set xs. f x = Some y}"
  by (induction xs) (auto simp: List.map_filter_simps split: option.splits)

lemma submitted_copy:
  assumes "map_of (submitted_txs B W txhex (accepted_as_submitted W result)) t = Some tx"
  shows "daemon_copy B W M txhex result t tx"
proof -
  from fold_update_source [OF assms [unfolded submitted_txs_def]]
  have "compute_txid B tx = t" "(t, compute_wtxid W tx) \<in> set (accepted_as_submitted W result)"
    and raw: "\<exists>hex \<in> set txhex. \<exists>raw. from_hex W hex = Some raw \<and> deser_tx B raw = Some tx"
    by (auto simp: set_map_filter)
  moreover from this have "\<exists>(wtxid, res) \<in> set (tx_results result). tr_error res = None \<and> tr_other_wtxid res = None \<and>
        parse_txid W (tr_txid res) = Some t \<and> parse_wtxid W wtxid = Some (compute_wtxid W tx)"
    by (force simp: accepted_as_submitted_def set_map_filter bind_eq_Some_conv)
  ultimately show ?thesis unfolding daemon_copy_def by blast
qed


end
