(* ===== verification/MempoolUpdate.thy ===== *)
theory MempoolUpdate
  imports MempoolResolve
begin

text \<open>
  The outcome of an update of the mempool: which transactions are indexed after it, for each status
  it returns.
\<close>

section \<open>Descendants of transactions that are gone\<close>

inductive descends :: "tx_map \<Rightarrow> txid set \<Rightarrow> txid \<Rightarrow> bool" for txs gone where
  descends_child: "(t, tx) \<in> set txs \<Longrightarrow> spends_from gone tx \<Longrightarrow> descends txs gone t"
| descends_step: "(t, tx) \<in> set txs \<Longrightarrow> descends txs gone u \<Longrightarrow> spends_from {u} tx \<Longrightarrow> descends txs gone t"

lemma descends_rest:
  fixes txs gone
  defines "rest \<equiv> filter (\<lambda>(_, tx). \<not> spends_from gone tx) txs"
    and "children \<equiv> fst ` set (filter (\<lambda>(_, tx). spends_from gone tx) txs)"
  assumes d: "distinct (map fst txs)" and t: "(t, tx) \<in> set rest"
  shows "descends rest children t \<longleftrightarrow> descends txs gone t"
proof
  show "descends txs gone t" if "descends rest children t"
    using that
  proof induction
    case (descends_child t tx)
    obtain u where u: "u \<in> children" "spends_from {u} tx" using descends_child(2) spends_from_iff [of children tx] by blast
    then have "descends txs gone u" unfolding children_def by (auto intro: descends.descends_child)
    then show ?case using descends_child(1) u(2) unfolding rest_def by (auto intro: descends.descends_step)
  next
    case (descends_step t tx u)
    then show ?case unfolding rest_def by (auto intro: descends.descends_step)
  qed
  have "t \<in> children \<or> descends rest children t" if "descends txs gone t" for t
    using that
  proof induction
    case (descends_child t tx)
    then show ?case unfolding children_def by force
  next
    case (descends_step t tx u)
    show ?case
    proof (cases "spends_from gone tx")
      case True
      then show ?thesis using descends_step(1) unfolding children_def by force
    next
      case False
      then have r: "(t, tx) \<in> set rest" using descends_step(1) unfolding rest_def by simp
      from descends_step.IH show ?thesis
      proof
        assume "u \<in> children"
        then have "spends_from children tx" using descends_step(3) spends_from_iff [of children tx] by blast
        then show ?thesis using r by (blast intro: descends.descends_child)
      next
        assume "descends rest children u"
        then show ?thesis using r descends_step(3) by (blast intro: descends.descends_step)
      qed
    qed
  qed
  moreover have "t \<notin> children"
  proof
    assume "t \<in> children"
    then obtain tx' where tx': "(t, tx') \<in> set txs" "spends_from gone tx'" unfolding children_def by auto
    have "(t, tx) \<in> set txs" "\<not> spends_from gone tx" using t unfolding rest_def by auto
    then show False using tx' d by (metis Some_eq_map_of_iff option.inject)
  qed
  ultimately show "descends rest children t" if "descends txs gone t" using that by blast
qed

lemma drop_replaced_eq:
  assumes "distinct (map fst fetched)"
  shows "drop_replaced fetched replaced = filter (\<lambda>(t, _). \<not> descends fetched replaced t) fetched"
  using assms
proof (induction fetched replaced rule: drop_replaced.induct)
  case (1 fetched replaced)
  show ?case
  proof (cases "replaced = {}")
    case True
    have "\<not> descends fetched replaced t" for t
    proof
      assume "descends fetched replaced t"
      then show False by induction (simp_all add: True spends_from_def list_ex_iff)
    qed
    then show ?thesis using True by (subst drop_replaced.simps) simp
  next
    case False
    define rest where "rest = filter (\<lambda>(_, tx). \<not> spends_from replaced tx) fetched"
    define children where "children = fst ` set (filter (\<lambda>(_, tx). spends_from replaced tx) fetched)"
    have "drop_replaced fetched replaced = drop_replaced rest children"
      using False by (subst drop_replaced.simps) (simp add: rest_def children_def)
    also have "\<dots> = filter (\<lambda>(t, _). \<not> descends rest children t) rest"
      using "1.IH" [OF False] distinct_keys_filter [OF "1.prems"] unfolding rest_def children_def by simp
    also have "\<dots> = filter (\<lambda>(t, _). \<not> descends fetched replaced t) rest"
      using descends_rest [OF "1.prems", of _ _ replaced] unfolding rest_def children_def by (intro filter_cong) auto
    also have "\<dots> = filter (\<lambda>(t, _). \<not> descends fetched replaced t) fetched"
      unfolding rest_def filter_filter by (intro filter_cong) (auto intro: descends.descends_child)
    finally show ?thesis .
  qed
qed

section \<open>What an update leaves indexed\<close>

lemma update_evict_chain:
  assumes ok: "mempool_ok B mp" and d: "distinct evicted" and s: "set evicted \<subseteq> indexed_txids mp"
    and r: "update_evict mp evicted = Inr mp'"
  shows "mp_chain mp' = mp_chain mp"
proof (cases "evicted = []")
  case False
  obtain E where E: "mempool_inv B mp E" using ok by (auto simp: mempool_ok_def)
  then show ?thesis using mempool_remove_spec [OF E d s] r False by (auto simp: update_evict_def batch_removed_def)
qed (use r in \<open>simp add: update_evict_def\<close>)

lemma fetch_new_Inr:
  assumes "fetch_new M best_tip new = Inr (Some kept)" and "distinct new"
  obtains fetched where "gettransactions_available M new = Inr fetched"
    "kept = filter (\<lambda>(t, _). \<not> descends fetched (set new - fst ` set fetched) t) fetched"
proof -
  obtain xs where xs: "gettransactions_available M new = Inr xs"
      "kept = drop_replaced xs (set (filter (\<lambda>t. map_of xs t = None) new))"
    using assms(1) by (auto simp: fetch_new_def rbind_Inr_iff split: if_splits)
  have "set (filter (\<lambda>t. map_of xs t = None) new) = set new - fst ` set xs" by (auto simp: map_of_eq_None_iff)
  moreover have "distinct (map fst xs)" using gettransactions_available_keys [OF xs(1)] assms(2) by simp
  ultimately show ?thesis using that xs drop_replaced_eq by metis
qed

lemma indexed_with_txids: "indexed_with now mp st = (mp', Inr st') \<Longrightarrow> st' = st \<and> indexed_txids mp' = indexed_txids mp"
  using indexed_with_Inr [of now mp st mp' st'] by (auto simp: indexed_with_def split: sum.splits)

lemma mempool_add_txids: "mempool_add B mp txs = Inr mp' \<Longrightarrow> mempool_ok B mp \<Longrightarrow> distinct (map fst txs) \<Longrightarrow>
    fst ` set txs \<inter> indexed_txids mp = {} \<Longrightarrow> indexed_txids mp' = indexed_txids mp \<union> fst ` set txs"
  using mempool_add_spec [of B mp txs mp'] batch_addedD(3) [of txs mp mp'] by (auto simp: dom_map_of_conv_image_fst)

lemma add_fetched_status:
  assumes r: "add_fetched B now mp txs = (mp', Inr status)" and ok: "mempool_ok B mp" and db: "db_ok (chain_db mp)"
    and d: "distinct (map fst txs)" and f: "fst ` set txs \<inter> indexed_txids mp = {}"
  shows "status \<noteq> TipMoved \<and> (status = Synced \<longrightarrow> (\<forall>t. \<not> unresolvable B mp txs t)) \<and>
    indexed_txids mp' = indexed_txids mp \<union> {t \<in> fst ` set txs. \<not> unresolvable B mp txs t}"
proof (cases "\<exists>t. unresolvable B mp txs t")
  case False
  then have "\<exists>mp1. mempool_add B mp txs = Inr mp1" using none_unresolvable [of B mp txs] mempool_add_Inr_iff [OF db, of B txs] by blast
  then obtain mp1 where add: "mempool_add B mp txs = Inr mp1" ..
  then have "indexed_with now mp1 Synced = (mp', Inr status)" using r by (simp add: add_fetched_def)
  then have i: "status = Synced" "indexed_txids mp' = indexed_txids mp1" using indexed_with_txids by blast+
  show ?thesis using i False unfolding i(2) mempool_add_txids [OF add ok d f] by auto
next
  case True
  then have "\<nexists>mp'. mempool_add B mp txs = Inr mp'" using none_unresolvable [of B mp txs] mempool_add_Inr_iff [OF db, of B txs] by blast
  then obtain e where e: "mempool_add B mp txs = Inl e" by (cases "mempool_add B mp txs") simp_all
  have np: "\<not> is_panic e" using r e by (auto simp: add_fetched_def split: if_splits)
  define rest where "rest = filter (\<lambda>(t, _). \<not> unresolvable B mp txs t) txs"
  have drop: "drop_unresolvable B mp txs = Inr ({t. unresolvable B mp txs t}, rest)"
    unfolding drop_unresolvable_eq [OF db] dropped_unresolvable rest_def Let_def by simp
  have "\<exists>mp1. mempool_add B mp rest = Inr mp1"
    unfolding mempool_add_Inr_iff [OF db] using retained_resolved [OF _ rest_def] by blast
  then obtain mp1 where add: "mempool_add B mp rest = Inr mp1" ..
  have "indexed_with now mp1 FailedToIndex = (mp', Inr status)" 
    using r e np drop add True by (simp add: add_fetched_def split: if_splits)
  then have i: "status = FailedToIndex" "indexed_txids mp' = indexed_txids mp1" using indexed_with_txids by blast+
  have "indexed_txids mp1 = indexed_txids mp \<union> fst ` set rest"
    using d f by (intro mempool_add_txids [OF add ok]) (auto simp: rest_def distinct_keys_filter)
  moreover have "fst ` set rest = {t \<in> fst ` set txs. \<not> unresolvable B mp txs t}" unfolding rest_def by force
  ultimately show ?thesis using i by simp
qed

lemma index_fetched_status:
  assumes r: "index_fetched B now mp txs = (mp', Inr status)" and ok: "mempool_ok B mp" and db: "db_ok (chain_db mp)"
    and d: "distinct (map fst txs)" and f: "fst ` set txs \<inter> indexed_txids mp = {}"
  shows "status \<noteq> TipMoved \<and> (status = Synced \<longrightarrow> (\<forall>t. \<not> unresolvable B mp txs t)) \<and>
    indexed_txids mp' = indexed_txids mp \<union> {t \<in> fst ` set txs. \<not> unresolvable B mp txs t}"
proof (cases "txs = []")
  case True
  have "\<not> unresolvable B mp [] t" for t by (auto elim: unresolvable.cases)
  then show ?thesis using r True by (auto simp: index_fetched_def)
next
  case False
  have "not_indexed mp txs = txs" using f unfolding not_indexed_def by (force simp: filter_id_conv)
  then have "add_fetched B now mp txs = (mp', Inr status)" using r False by (simp add: index_fetched_def)
  from add_fetched_status [OF this ok db d f] show ?thesis .
qed

text \<open>The transactions of the daemon's mempool that an update asks for and can use.\<close>

definition usable :: "mempool_rpc \<Rightarrow> txid list \<Rightarrow> tx_map \<Rightarrow> bool" where
  "usable M new kept \<longleftrightarrow>
     (\<exists>fetched. gettransactions_available M new = Inr fetched \<and>
        kept = filter (\<lambda>(t, _). \<not> descends fetched (set new - fst ` set fetched) t) fetched)"

lemma usable_keys: "usable M new kept \<Longrightarrow> distinct new \<Longrightarrow> distinct (map fst kept) \<and> fst ` set kept \<subseteq> set new"
proof -
  assume u: "usable M new kept" and d: "distinct new"
  obtain fetched where f: "gettransactions_available M new = Inr fetched"
      "kept = filter (\<lambda>(t, _). \<not> descends fetched (set new - fst ` set fetched) t) fetched"
    using u unfolding usable_def by blast
  then show ?thesis using gettransactions_available_keys [OF f(1)] d by (auto simp: distinct_keys_filter)
qed

text \<open>What is indexed after an update that evicted down to \<open>mp1\<close> and asked for \<open>new\<close>.\<close>

definition update_result :: "bitcoin_lib \<Rightarrow> mempool_rpc \<Rightarrow> txid list \<Rightarrow> 'db mempool \<Rightarrow> tx_map \<Rightarrow> mempool_sync_status \<Rightarrow> 'db mempool \<Rightarrow> bool" where
  "update_result B M new mp1 kept status mp' =
     (case status of
        TipMoved \<Rightarrow> mp' = mp1
      | Synced \<Rightarrow> usable M new kept \<and> indexed_txids mp' = indexed_txids mp1 \<union> fst ` set kept
      | FailedToIndex \<Rightarrow> usable M new kept \<and>
          indexed_txids mp' = indexed_txids mp1 \<union> {t \<in> fst ` set kept. \<not> unresolvable B mp1 kept t})"

lemma fetch_and_index_result:
  assumes r: "(if new = [] then (mp1, Inr Synced)
      else case fetch_new M best_tip new of Inl e \<Rightarrow> (mp1, Inl e) | Inr None \<Rightarrow> (mp1, Inr TipMoved)
        | Inr (Some fetched_txs) \<Rightarrow> index_fetched B now mp1 fetched_txs) = (mp', Inr status)"
    and ok: "mempool_ok B mp1" and db: "db_ok (chain_db mp1)" and d: "distinct new" and fresh: "set new \<inter> indexed_txids mp1 = {}"
  shows "\<exists>kept. update_result B M new mp1 kept status mp'"
proof -
  consider "new = []" "mp' = mp1" "status = Synced" | "fetch_new M best_tip new = Inr None" "mp' = mp1" "status = TipMoved"
    | kept where "fetch_new M best_tip new = Inr (Some kept)" "index_fetched B now mp1 kept = (mp', Inr status)"
    using r by (cases "new = []"; cases "fetch_new M best_tip new"; cases "projr (fetch_new M best_tip new)") simp_all
  then show ?thesis
  proof cases
    case 1
    then have "usable M new []" by (simp add: usable_def gettransactions_available_def)
    then show ?thesis using 1 by (intro exI [of _ "[]"]) (simp add: update_result_def)
  next
    case 2
    then show ?thesis by (simp add: update_result_def)
  next
    case 3
    have us: "usable M new kept" using fetch_new_Inr [OF 3(1) d] unfolding usable_def by metis
    note k = usable_keys [OF us d]
    have "fst ` set kept \<inter> indexed_txids mp1 = {}" using k fresh by blast
    then have "status \<noteq> TipMoved \<and> (status = Synced \<longrightarrow> (\<forall>t. \<not> unresolvable B mp1 kept t)) \<and>
        indexed_txids mp' = indexed_txids mp1 \<union> {t \<in> fst ` set kept. \<not> unresolvable B mp1 kept t}"
      using k by (intro index_fetched_status [OF 3(2) ok db]) simp_all
    then show ?thesis using us by (intro exI [of _ kept]) (cases status, auto simp: update_result_def)
  qed
qed

text \<open>
  Claim C10. What an uninterrupted \<open>Mempool::update\<close> leaves indexed, when the daemon lists the transactions \<open>txids\<close> and
  the update returns a status. First the transactions the daemon no longer lists are removed and
  all others kept. \<open>TipMoved\<close> leaves it at that. Otherwise, of the transactions asked for, those that
  are no longer available and the descendants of these are left out, and the rest is indexed: all of it
  on \<open>Synced\<close>, all but the transactions with an unresolvable input and their descendants on
  \<open>FailedToIndex\<close>.
\<close>

theorem mempool_update_outcome:
  assumes "mempool_ok B mp" and "db_ok (chain_db mp)" and "getmempooltxids M = Inr txids" and "distinct txids"
    and "mempool_update B M now best_tip mp = (mp', Inr status)"
  shows "\<exists>mp1 kept. update_evict mp (difference (mempool_txids mp) txids) = Inr mp1 \<and>
    indexed_txids mp1 = indexed_txids mp \<inter> set txids \<and>
    (case status of
       TipMoved \<Rightarrow> mp' = mp1
     | Synced \<Rightarrow> usable M (difference txids (mempool_txids mp)) kept \<and> indexed_txids mp' = indexed_txids mp1 \<union> fst ` set kept
     | FailedToIndex \<Rightarrow> usable M (difference txids (mempool_txids mp)) kept \<and>
         indexed_txids mp' = indexed_txids mp1 \<union> {t \<in> fst ` set kept. \<not> unresolvable B mp1 kept t})"
proof -
  define new where "new = difference txids (mempool_txids mp)"
  define evicted where "evicted = difference (mempool_txids mp) txids"
  have dm: "distinct (mempool_txids mp)" using assms(1) by (auto simp: mempool_ok_def mempool_inv_def mempool_txids_def)
  have d: "distinct new" "distinct evicted" using assms(4) dm by (simp_all add: new_def evicted_def difference_def)
  have s: "set evicted \<subseteq> indexed_txids mp" unfolding evicted_def difference_def set_mempool_txids [symmetric] by auto
  obtain mp1 where mp1: "update_evict mp evicted = Inr mp1" "mempool_ok B mp1"
    "map_of (mp_txstore mp1) = map_of (mp_txstore mp) |` (- set evicted)" "mp_chain mp1 = mp_chain mp"
    using update_evict_ok [OF assms(1) d(2) s] update_evict_chain [OF assms(1) d(2) s] by metis
  have i1: "indexed_txids mp1 = indexed_txids mp \<inter> set txids"
  proof -
    have "set evicted = indexed_txids mp - set txids" unfolding evicted_def difference_def set_filter set_mempool_txids by blast
    then show ?thesis unfolding mp1(3) dom_restrict by blast
  qed
  have fresh: "set new \<inter> indexed_txids mp1 = {}" unfolding i1 new_def difference_def set_filter set_mempool_txids by auto
  have u: "mempool_update B M now best_tip mp = (if new = [] then (mp1, Inr Synced)
      else case fetch_new M best_tip new of Inl e \<Rightarrow> (mp1, Inl e) | Inr None \<Rightarrow> (mp1, Inr TipMoved)
        | Inr (Some fetched_txs) \<Rightarrow> index_fetched B now mp1 fetched_txs)"
    using mp1(1) by (simp add: mempool_update_def assms(3) chain_err_def Let_def new_def [symmetric] evicted_def [symmetric])
  have "db_ok (chain_db mp1)" using assms(2) mp1(4) by simp
  from fetch_and_index_result [OF assms(5) [unfolded u] mp1(2) this d(1) fresh]
  obtain kept where k: "case status of
       TipMoved \<Rightarrow> mp' = mp1
     | Synced \<Rightarrow> usable M new kept \<and> indexed_txids mp' = indexed_txids mp1 \<union> fst ` set kept
     | FailedToIndex \<Rightarrow> usable M new kept \<and>
         indexed_txids mp' = indexed_txids mp1 \<union> {t \<in> fst ` set kept. \<not> unresolvable B mp1 kept t}"
    unfolding update_result_def ..
  show ?thesis
    by (intro exI conjI) (rule mp1(1) [unfolded evicted_def], rule i1, rule k [unfolded new_def])
qed

end
