(* ===== verification/MempoolExample.thy ===== *)
theory MempoolExample
  imports MempoolUpdate Batch History
begin

text \<open>
  A mempool with a transaction that spends another one of it, and the mempool's properties at it.
\<close>

section \<open>Four transactions\<close>

definition example_tx :: "outpoint list \<Rightarrow> (u64 \<times> bytes) list \<Rightarrow> transaction" where
  "example_tx ins outs =
     \<lparr>tx_version = 2, lock_time = 0,
      tx_input = map (\<lambda>p. \<lparr>previous_output = p, script_sig = [], tx_sequence = 0, witness = []\<rparr>) ins,
      tx_output = map (\<lambda>(v, s). \<lparr>txo_value = v, script_pubkey = s\<rparr>) outs\<rparr>"

abbreviation example_out :: "nat \<Rightarrow> nat \<Rightarrow> outpoint" where
  "example_out t i \<equiv> \<lparr>op_txid = of_nat t, op_vout = of_nat i\<rparr>"

definition example_parent :: transaction where
  "example_parent = example_tx [] [(50, [0x51]), (30, [0x52])]"

definition example_child :: transaction where
  "example_child = example_tx [example_out 11 0] [(49, [0x52])]"

definition example_orphan :: transaction where
  "example_orphan = example_tx [example_out 99 0] [(9, [0x53])]"

definition example_orphan_child :: transaction where
  "example_orphan_child = example_tx [example_out 13 0] [(8, [0x53])]"

lemmas example_txs_defs = example_parent_def example_child_def example_orphan_def example_orphan_child_def example_tx_def

definition example_batch :: tx_map where
  "example_batch = [(11, example_parent), (12, example_child)]"

definition example_orphans :: tx_map where
  "example_orphans = [(11, example_parent), (13, example_orphan), (14, example_orphan_child)]"

definition example_mempool :: "(bytes \<times> bytes) list mempool" where
  "example_mempool = mempool_new 100 example_query example_config"

definition example_daemon :: mempool_rpc where
  "example_daemon =
     \<lparr>rpc_getrawmempool = Inr [11, 12],
      rpc_getrawtransaction = (\<lambda>t. case map_of example_batch t of
         Some tx \<Rightarrow> Inr (Some tx) | None \<Rightarrow> Inl (RpcError (-5) ''No such mempool transaction'' ''getrawtransaction'')),
      rpc_getmempooltx = (\<lambda>t. case map_of example_batch t of
         Some tx \<Rightarrow> Inr tx | None \<Rightarrow> Inl (RpcError (-5) ''No such mempool transaction'' ''getrawtransaction'')),
      rpc_tip = Inr 3\<rparr>"

lemma example_mempool_fields:
  "mp_txstore example_mempool = []" "mp_edges example_mempool = []" "mp_chain example_mempool = example_query"
  "mp_config example_mempool = example_config" "mp_backlog_stats example_mempool = (backlog_stats_default, 100)"
  by (simp_all add: example_mempool_def mempool_new_def BACKLOG_STATS_TTL_def from_secs_def)

lemma example_mempool_ok: "mempool_ok B example_mempool"
  unfolding example_mempool_def by (rule mempool_ok_new)

lemma example_chain_db: "db_ok (chain_db example_mempool)"
  by (simp add: example_mempool_fields example_query_def)

lemma example_external: "external_prevouts example_lib example_batch (map snd example_batch) = {}"
  by (auto simp: external_prevouts_def get_prev_outpoints_def example_batch_def example_txs_defs mempool_lookup_txo_def get_vout_def)

lemma example_added: "\<exists>mp1. mempool_add example_lib example_mempool example_batch = Inr mp1"
  unfolding mempool_add_Inr_iff [OF example_chain_db] example_external by simp

lemma example_keys_fresh: "distinct (map fst example_batch)" "fst ` set example_batch \<inter> indexed_txids example_mempool = {}"
  "fst ` set example_batch = {11, 12}"
  by (simp_all add: example_batch_def example_mempool_fields)

theorem mempool_add_remove_witness:
  "mempool_ok example_lib example_mempool \<and>
   (\<exists>mp1 mp2. mempool_add example_lib example_mempool example_batch = Inr mp1 \<and>
      mempool_remove mp1 [12, 11] = Inr mp2 \<and> same_view example_mempool mp2)"
proof -
  obtain mp1 where mp1: "mempool_add example_lib example_mempool example_batch = Inr mp1" using example_added ..
  have "\<forall>p \<in> batch_spends example_batch. \<not> has_spend example_mempool p" by (simp add: has_spend_def example_mempool_fields)
  from mempool_add_remove [OF example_mempool_ok example_keys_fresh(1,2) this mp1, of "[12, 11]"]
  show ?thesis using mp1 example_mempool_ok example_keys_fresh(3) by auto
qed

section \<open>A broadcast during an update\<close>

lemma example_fetch: "fetch_missing example_daemon [11, 12] [] [] [] = (example_batch, [])"
  by (simp add: example_daemon_def example_batch_def)

lemma example_inserted:
  assumes "mempool_add example_lib example_mempool example_batch = Inr mp1"
  shows "insert_missing example_lib example_mempool example_batch = Inr mp1"
  using assms by (simp add: insert_missing_def not_indexed_def example_mempool_fields) (simp add: example_batch_def)

lemma example_store:
  assumes "mempool_add example_lib example_mempool example_batch = Inr mp1"
  shows "map_of (mp_txstore mp1) = map_of example_batch" "mp_config mp1 = example_config" "mp_chain mp1 = example_query"
proof -
  have b: "batch_added example_batch example_mempool mp1"
    using mempool_add_spec [OF example_mempool_ok example_keys_fresh(1,2) assms] by simp
  show "map_of (mp_txstore mp1) = map_of example_batch" using batch_addedD(3) [OF b] by (simp add: example_mempool_fields)
  show "mp_config mp1 = example_config" "mp_chain mp1 = example_query" using batch_addedD(1,2) [OF b] by (simp_all add: example_mempool_fields)
qed

definition example_sync :: "(bytes \<times> bytes) list mempool \<Rightarrow> update_pc \<Rightarrow> (bytes \<times> bytes) list sync_state" where
  "example_sync mp pc = \<lparr>sy_mempool = mp, sy_update = pc\<rparr>"

lemma example_broadcast:
  assumes "mempool_add example_lib example_mempool example_batch = Inr mp1" and "P mp1"
  shows "sync_reachable example_lib P (example_sync mp1 Idle)"
proof -
  have start: "sync_reachable example_lib P (example_sync example_mempool Idle)"
    unfolding example_sync_def example_mempool_def by (rule reach_start)
  have "sync_step example_lib (example_sync example_mempool Idle) ((example_sync example_mempool Idle)\<lparr>sy_mempool := mp1\<rparr>)"
    by (rule step_broadcast [OF example_fetch]) (simp add: example_sync_def example_inserted [OF assms(1)])
  from reach_step [OF start this] show ?thesis using assms(2) by (simp add: example_sync_def)
qed

definition example_later :: mempool_rpc where
  "example_later = example_daemon\<lparr>rpc_getrawmempool := Inr [12]\<rparr>"

theorem mempool_well_formed_witness:
  "\<exists>(s :: (bytes \<times> bytes) list sync_state) evicted new mp'. sync_reachable example_lib (\<lambda>_. True) s \<and> sy_update s = Evicting evicted new \<and> set evicted = {11} \<and>
     mempool_ok example_lib (sy_mempool s) \<and> update_evict (sy_mempool s) evicted = Inr mp'"
proof -
  obtain mp1 where mp1: "mempool_add example_lib example_mempool example_batch = Inr mp1" using example_added ..
  define evicted where "evicted = difference (mempool_txids mp1) [12]"
  define new where "new = difference [12] (mempool_txids mp1)"
  define s where "s = example_sync mp1 (Evicting evicted new)"
  have r0: "sync_reachable example_lib (\<lambda>_. True) (example_sync mp1 Idle)" by (rule example_broadcast [OF mp1 TrueI])
  have "sync_step example_lib (example_sync mp1 Idle) ((example_sync mp1 Idle)\<lparr>sy_update := Listed [12]\<rparr>)"
    by (rule step_list [of _ example_later]) (simp_all add: example_sync_def getmempooltxids_def example_later_def)
  from reach_step [OF r0 this] have r1: "sync_reachable example_lib (\<lambda>_. True) (example_sync mp1 (Listed [12]))"
    by (simp add: example_sync_def)
  have "sync_step example_lib (example_sync mp1 (Listed [12]))
      ((example_sync mp1 (Listed [12]))\<lparr>sy_update := Evicting (difference (mempool_txids mp1) [12]) (difference [12] (mempool_txids mp1))\<rparr>)"
    by (rule step_compare) (simp_all add: example_sync_def)
  from reach_step [OF r1 this] have r2: "sync_reachable example_lib (\<lambda>_. True) s"
    by (simp add: example_sync_def s_def evicted_def new_def)
  have u: "sy_update s = Evicting evicted new" by (simp add: s_def example_sync_def)
  have "set evicted = {11}"
    unfolding evicted_def difference_def set_filter set_mempool_txids example_store(1) [OF mp1]
    by (auto simp: example_batch_def split: if_splits)
  moreover obtain mp' where "update_evict (sy_mempool s) evicted = Inr mp'" using mempool_well_formed [OF r2] u by blast
  moreover have "mempool_ok example_lib (sy_mempool s)" using mempool_well_formed [OF r2] by blast
  ultimately show ?thesis using u r2
    by - (intro exI [of _ s] exI [of _ evicted] exI [of _ new] exI [of _ mp'] conjI; assumption)
qed

section \<open>Unspent outputs\<close>

lemma tx_entries_length: "tx_entries B c t tx prevouts = Inr es \<Longrightarrow> length es \<le> length (tx_output tx) + length prevouts"
proof -
  assume "tx_entries B c t tx prevouts = Inr es"
  then obtain ss where ss: "collect (map (spending_entry B t tx) prevouts) = Inr ss"
    and es: "es = map (funding_entry B t) (filter (\<lambda>(_, txo). is_spendable B txo \<or> index_unspendables c) (enum32 (tx_output tx))) @ ss"
    by (auto simp: tx_entries_def rmap_Inr_iff)
  have "length ss = length prevouts" using ss unfolding collect_map_iff by (simp add: list_all2_lengthD)
  moreover have "length (filter (\<lambda>(_, txo). is_spendable B txo \<or> index_unspendables c) (enum32 (tx_output tx))) \<le> length (tx_output tx)"
    using length_filter_le [of "\<lambda>(_, txo). is_spendable B txo \<or> index_unspendables c" "enum32 (tx_output tx)"] by simp
  ultimately show ?thesis unfolding es by simp
qed

lemma extract_tx_prevouts_length: "extract_tx_prevouts B tx txos False = Inr pv \<Longrightarrow> length pv \<le> length (tx_input tx)"
proof -
  assume "extract_tx_prevouts B tx txos False = Inr pv"
  then obtain xss where x: "collect (map (\<lambda>(i, txi). case txos (previous_output txi) of
        Some txo \<Rightarrow> Inr [(i, txo)] | None \<Rightarrow> if False then Inr [] else Inl (Panic ''missing outpoint''))
       (filter (\<lambda>(i, txi). has_prevout B txi) (enum32 (tx_input tx)))) = Inr xss" and pv: "pv = concat xss"
    unfolding extract_tx_prevouts_def rmap_Inr_iff by blast
  have "length xs \<le> 1" if "xs \<in> set xss" for xs
    using that unfolding collect_map_mem [OF x] by (auto split: option.splits)
  then have "length (concat xss) \<le> length xss"
  proof (induction xss)
    case (Cons xs xss)
    have "length xs \<le> 1" "length (concat xss) \<le> length xss" using Cons by simp_all
    then show ?case by simp
  qed simp
  moreover have "length xss = length (filter (\<lambda>(i, txi). has_prevout B txi) (enum32 (tx_input tx)))"
    using x unfolding collect_map_iff by (simp add: list_all2_lengthD)
  moreover have "length (filter (\<lambda>(i, txi). has_prevout B txi) (enum32 (tx_input tx))) \<le> length (tx_input tx)"
    using length_filter_le [of "\<lambda>(i, txi). has_prevout B txi" "enum32 (tx_input tx)"] by simp
  ultimately show ?thesis unfolding pv by linarith
qed

lemma length_split_filter: "\<forall>x \<in> set xs. P x \<or> Q x \<Longrightarrow> length xs \<le> length (filter P xs) + length (filter Q xs)"
  by (induction xs) auto

lemma example_history_length:
  assumes "mempool_add example_lib example_mempool example_batch = Inr mp1"
  shows "length (entries_at (mp_history mp1) sh) \<le> 10"
proof -
  have "mempool_ok example_lib mp1" using mempool_add_spec [OF example_mempool_ok example_keys_fresh(1,2) assms] by simp
  then obtain E where inv: "mempool_inv example_lib mp1 E" by (auto simp: mempool_ok_def)
  have dom: "indexed_txids mp1 = {11, 12}" unfolding example_store(1) [OF assms] by (auto simp: example_batch_def)
  have h: "history_ok (indexed_txids mp1) (mp_history mp1) E" using inv by (simp add: mempool_inv_def)
  have len: "length (touching sh (E t)) \<le> 4" if t: "t \<in> {11, 12}" for t
  proof -
    obtain tx txos pv where tx: "map_of (mp_txstore mp1) t = Some tx" "extract_tx_prevouts example_lib tx txos False = Inr pv"
      "tx_entries example_lib (mp_config mp1) t tx pv = Inr (E t)"
      using inv t unfolding mempool_inv_def tx_indexed_def dom by blast
    have "length (tx_input tx) \<le> 1" "length (tx_output tx) \<le> 2"
      using tx(1) t unfolding example_store(1) [OF assms] by (auto simp: example_batch_def example_txs_defs)
    then have "length (E t) \<le> 4" using tx_entries_length [OF tx(3)] extract_tx_prevouts_length [OF tx(2)] by linarith
    then show ?thesis unfolding touching_def by (metis le_trans length_filter_le length_map)
  qed
  have "\<forall>e \<in> set (entries_at (mp_history mp1) sh). of_txid 11 e \<or> of_txid 12 e"
    using h unfolding history_ok_def dom by blast
  from length_split_filter [OF this] show ?thesis using h len [of 11] len [of 12] unfolding history_ok_def dom by simp
qed

lemma example_conflict_free:
  assumes "mempool_add example_lib example_mempool example_batch = Inr mp1"
  shows "conflict_free (mp_txstore mp1)"
  unfolding conflict_free_def example_store(1) [OF assms]
  by (auto simp: example_batch_def example_txs_defs spent_by_def split: if_splits)

theorem mempool_utxo_exact_witness:
  "\<exists>(s :: (bytes \<times> bytes) list sync_state) us. sync_reachable example_lib (\<lambda>mp. conflict_free (mp_txstore mp)) s \<and>
     mempool_utxo (sy_mempool s) 0x52 = Inr us \<and>
     \<lparr>ut_txid = 12, ut_vout = 0, ut_confirmed = None, ut_value = 49\<rparr> \<in> set us \<and>
     set us = unspent_outputs example_lib (sy_mempool s) 0x52"
proof -
  obtain mp1 where mp1: "mempool_add example_lib example_mempool example_batch = Inr mp1" using example_added ..
  define s where "s = example_sync mp1 Idle"
  have r: "sync_reachable example_lib (\<lambda>mp. conflict_free (mp_txstore mp)) s"
    unfolding s_def by (rule example_broadcast [OF mp1]) (rule example_conflict_free [OF mp1])
  have m: "sy_mempool s = mp1" by (simp add: s_def example_sync_def)
  have "\<not> spent_in_mempool mp1 \<lparr>op_txid = 12, op_vout = 0\<rparr>"
    unfolding spent_in_mempool_def example_store(1) [OF mp1]
    by (auto simp: example_batch_def example_txs_defs spent_by_def split: if_splits)
  moreover have "pays example_lib mp1 0x52 12 0 \<lparr>txo_value = 49, script_pubkey = [0x52]\<rparr>"
    unfolding pays_def example_store [OF mp1]
    by (simp add: example_batch_def example_txs_defs compute_script_hash_def is_spendable_def example_lib_def)
  ultimately have "\<lparr>ut_txid = 12, ut_vout = 0, ut_confirmed = None, ut_value = 49\<rparr> \<in> unspent_outputs example_lib mp1 0x52"
    unfolding unspent_outputs_def by force
  moreover have "length (entries_at (mp_history mp1) 0x52) \<le> utxos_checkpoint_limit (mp_chain mp1)"
    unfolding example_store(3) [OF mp1] using example_history_length [OF mp1, of "0x52"] by (simp add: example_query_def)
  ultimately obtain us where "mempool_utxo (sy_mempool s) 0x52 = Inr us" "set us = unspent_outputs example_lib (sy_mempool s) 0x52"
      "\<lparr>ut_txid = 12, ut_vout = 0, ut_confirmed = None, ut_value = 49\<rparr> \<in> set us"
    using mempool_utxo_exact [OF r, of "0x52"] unfolding m by auto
  then show ?thesis using r by - (intro exI [of _ s] exI [of _ us] conjI; assumption)
qed

section \<open>Orphans\<close>

lemma example_unresolved: "\<not> resolved example_lib example_mempool (example_out 99 0)"
  by (simp add: resolved_def example_mempool_fields mempool_lookup_txo_def cq_lookup_txo_def lookup_txo_def
      example_query_def db_reads)

lemma example_orphan_unresolvable: "unresolvable example_lib example_mempool example_orphans 13"
proof (rule unresolvable_input [OF _ _ _ example_unresolved])
  show "(13, example_orphan) \<in> set example_orphans" by (simp add: example_orphans_def)
  show "example_out 99 0 \<in> get_prev_outpoints example_lib [example_orphan]"
    by (simp add: get_prev_outpoints_def example_txs_defs has_prevout_def example_lib_def)
  show "mempool_lookup_txo example_orphans (example_out 99 0) = None"
    by (simp add: mempool_lookup_txo_def example_orphans_def)
qed

lemma example_orphan_child_unresolvable: "unresolvable example_lib example_mempool example_orphans 14"
  by (rule unresolvable_parent [OF _ example_orphan_unresolvable, of _ example_orphan_child])
    (simp_all add: example_orphans_def spends_from_def example_txs_defs)

theorem drop_unresolvable_recovers_witness:
  "db_ok (chain_db example_mempool) \<and>
   (\<nexists>mp'. mempool_add example_lib example_mempool example_orphans = Inr mp') \<and>
   (\<exists>dropped rest mp'. drop_unresolvable example_lib example_mempool example_orphans = Inr (dropped, rest) \<and>
      13 \<in> dropped \<and> 14 \<in> dropped \<and> mempool_add example_lib example_mempool rest = Inr mp')"
proof -
  note r = drop_unresolvable_recovers [OF example_chain_db, of example_lib example_orphans]
  have "\<nexists>mp'. mempool_add example_lib example_mempool example_orphans = Inr mp'"
    using r example_orphan_unresolvable by blast
  moreover have "\<exists>dropped rest mp'. drop_unresolvable example_lib example_mempool example_orphans = Inr (dropped, rest) \<and>
      13 \<in> dropped \<and> 14 \<in> dropped \<and> mempool_add example_lib example_mempool rest = Inr mp'"
    using r example_orphan_unresolvable example_orphan_child_unresolvable by blast
  ultimately show ?thesis using example_chain_db by blast
qed

section \<open>An update\<close>

lemma example_available: "gettransactions_available example_daemon [11, 12] = Inr example_batch"
  by (simp add: gettransactions_available_def available_tx_def example_daemon_def example_batch_def)

lemma example_fetched: "fetch_new example_daemon 3 [11, 12] = Inr (Some example_batch)"
proof -
  have "drop_replaced example_batch {} = example_batch" by (simp add: drop_replaced.simps)
  then show ?thesis using example_available
    by (simp add: fetch_new_def) (simp add: example_daemon_def example_batch_def)
qed

lemma example_index_fetched:
  assumes "mempool_add example_lib example_mempool example_batch = Inr mp1"
  shows "index_fetched example_lib 5 example_mempool example_batch = indexed_with 5 mp1 Synced"
proof -
  have "not_indexed example_mempool example_batch = example_batch" by (simp add: not_indexed_def example_mempool_fields)
  then show ?thesis using assms by (simp add: index_fetched_def add_fetched_def) (simp add: example_batch_def)
qed

lemma example_updated:
  assumes "mempool_add example_lib example_mempool example_batch = Inr mp1"
  shows "mempool_update example_lib example_daemon 5 3 example_mempool = (mp1, Inr Synced)"
proof -
  have "indexed_with 5 mp1 Synced = (mp1, Inr Synced)"
    by (auto simp: indexed_with_def refresh_backlog_def BACKLOG_STATS_TTL_def from_secs_def)
  moreover have "getmempooltxids example_daemon = Inr [11, 12]" by (simp add: getmempooltxids_def example_daemon_def)
  moreover have "mempool_txids example_mempool = []" by (simp add: mempool_txids_def example_mempool_fields)
  ultimately show ?thesis
    using example_fetched example_index_fetched [OF assms]
    by (simp add: mempool_update_def chain_err_def difference_def update_evict_def)
qed

theorem mempool_update_outcome_witness:
  "mempool_ok example_lib example_mempool \<and> db_ok (chain_db example_mempool) \<and>
   (\<exists>mp' kept. mempool_update example_lib example_daemon 5 3 example_mempool = (mp', Inr Synced) \<and>
      usable example_daemon [11, 12] kept \<and> indexed_txids mp' = fst ` set kept \<and> 12 \<in> indexed_txids mp')"
proof -
  obtain mp1 where mp1: "mempool_add example_lib example_mempool example_batch = Inr mp1" using example_added ..
  have m: "getmempooltxids example_daemon = Inr [11, 12]" by (simp add: getmempooltxids_def example_daemon_def)
  have t: "mempool_txids example_mempool = []" by (simp add: mempool_txids_def example_mempool_fields)
  have d: "distinct [11, 12 :: txid]" by simp
  from mempool_update_outcome [OF example_mempool_ok example_chain_db m d example_updated [OF mp1]]
  obtain mp0 kept where e: "update_evict example_mempool (difference [] [11, 12]) = Inr mp0"
      "usable example_daemon (difference [11, 12] []) kept" "indexed_txids mp1 = indexed_txids mp0 \<union> fst ` set kept"
    unfolding t by auto
  have "indexed_txids mp0 = {}" using e(1) by (simp add: update_evict_def difference_def example_mempool_fields)
  moreover have "usable example_daemon [11, 12] kept" using e(2) by (simp add: difference_def)
  moreover have "12 \<in> indexed_txids mp1" unfolding example_store(1) [OF mp1] by (simp add: example_batch_def)
  ultimately show ?thesis using example_updated [OF mp1] e(3) example_mempool_ok example_chain_db by auto
qed

end
