(* ===== verification/ApiExample.thy ===== *)
theory ApiExample
  imports Api MempoolExample
begin

text \<open>The query interface at a mempool over a short chain, and a daemon that accepts what it is sent.\<close>

definition example_api :: "(bytes \<times> bytes) list mempool \<Rightarrow> (bytes \<times> bytes) list query" where
  "example_api mp = query_new mp 10 Regtest"

lemma example_api_fields [simp]:
  "qy_mempool (example_api mp) = mp" "qy_utxos_limit (example_api mp) = 10"
  by (simp_all add: example_api_def query_new_def)

theorem query_utxo_combined_witness:
  "\<exists>q :: (bytes \<times> bytes) list query. query_ok (qy_chain q) \<and> 12 \<in> indexed_txids (qy_mempool q) \<and>
    (case query_utxo example_lib q 7 of (q', r) \<Rightarrow> query_ok (qy_chain q') \<and>
      (case r of
         Inr us \<Rightarrow> set us = confirmed_unspent q 7 \<union> unspent_outputs example_lib (qy_mempool q) 7 \<and> length us \<le> 10
       | Inl e \<Rightarrow> e = TooBigHistory \<or> e = TooManyUtxos))"
proof -
  obtain mp1 where mp1: "mempool_add example_lib example_mempool example_batch = Inr mp1" using example_added ..
  define s where "s = example_sync mp1 Idle"
  have r: "sync_reachable example_lib (\<lambda>mp. conflict_free (mp_txstore mp)) s"
    unfolding s_def by (rule example_broadcast [OF mp1]) (rule example_conflict_free [OF mp1])
  have c: "qy_chain (example_api mp1) = example_query" by (simp add: example_store(3) [OF mp1])
  have ok: "query_ok (qy_chain (example_api mp1))" "\<forall>s. utxo_cache_valid example_lib (qy_chain (example_api mp1)) s"
    unfolding c using example_query_ok by blast+
  have m: "qy_mempool (example_api mp1) = sy_mempool s" by (simp add: s_def example_sync_def)
  have "12 \<in> indexed_txids (qy_mempool (example_api mp1))"
    by (simp add: example_store(1) [OF mp1]) (simp add: example_batch_def)
  then show ?thesis using ok(1) query_utxo_combined [OF ok(1) example_lib_laws ok(2) r m, of 7]
    by (intro exI [of _ "example_api mp1"]) (auto split: prod.splits sum.splits)
qed

theorem lookup_tx_spends_batched_witness:
  "db_ok (history_db (cq_store (qy_chain (example_api example_mempool)))) \<and>
   lookup_tx_spends example_lib (example_api example_mempool) example_parent =
     collect (map (spend_of_output example_lib (example_api example_mempool) (compute_txid example_lib example_parent))
       (enum32 (tx_output example_parent))) \<and>
   length (tx_output example_parent) = 2"
proof -
  have "db_ok (history_db (cq_store (qy_chain (example_api example_mempool))))"
    by (simp add: example_mempool_fields example_query_def)
  moreover have n: "length (tx_output example_parent) = 2" by (simp add: example_txs_defs)
  ultimately show ?thesis using lookup_tx_spends_batched [of "example_api example_mempool" example_parent example_lib] by simp
qed

definition example_result :: submit_package_result where
  "example_result =
     \<lparr>package_msg = ''success'',
      tx_results = [(''wp'', \<lparr>tr_txid = ''p'', tr_other_wtxid = None, tr_error = None\<rparr>),
                    (''wc'', \<lparr>tr_txid = ''c'', tr_other_wtxid = None, tr_error = None\<rparr>)]\<rparr>"

definition example_sender :: broadcast_lib where
  "example_sender =
     \<lparr>parse_txid = (\<lambda>s. if s = ''p'' then Some 11 else if s = ''c'' then Some 12 else None),
      parse_wtxid = (\<lambda>_. None), from_hex = (\<lambda>_. None), compute_wtxid = (\<lambda>_. 0),
      rpc_sendrawtransaction = (\<lambda>_. Inr 11),
      rpc_submitpackage = (\<lambda>_ _ _. Inr example_result)\<rparr>"

theorem broadcast_raw_outcome_witness:
  "mempool_ok example_lib example_mempool \<and> db_ok (chain_db example_mempool) \<and>
   (\<exists>q'. broadcast_raw example_lib example_sender example_daemon (example_api example_mempool) ''00'' = (q', Inr 11) \<and>
      map_of (mp_txstore (qy_mempool q')) = [11 \<mapsto> example_parent])"
proof -
  obtain q' r where b: "broadcast_raw example_lib example_sender example_daemon (example_api example_mempool) ''00'' = (q', r)"
    by fastforce
  have d: "rpc_getmempooltx example_daemon 11 = Inr example_parent" by (simp add: example_daemon_def example_batch_def)
  have s: "rpc_sendrawtransaction example_sender ''00'' = Inr 11" by (simp add: example_sender_def)
  have "batch_resolved example_lib example_mempool [(11, example_parent)]"
    by (simp add: batch_resolved_def external_prevouts_def get_prev_outpoints_def example_txs_defs)
  with broadcast_raw_outcome [OF _ _ b] show ?thesis
    using b example_mempool_ok example_chain_db by (simp add: d s example_mempool_fields)
qed


end
