(* ===== verification/Spec2Isabelle.thy ===== *)
theory Spec2Isabelle
  imports Block Rows Db Store Daemon Fetch Indexer Recovery Query History Stats Serve Cleanup Rewrite Restore ProofServer ApiExample
begin

text \<open>
  A verification development for electrs, the index server behind Electrum wallets and the Esplora block
  explorer, in its Bitcoin build. The paths below are relative to the crate, \<^verbatim>\<open>src/src/\<close> in this
  repository without the first \<^verbatim>\<open>src/\<close>.

  \<^bold>\<open>The program.\<close> An indexer thread asks bitcoind for new headers, fetches the blocks over RPC or from its
  \<open>blk*.dat\<close> files, and writes their transactions and the history of every script into three RocksDB
  databases. When the node reorganises, it first removes the history of the blocks that left the chain.
  It publishes the new headers and the synced tip once the blocks below them are complete. Servers answer
  from the databases through \<open>ChainQuery\<close>, with caches of a script's statistics and unspent outputs, and from
  a local copy of the node's mempool, which a second loop keeps in step with the node; \<open>Query\<close> puts the
  two together. Electrum clients also ask for merkle proofs of transactions and of headers below a
  checkpoint, whose trees are cached and shared between requests.

  \<^bold>\<open>Conventions\<close> (theory \<open>Prelude\<close>). A fallible function returns \<open>error + 'a\<close>; a panic, which aborts the
  process in the release profile, is the error \<open>Panic\<close> that no handler of the model catches. Integers are
  words where their width can be seen and natural numbers where they count or index; release builds wrap.
  State is passed explicitly, and an operation that can fail half way returns the state of the writes it
  made. Clock readings are arguments. Code outside the repository is a parameter: the \<open>bitcoin\<close> crate
  (\<open>bitcoin_lib\<close> with the hypotheses \<open>bitcoin_laws\<close>), RocksDB (\<open>rocksdb\<close> with \<open>rocksdb_laws\<close>, gathered in \<open>db_ok\<close>),
  and the answers of bitcoind (\<open>daemon_rpc\<close>, \<open>light_rpc\<close>, \<open>mempool_rpc\<close>, \<open>broadcast_lib\<close>, \<open>fee_rpc\<close>), about which
  nothing is assumed unless a theorem says so. \<open>Instances\<close> gives a concrete library that meets the laws,
  \<open>Db\<close> a list that meets the laws of a database, and every theorem with hypotheses is applied at concrete
  data in its \<open>_witness\<close>.

  \<^bold>\<open>Theories and sources.\<close>
  \<^item> \<open>Chain\<close>, \<open>Instances\<close>: \<^verbatim>\<open>src/chain.rs\<close>, \<^verbatim>\<open>src/util/transaction.rs\<close>, \<^verbatim>\<open>src/util/script.rs\<close>.
  \<^item> \<open>Block\<close>: \<^verbatim>\<open>src/util/block.rs\<close>. \<open>header_list\<close> is \<open>HeaderList\<close> with its hash index, \<open>hl_inv\<close> its invariant;
    following a new tip by \<open>preprocess\<close>, \<open>hl_pop\<close> and \<open>hl_append\<close> never panics and yields the new chain, loading
    accepts exactly the chains, the median time past is the median.
  \<^item> \<open>Bincode\<close>, \<open>Rows\<close>: \<^verbatim>\<open>src/util/bincode.rs\<close> and the row types of \<^verbatim>\<open>src/new_index/schema.rs\<close>. The locale \<open>codec\<close> is
    the contract of a writer and its reader, interpreted for every encoded type; keys are injective and
    their order is the order of confirmation.
  \<^item> \<open>Db\<close>: \<^verbatim>\<open>src/new_index/db.rs\<close>. The locale \<open>kv_store\<close> is what the rest relies on, interpreted on the wrapper;
    scans are complete although RocksDB only promises order within a 33-byte prefix.
  \<^item> \<open>Store\<close>, \<open>Indexer\<close>, \<open>Batch\<close>, \<open>Recovery\<close>: \<open>Store\<close> and the write path of \<open>Indexer\<close> in \<^verbatim>\<open>src/new_index/schema.rs\<close>. A
    batch is written completely or fails for a missing output; adding, indexing and publishing keep a store
    whose memory \<open>Store::open\<close> restores from the databases; the synced tip never passes a gap.
  \<^item> \<open>Daemon\<close>, \<open>Fetch\<close>: the chain-following calls of \<^verbatim>\<open>src/daemon.rs\<close> and \<^verbatim>\<open>src/new_index/fetch.rs\<close>. Whatever the node
    answers, only requested blocks and connected headers are accepted.
  \<^item> \<open>Reorg\<close>, \<open>Update\<close>, \<open>Undo\<close>, \<open>Cleanup\<close>, \<open>Rewrite\<close>, \<open>Restore\<close>: \<^verbatim>\<open>src/new_index/schema/reorg.rs\<close> and
    \<open>Indexer::update\<close>. A cleanup is a sequence of durable steps after each of which a restart recovers
    and the caches are valid; undoing a batch restores the history; an interrupted rewrite is resumed.
  \<^item> \<open>Query\<close>, \<open>History\<close>, \<open>Stats\<close>, \<open>Serve\<close>: \<open>ChainQuery\<close> in \<^verbatim>\<open>src/new_index/schema.rs\<close>. The caches do not change any answer,
    unspent outputs are those funded and never spent, an indexed block is served byte for byte.
  \<^item> \<open>Merkle\<close>, \<open>Checkpoint\<close>, \<open>Evict\<close>, \<open>Concurrent\<close>, \<open>ProofServer\<close>: \<^verbatim>\<open>src/util/electrum_merkle.rs\<close>. Requests are threads
    whose steps are the critical sections and atomic operations of the code, interleaved with changes of
    the chain; returned proofs are right, resources stay bounded and are given back, requests end.
  \<^item> \<open>Fees\<close>: \<^verbatim>\<open>src/util/fees.rs\<close>, with \<open>f64\<close> as rationals rounded to 53 bits at every operation.
  \<^item> \<open>Mempool\<close>, \<open>MempoolIndex\<close>, \<open>MempoolSync\<close>, \<open>MempoolUtxo\<close>, \<open>MempoolResolve\<close>, \<open>MempoolUpdate\<close>, \<open>MempoolExample\<close>:
    \<^verbatim>\<open>src/new_index/mempool.rs\<close>. \<open>sync_step\<close> interleaves the locked sections of an update with broadcasts and
    growth of the chain; the indexes always agree with the stored transactions, so no removal panics; the
    outcome of an update, of a batch with orphans and of the unspent-output query is exact.
  \<^item> \<open>Api\<close>, \<open>ApiExample\<close>: \<^verbatim>\<open>src/new_index/query.rs\<close>. Unspent outputs and spends of chain and mempool together,
    and what a broadcast transaction or package adds to the mempool.

  \<^bold>\<open>Loops.\<close> Every loop is a total function except \<open>new_headers_loop\<close>, the walk back along the node's headers: a
  node can answer so that it never ends, so it is a partial function with the result \<open>None\<close>, and
  \<open>new_headers_returned\<close> shows that it ends when the node serves a chain. Only the list
  decoder of the example library in \<open>Instances\<close> takes fuel, one more than the length of its input.

  \<^bold>\<open>Not modelled.\<close> The Electrum and REST servers, server discovery, ZMQ and the JSON-RPC transport, which are
  socket I/O and JSON around the modelled functions; the block template cache, which is asynchronous code
  around one daemon call; the command line, configuration, signals, metrics and tracing; the migration and
  statistics tools; tuning options of RocksDB; the Liquid build. Threads are modelled where they share state
  that matters, in the checkpoint cache and the mempool; the indexer's producer threads are modelled by
  what they deliver. Mutex poisoning cannot occur since a panic aborts.
\<close>

end
